(* ===== verification/Prelude.thy ===== *)
theory Prelude
  imports Main "HOL-Library.Word"
begin

text \<open>
  What every component shares: the machine integers of the crate at their width
  (\<open>Sequence = i64\<close>, \<open>usize\<close>, \<open>u64\<close>), panics and errors as values, powers of
  two and the arithmetic of index masks, and the collection \<open>no_wrap\<close> of facts by which an
  in-range \<open>i64\<close> operation is the integer operation.

  An \<open>i64\<close> is an \<open>int\<close>, and every arithmetic operation of the source is followed by
  \<open>i64\<close>, which wraps to 64 bits in two's complement: the semantics of a release build.
  Casts between widths are \<open>i64\<close> and \<open>u64\<close> as well.
\<close>

unbundle bit_operations_syntax

named_theorems no_wrap "i64 operations that stay in range are integer operations"

section \<open>Machine integers\<close>

type_synonym sequence = int

definition i64 :: "int \<Rightarrow> int" where
  "i64 x = signed_take_bit 63 x"

definition u64 :: "int \<Rightarrow> nat" where
  "u64 x = nat (take_bit 64 x)"

definition in_i64 :: "int \<Rightarrow> bool" where
  "in_i64 x \<longleftrightarrow> - (2 ^ 63) \<le> x \<and> x < 2 ^ 63"

definition i64_MAX :: int where
  "i64_MAX = 2 ^ 63 - 1"

text \<open>\<open>i64::saturating_add_unsigned\<close> of the standard library.\<close>

definition saturating_add_unsigned :: "int \<Rightarrow> nat \<Rightarrow> int" where
  "saturating_add_unsigned a n = min (a + int n) i64_MAX"

lemma i64_range: "in_i64 (i64 x)"
  using signed_take_bit_int_greater_eq_minus_exp [of 63 x]
    signed_take_bit_int_less_exp [of 63 x]
  by (simp add: in_i64_def i64_def)

lemma i64_id [no_wrap]: "in_i64 x \<Longrightarrow> i64 x = x"
  by (simp add: i64_def in_i64_def signed_take_bit_int_eq_self)

lemma in_i64_iff: "in_i64 x \<longleftrightarrow> - 9223372036854775808 \<le> x \<and> x < 9223372036854775808"
  by (simp add: in_i64_def)

lemma i64_as_mod: "i64 x = (x + 2 ^ 63) mod 2 ^ 64 - 2 ^ 63"
  by (simp add: i64_def signed_take_bit_eq_take_bit_shift take_bit_eq_mod)

text \<open>Wrapping once at the end is as good as wrapping after every operation.\<close>

lemma i64_cong: "i64 x = i64 y \<longleftrightarrow> x mod 2 ^ 64 = y mod 2 ^ 64"
proof -
  have "i64 x = i64 y \<longleftrightarrow> take_bit 64 x = take_bit 64 y"
    using signed_take_bit_eq_iff_take_bit_eq [of 63 x y] by (simp add: i64_def)
  then show ?thesis
    by (simp add: take_bit_eq_mod)
qed

lemma i64_mod: "i64 x mod 2 ^ 64 = x mod 2 ^ 64"
  by (metis i64_cong i64_def signed_take_bit_signed_take_bit min.idem)

lemma i64_add_left [simp]: "i64 (i64 x + y) = i64 (x + y)"
  by (metis i64_cong i64_mod mod_add_left_eq)

lemma i64_add_right [simp]: "i64 (x + i64 y) = i64 (x + y)"
  by (metis i64_cong i64_mod mod_add_right_eq)

lemma i64_diff_left [simp]: "i64 (i64 x - y) = i64 (x - y)"
  by (metis i64_cong i64_mod mod_diff_left_eq)

lemma i64_diff_right [simp]: "i64 (x - i64 y) = i64 (x - y)"
  by (metis i64_cong i64_mod mod_diff_right_eq)

lemma u64_nonneg: "0 \<le> x \<Longrightarrow> x < 2 ^ 64 \<Longrightarrow> u64 x = nat x"
  by (simp add: u64_def take_bit_int_eq_self)

lemma u64_less: "u64 x < 2 ^ 64"
  using take_bit_int_less_exp [of 64 x] by (simp add: u64_def nat_less_iff)

lemma i64_of_small_nat [no_wrap]: "n < 2 ^ 63 \<Longrightarrow> i64 (int n) = int n"
  by (rule i64_id) (simp add: in_i64_def)

section \<open>Panics\<close>

datatype panic = Panic string

type_synonym 'a fallible = "panic + 'a"

section \<open>Powers of two and index masks\<close>

text \<open>\<open>usize::is_power_of_two\<close> of the standard library: exactly one bit is set.\<close>

definition is_power_of_two :: "nat \<Rightarrow> bool" where
  "is_power_of_two n \<longleftrightarrow> n \<noteq> 0 \<and> n AND (n - 1) = 0"

text \<open>\<open>usize::ilog2\<close>, for a non-zero argument.\<close>

fun ilog2 :: "nat \<Rightarrow> nat" where
  "ilog2 n = (if n \<le> 1 then 0 else Suc (ilog2 (n div 2)))"

declare ilog2.simps [simp del]

lemma power_of_two_step:
  assumes "m AND (m - Suc 0) = 0" "0 < (m::nat)" 
  shows "\<exists>k. m = 2 ^ k"
  using assms
proof (induction m rule: less_induct)
  case (less m)
  show ?case
  proof (cases "m = 1")
    case True
    then show ?thesis by (auto intro: exI [of _ 0])
  next
    case False
    have split: "m AND (m - 1) = of_bool (odd m \<and> odd (m - 1)) + 2 * ((m div 2) AND ((m - 1) div 2))"
      by (rule and_nat_rec)
    have "even m"
    proof (rule ccontr)
      assume "odd m"
      then have "(m - 1) div 2 = m div 2" by (auto elim: oddE)
      with split less.prems have "m div 2 = 0" by simp
      with False less.prems show False by presburger
    qed
    then obtain h where h: "m = 2 * h" by blast
    with less.prems have "(m - 1) div 2 = h - 1" by presburger
    with split h less.prems have "h AND (h - 1) = 0" by simp
    with less.IH [of h] h less.prems obtain k where "h = 2 ^ k" by auto
    with h show ?thesis by (auto intro: exI [of _ "Suc k"])
  qed
qed

lemma is_power_of_two_iff: "is_power_of_two n \<longleftrightarrow> (\<exists>k. n = 2 ^ k)"
proof
  assume "is_power_of_two n"
  then show "\<exists>k. n = 2 ^ k"
    by (auto simp: is_power_of_two_def intro: power_of_two_step)
next
  assume "\<exists>k. n = 2 ^ k"
  then obtain k where k: "n = 2 ^ k" ..
  have "n AND (n - 1) = take_bit k n"
    by (simp add: k take_bit_eq_mask mask_eq_exp_minus_1)
  then show "is_power_of_two n"
    by (simp add: is_power_of_two_def k)
qed

lemma ilog2_exp [simp]: "ilog2 (2 ^ k) = k"
proof (induction k)
  case 0
  then show ?case by (simp add: ilog2.simps)
next
  case (Suc k)
  have "(0::nat) < 2 ^ k" by simp
  then have "\<not> (2::nat) * 2 ^ k \<le> Suc 0" by linarith
  with Suc show ?case by (subst ilog2.simps) simp
qed

lemma int_and_mask: "x AND (2 ^ k - 1) = x mod 2 ^ k" for x :: int
  by (simp add: take_bit_eq_mask [symmetric] mask_eq_exp_minus_1 [symmetric] take_bit_eq_mod)

lemma nat_and_mask: "x AND (2 ^ k - Suc 0) = x mod 2 ^ k" for x :: nat
  by (metis One_nat_def mask_eq_exp_minus_1 take_bit_eq_mask take_bit_eq_mod)


text \<open>Two numbers less than \<open>N\<close> apart have the same residue only if they are equal.\<close>

lemma mod_window_inj:
  fixes x y N :: int
  assumes "x mod N = y mod N" "\<bar>x - y\<bar> < N"
  shows "x = y"
proof -
  from assms(1) have "N dvd x - y" by (simp add: mod_eq_dvd_iff)
  with assms(2) show ?thesis
    using zdvd_imp_le [of N "\<bar>x - y\<bar>"] by force
qed
lemma mod_plus_one:
  fixes s N :: int
  assumes "0 < N"
  shows "(s + 1) mod N = (if s mod N = N - 1 then 0 else s mod N + 1)"
proof -
  have "(s + 1) mod N = (s mod N + 1) mod N" by (simp add: mod_add_left_eq)
  moreover have "s mod N < N" "0 \<le> s mod N" using assms by simp_all
  ultimately show ?thesis by (auto intro: mod_pos_pos_trivial)
qed

lemma div_plus_one:
  fixes s N :: int
  assumes "0 < N"
  shows "(s + 1) div N = (if (s + 1) mod N = 0 then s div N + 1 else s div N)"
proof -
  have nz: "s mod N + 1 \<noteq> 0" using pos_mod_sign [OF assms, of s] by linarith
  have eqs: "s + 1 = N * ((s + 1) div N) + (s + 1) mod N" "s = N * (s div N) + s mod N" by simp_all
  have "N * ((s + 1) div N - s div N) = s mod N + 1 - (s + 1) mod N"
    using eqs by (simp add: algebra_simps)
  also have "\<dots> = (if (s + 1) mod N = 0 then N else 0)"
    using mod_plus_one [OF assms, of s] nz assms by (auto split: if_splits)
  finally have "N * ((s + 1) div N - s div N) = N * (if (s + 1) mod N = 0 then 1 else 0)" by simp
  then show ?thesis using assms by (auto split: if_splits)
qed

section \<open>Minimum of a list by a fold\<close>

text \<open>
  The slowest consumer is found by a fold that starts at \<open>i64::MAX\<close>
  (\<open>MultiConsumerBarrier::get_after\<close>); what the clients need is below.
\<close>

lemma fold_min_ge:
  "b \<le> fold (\<lambda>x. min (f x)) xs (a::int) \<longleftrightarrow> b \<le> a \<and> (\<forall>x\<in>set xs. b \<le> f x)"
  by (induction xs arbitrary: a) auto

lemma fold_min_le_init: "fold (\<lambda>x. min (f x)) xs (a::int) \<le> a"
  using fold_min_ge [of "fold (\<lambda>x. min (f x)) xs a" f xs a] by simp

lemma fold_min_le_elem: "x \<in> set xs \<Longrightarrow> fold (\<lambda>x. min (f x)) xs (a::int) \<le> f x"
  using fold_min_ge [of "fold (\<lambda>x. min (f x)) xs a" f xs a] by simp

lemma fold_min_attained:
  "fold (\<lambda>x. min (f x)) xs (a::int) = a \<or> (\<exists>x\<in>set xs. fold (\<lambda>x. min (f x)) xs a = f x)"
proof (induction xs arbitrary: a)
  case (Cons y ys)
  from Cons.IH [of "min (f y) a"] show ?case by (auto simp: min_def split: if_splits)
qed simp

lemma upto_append: "a \<le> b \<Longrightarrow> b - 1 \<le> c \<Longrightarrow> [a..c] = [a..b - 1] @ [b..c]" for a b c :: int
proof (cases "b \<le> c")
  case False
  moreover assume "b - 1 \<le> c"
  ultimately have "c = b - 1" by simp
  then show ?thesis by simp
qed (simp add: upto_split1)

lemma map_upto_nat: "map f [a..a + int n - 1] = map (\<lambda>i. f (a + int i)) [0..<n]"
proof (induction n)
  case (Suc n)
  have "[a..a + int (Suc n) - 1] = [a..a + int n - 1] @ [a + int n]"
    by (simp add: upto_rec2)
  with Suc show ?case by simp
qed simp

section \<open>Panics in sequence\<close>

definition try_bind :: "'a fallible \<Rightarrow> ('a \<Rightarrow> 'b fallible) \<Rightarrow> 'b fallible" where
  "try_bind r f = (case r of Inl p \<Rightarrow> Inl p | Inr x \<Rightarrow> f x)"

lemma try_bind_simps [simp]: "try_bind (Inl p) f = Inl p" "try_bind (Inr x) f = f x"
  by (simp_all add: try_bind_def)

lemma try_bind_Inr: "try_bind r f = Inr y \<longleftrightarrow> (\<exists>x. r = Inr x \<and> f x = Inr y)"
  by (cases r) simp_all

text \<open>\<open>Option::unwrap\<close> and \<open>Vec::remove(0)\<close>.\<close>

definition unwrap :: "'a option \<Rightarrow> 'a fallible" where
  "unwrap r = (case r of None \<Rightarrow> Inl (Panic ''called Option::unwrap() on a None value'') | Some x \<Rightarrow> Inr x)"

definition remove_first :: "'a list \<Rightarrow> ('a \<times> 'a list) fallible" where
  "remove_first xs =
     (case xs of [] \<Rightarrow> Inl (Panic ''removal index (is 0) should be < len (is 0)'') | y # ys \<Rightarrow> Inr (y, ys))"

lemma unwrap_simps [simp]: "unwrap (Some x) = Inr x"
  by (simp add: unwrap_def)

lemma remove_first_simps [simp]: "remove_first (x # xs) = Inr (x, xs)"
  by (simp add: remove_first_def)

section \<open>Decimal numbers in strings\<close>

text \<open>\<open>format!("{}", n)\<close> for an unsigned integer.\<close>

fun show_nat :: "nat \<Rightarrow> string" where
  "show_nat n = (if n < 10 then [char_of (48 + n)] else show_nat (n div 10) @ [char_of (48 + n mod 10)])"

declare show_nat.simps [simp del]

lemma digit_inj: "m < 10 \<Longrightarrow> n < 10 \<Longrightarrow> (char_of (48 + m) :: char) = char_of (48 + n) \<longleftrightarrow> m = n"
  for m n :: nat
  by (simp add: char_of_eq_iff take_bit_eq_mod)

lemma show_nat_nonempty [simp]: "show_nat n \<noteq> []"
  by (simp add: show_nat.simps [of n])

lemma show_nat_inj: "show_nat m = show_nat n \<Longrightarrow> m = n"
proof (induction m arbitrary: n rule: show_nat.induct)
  case (1 m)
  show ?case
  proof (cases "m < 10"; cases "n < 10")
    assume "m < 10" "n < 10"
    with "1.prems" show ?thesis by (simp add: show_nat.simps [of m] show_nat.simps [of n] digit_inj)
  next
    assume "m < 10" "\<not> n < 10"
    with "1.prems" show_nat_nonempty [of "n div 10"] show ?thesis
      by (auto simp: show_nat.simps [of m] show_nat.simps [of n] simp del: show_nat_nonempty)
  next
    assume "\<not> m < 10" "n < 10"
    with "1.prems" show ?thesis by (simp add: show_nat.simps [of m] show_nat.simps [of n])
  next
    assume big: "\<not> m < 10" "\<not> n < 10"
    with "1.prems" have eq: "show_nat (m div 10) = show_nat (n div 10)" "m mod 10 = n mod 10"
      by (simp_all add: show_nat.simps [of m] show_nat.simps [of n] digit_inj)
    from "1.IH" [OF big(1) eq(1)] eq(2) show ?thesis by (metis div_mult_mod_eq)
  qed
qed

end
