(* ===== verification/Ring_Buffer.thy ===== *)
theory Ring_Buffer
  imports Prelude
begin

text \<open>
  The ring buffer (\<open>src/ring_buffer.rs\<close>): its record, construction with the panic for a
  size that is not a power of two, the mask that turns a sequence into a slot, and the count of
  free slots. The lemmas show that the mask never leaves the slice (the code reads it with
  \<open>get_unchecked\<close>), that sequences less than a lap apart use different slots, and that the
  wrapping arithmetic of \<open>free_slots\<close> is exact.

  A raw pointer into the slice is the index of its slot; \<open>read_at\<close> and \<open>update_at\<close> are the
  dereferences \<open>&*ptr\<close> and \<open>f(&mut *ptr)\<close> the callers make.
\<close>

section \<open>The ring buffer\<close>

record 'e ring_buffer =
  slots :: "'e list"
  index_mask :: int

abbreviation capacity :: "'e ring_buffer \<Rightarrow> int" where
  "capacity rb \<equiv> int (length (slots rb))"

text \<open>The event factory is an \<open>FnMut\<close>: a function that also returns its next state.\<close>

fun collect_slots :: "nat \<Rightarrow> ('f \<Rightarrow> 'e \<times> 'f) \<Rightarrow> 'f \<Rightarrow> 'e list \<times> 'f" where
  "collect_slots 0 event_source f = ([], f)"
| "collect_slots (Suc n) event_source f =
     (let (e, f1) = event_source f; (es, f2) = collect_slots n event_source f1 in (e # es, f2))"

definition ring_new :: "nat \<Rightarrow> ('f \<Rightarrow> 'e \<times> 'f) \<Rightarrow> 'f \<Rightarrow> ('e ring_buffer \<times> 'f) fallible" where
  "ring_new n event_source f =
     (if \<not> is_power_of_two n then Inl (Panic ''Ring buffer size must be power of 2.'')
      else let (es, f') = collect_slots n event_source f
           in Inr (\<lparr>slots = es, index_mask = i64 (int (n - 1))\<rparr>, f'))"

definition ring_size :: "'e ring_buffer \<Rightarrow> int" where
  "ring_size rb = i64 (int (length (slots rb)))"

definition wrap_point :: "'e ring_buffer \<Rightarrow> sequence \<Rightarrow> sequence" where
  "wrap_point rb s = i64 (s - ring_size rb)"

definition free_slots :: "'e ring_buffer \<Rightarrow> sequence \<Rightarrow> sequence \<Rightarrow> int" where
  "free_slots rb producer highest_read_by_consumers =
     i64 (highest_read_by_consumers - wrap_point rb producer)"

definition ring_get :: "'e ring_buffer \<Rightarrow> sequence \<Rightarrow> nat" where
  "ring_get rb s = u64 (s AND index_mask rb)"

definition ring_get_ref :: "'e ring_buffer \<Rightarrow> sequence \<Rightarrow> nat" where
  "ring_get_ref rb s = u64 (s AND index_mask rb)"

definition read_at :: "'e ring_buffer \<Rightarrow> nat \<Rightarrow> 'e" where
  "read_at rb p = slots rb ! p"

definition update_at :: "'e ring_buffer \<Rightarrow> nat \<Rightarrow> ('e \<Rightarrow> 'e) \<Rightarrow> 'e ring_buffer" where
  "update_at rb p f = rb\<lparr>slots := (slots rb)[p := f (slots rb ! p)]\<rparr>"

text \<open>What a consumer sees at a sequence: \<open>&*ring_buffer.get_ref(sequence)\<close>.\<close>

definition ring_read :: "'e ring_buffer \<Rightarrow> sequence \<Rightarrow> 'e" where
  "ring_read rb s = read_at rb (ring_get_ref rb s)"

text \<open>
  What construction establishes and every operation keeps. A slice has fewer than \<open>2 ^ 63\<close>
  elements, so \<open>size() as i64\<close> is its length.
\<close>

definition wf_ring :: "'e ring_buffer \<Rightarrow> bool" where
  "wf_ring rb \<longleftrightarrow> is_power_of_two (length (slots rb)) \<and> length (slots rb) < 2 ^ 63
     \<and> index_mask rb = int (length (slots rb)) - 1"

section \<open>Lemmas\<close>

lemma length_collect_slots [simp]: "length (fst (collect_slots n src f)) = n"
  by (induction n arbitrary: f) (auto simp: split_def Let_def)

lemma ring_new_wf:
  assumes "ring_new n src f = Inr (rb, f')" "n < 2 ^ 63"
  shows "wf_ring rb \<and> length (slots rb) = n"
proof -
  from assms(1) have pow: "is_power_of_two n"
    and rb: "slots rb = fst (collect_slots n src f)" "index_mask rb = i64 (int (n - 1))"
    by (auto simp: ring_new_def split_def Let_def split: if_splits)
  from pow have pos: "0 < n" by (simp add: is_power_of_two_def)
  with assms(2) have "i64 (int (n - 1)) = int (n - 1)"
    by (intro i64_of_small_nat) simp
  with pow pos rb assms(2) show ?thesis
    by (simp add: wf_ring_def of_nat_diff)
qed

lemma wf_ring_pos: "wf_ring rb \<Longrightarrow> 0 < capacity rb"
  by (simp add: wf_ring_def is_power_of_two_def)

lemma wf_ring_exp:
  assumes "wf_ring rb"
  obtains k where "k < 63" "length (slots rb) = 2 ^ k" "index_mask rb = 2 ^ k - 1"
proof -
  from assms obtain k where k: "length (slots rb) = 2 ^ k"
    by (auto simp: wf_ring_def is_power_of_two_iff)
  with assms have "(2::nat) ^ k < 2 ^ 63" by (simp add: wf_ring_def)
  then have "k < 63" by (simp only: power_strict_increasing_iff) 
  with that k assms show thesis by (simp add: wf_ring_def)
qed

lemma ring_size_eq [simp]: "wf_ring rb \<Longrightarrow> ring_size rb = capacity rb"
  by (simp add: ring_size_def wf_ring_def no_wrap)

lemma ring_get_mod: "wf_ring rb \<Longrightarrow> ring_get rb s = nat (s mod capacity rb)"
proof -
  assume "wf_ring rb"
  then obtain k where k: "k < 63" "length (slots rb) = 2 ^ k" "index_mask rb = 2 ^ k - 1"
    by (rule wf_ring_exp)
  have "s mod 2 ^ k < 2 ^ k" by simp
  also have "(2::int) ^ k \<le> 2 ^ 64" using k(1) by (intro power_increasing) auto
  finally show ?thesis
    using k by (simp add: ring_get_def int_and_mask u64_nonneg)
qed

lemma ring_get_ref_eq: "ring_get_ref rb s = ring_get rb s"
  by (simp add: ring_get_ref_def ring_get_def)

lemma ring_get_less: "wf_ring rb \<Longrightarrow> ring_get rb s < length (slots rb)"
  using wf_ring_pos [of rb] by (simp add: ring_get_mod nat_less_iff)

lemma ring_get_eq_iff:
  "wf_ring rb \<Longrightarrow> ring_get rb s = ring_get rb t \<longleftrightarrow> s mod capacity rb = t mod capacity rb"
  using wf_ring_pos [of rb] by (simp add: ring_get_mod eq_nat_nat_iff)

lemma ring_get_window:
  "wf_ring rb \<Longrightarrow> \<bar>s - t\<bar> < capacity rb \<Longrightarrow> ring_get rb s = ring_get rb t \<longleftrightarrow> s = t"
  using mod_window_inj [of s "capacity rb" t] by (auto simp: ring_get_eq_iff)

lemma wf_ring_update [simp]: "wf_ring (update_at rb p f) = wf_ring rb"
  by (simp add: wf_ring_def update_at_def)

lemma length_update_at [simp]: "length (slots (update_at rb p f)) = length (slots rb)"
  by (simp add: update_at_def)

lemma index_mask_update_at [simp]: "index_mask (update_at rb p f) = index_mask rb"
  by (simp add: update_at_def)

lemma ring_get_update_at [simp]: "ring_get (update_at rb p f) s = ring_get rb s"
  by (simp add: ring_get_def update_at_def)

lemma read_update_same:
  "p < length (slots rb) \<Longrightarrow> read_at (update_at rb p f) p = f (read_at rb p)"
  by (simp add: read_at_def update_at_def)

lemma read_update_other: "p \<noteq> q \<Longrightarrow> read_at (update_at rb p f) q = read_at rb q"
  by (simp add: read_at_def update_at_def)

lemma ring_read_cong:
  "wf_ring rb \<Longrightarrow> s mod capacity rb = t mod capacity rb \<Longrightarrow> ring_read rb s = ring_read rb t"
  using ring_get_eq_iff [of rb s t] by (simp add: ring_read_def ring_get_ref_eq)

lemma ring_read_update:
  assumes "wf_ring rb"
  shows "ring_read (update_at rb (ring_get rb s) f) t =
    (if s mod capacity rb = t mod capacity rb then f (ring_read rb t) else ring_read rb t)"
  using assms ring_get_less [OF assms, of t] ring_get_eq_iff [OF assms, of s t]
  by (auto simp: ring_read_def ring_get_ref_eq read_update_same read_update_other)

lemma free_slots_wrap: "free_slots rb p h = i64 (h - p + ring_size rb)"
  by (simp add: free_slots_def wrap_point_def algebra_simps)

lemma free_slots_eq [no_wrap]:
  "wf_ring rb \<Longrightarrow> in_i64 (h - p + capacity rb) \<Longrightarrow> free_slots rb p h = h - p + capacity rb"
  by (simp add: free_slots_wrap i64_id)

lemma wf_ring_capacity: "wf_ring rb \<Longrightarrow> capacity rb \<le> 2 ^ 62"
proof -
  assume "wf_ring rb"
  then obtain k where "k < 63" and k: "length (slots rb) = 2 ^ k" by (rule wf_ring_exp)
  then have "(2::int) ^ k \<le> 2 ^ 62" by (intro power_increasing) auto
  with k show ?thesis by simp
qed

section \<open>Properties\<close>

text \<open>Four slots, two of them with events.\<close>

definition ex_ring :: "int ring_buffer" where
  "ex_ring = \<lparr>slots = [10, 20, 0, 0], index_mask = 3\<rparr>"

lemma wf_ex_ring: "wf_ring ex_ring"
proof -
  have len: "length (slots ex_ring) = 2 ^ 2" by (simp add: ex_ring_def)
  have "is_power_of_two (length (slots ex_ring))" unfolding len is_power_of_two_iff by blast
  then show ?thesis by (simp add: wf_ring_def) (simp add: ex_ring_def)
qed

text \<open>
  \<open>new\<close> panics exactly for a size that is not a power of two. Otherwise the slots hold what
  the successive calls of the event factory returned, and the ring is well-formed.
\<close>

theorem ring_new_builds:
  assumes "n < 2 ^ 63"
  shows "case ring_new n event_source f of
      Inl p \<Rightarrow> (\<nexists>k. n = 2 ^ k) \<and> p = Panic ''Ring buffer size must be power of 2.''
    | Inr (rb, f') \<Rightarrow> (\<exists>k. n = 2 ^ k) \<and> wf_ring rb \<and> length (slots rb) = n
        \<and> (slots rb, f') = collect_slots n event_source f"
proof (cases "is_power_of_two n")
  case False
  then have "\<nexists>k. n = 2 ^ k" by (simp add: is_power_of_two_iff)
  with False show ?thesis by (simp add: ring_new_def)
next
  case True
  then obtain rb f' where new: "ring_new n event_source f = Inr (rb, f')"
    "(slots rb, f') = collect_slots n event_source f"
    by (auto simp: ring_new_def split_def Let_def)
  with ring_new_wf [OF new(1) assms] True show ?thesis
    by (simp add: is_power_of_two_iff)
qed

theorem ring_new_builds_witness:
  "case ring_new 4 (\<lambda>i::nat. (i * 10, Suc i)) 0 of
      Inl p \<Rightarrow> False
    | Inr (rb, i) \<Rightarrow> slots rb = [0, 10, 20, 30] \<and> wf_ring rb"
proof -
  have pow: "\<exists>k. (4::nat) = 2 ^ k" by (rule exI [of _ 2]) simp
  have "collect_slots 4 (\<lambda>i::nat. (i * 10, Suc i)) 0 = ([0, 10, 20, 30], 4)"
    by (simp add: eval_nat_numeral)
  with pow ring_new_builds [of 4 "\<lambda>i::nat. (i * 10, Suc i)" 0] show ?thesis
    by (auto split: sum.splits prod.splits)
qed

text \<open>
  The mask computes the remainder modulo the ring's size, for negative sequences too, so
  the \<open>get_unchecked\<close> of \<open>get\<close> and \<open>get_ref\<close> is always within the slice.
\<close>

theorem ring_get_in_bounds:
  assumes "wf_ring rb"
  shows "ring_get rb s < length (slots rb) \<and> ring_get_ref rb s = ring_get rb s
    \<and> int (ring_get rb s) = s mod int (length (slots rb))"
  using assms ring_get_less [OF assms, of s] wf_ring_pos [OF assms]
  by (simp add: ring_get_ref_eq ring_get_mod)

theorem ring_get_in_bounds_witness:
  "ring_get ex_ring (-1) = 3 \<and> ring_get ex_ring 6 = 2"
  using ring_get_in_bounds [OF wf_ex_ring, of "-1"] ring_get_in_bounds [OF wf_ex_ring, of 6]
  by (simp add: ex_ring_def)

text \<open>
  Sequences less than a lap apart never share a slot: writing the event of one leaves the
  events of the others as they were, and a lap later the same slot comes round again.
\<close>

theorem ring_write_exclusive:
  assumes "wf_ring rb" "\<bar>s - t\<bar> < int (length (slots rb))"
  shows "ring_read (update_at rb (ring_get rb s) f) t = (if s = t then f (ring_read rb t) else ring_read rb t)
    \<and> ring_get rb (s + int (length (slots rb))) = ring_get rb s"
proof -
  have "s mod capacity rb = t mod capacity rb \<longleftrightarrow> s = t"
    using assms(2) mod_window_inj [of s "capacity rb" t] by auto
  moreover have "ring_get rb (s + capacity rb) = ring_get rb s"
    using assms(1) by (simp add: ring_get_mod)
  ultimately show ?thesis using assms(1) by (simp add: ring_read_update)
qed

theorem ring_write_exclusive_witness:
  "ring_read (update_at ex_ring (ring_get ex_ring 5) (\<lambda>e. e + 1)) 5 = ring_read ex_ring 5 + 1
   \<and> ring_read (update_at ex_ring (ring_get ex_ring 5) (\<lambda>e. e + 1)) 3 = ring_read ex_ring 3"
  using ring_write_exclusive [OF wf_ex_ring, of 5 5 "\<lambda>e. e + 1"]
    ring_write_exclusive [OF wf_ex_ring, of 5 3 "\<lambda>e. e + 1"]
  by (simp add: ex_ring_def)

text \<open>
  \<open>free_slots\<close> is exact: a producer at \<open>p\<close> may take the next \<open>n\<close> sequences exactly when
  \<open>n\<close> is at most the answer, that is when every slot they use holds an event the slowest consumer,
  at \<open>h\<close>, is done with.
\<close>

theorem free_slots_exact:
  assumes "wf_ring rb" "\<bar>p\<bar> < 2 ^ 61" "\<bar>h\<bar> < 2 ^ 61" "p \<le> h + int (length (slots rb))" "0 \<le> n"
  shows "n \<le> free_slots rb p h \<longleftrightarrow>
    (\<forall>s. p < s \<and> s \<le> p + n \<longrightarrow> s - int (length (slots rb)) \<le> h)"
proof -
  have "free_slots rb p h = h - p + capacity rb"
    using assms wf_ring_capacity [OF assms(1)] wf_ring_pos [OF assms(1)]
    by (intro free_slots_eq) (auto simp: in_i64_iff)
  moreover have "(\<forall>s. p < s \<and> s \<le> p + n \<longrightarrow> s - capacity rb \<le> h) \<longleftrightarrow> p + n - capacity rb \<le> h"
    using assms(4,5) by (cases "n = 0") (auto dest: spec [of _ "p + n"])
  ultimately show ?thesis by auto
qed

theorem free_slots_exact_witness:
  "2 \<le> free_slots ex_ring 7 5 \<and> \<not> 3 \<le> free_slots ex_ring 7 5"
  using free_slots_exact [OF wf_ex_ring, of 7 5 2] free_slots_exact [OF wf_ex_ring, of 7 5 3]
  by (auto simp: ex_ring_def dest: spec [of _ 10])

end
