(* ===== verification/Cursor.thy ===== *)
theory Cursor
  imports Prelude
begin

text \<open>
  The atomic sequence counter (\<open>src/_periphery/cursor.rs\<close>) and the error types
  (\<open>src/errors.rs\<close>). The operations are the atomic steps themselves, so each is a function of
  the counter's value at that step; what other threads do between two steps is in the theories
  that run them. An \<open>Arc<Cursor>\<close> is an address into a store of cursors.
\<close>

section \<open>Errors\<close>

datatype ring_buffer_full = ERingBufferFull
datatype missing_free_slots = EMissingFreeSlots nat
datatype polling_error = NoEvents | Shutdown

section \<open>Cursor\<close>

definition NONE :: sequence where
  "NONE = -1"

record cursor =
  counter :: int

definition cursor_new :: "int \<Rightarrow> cursor" where
  "cursor_new start = \<lparr>counter = start\<rparr>"

text \<open>\<open>Result<i64, i64>\<close>: \<open>Inr\<close> the old value on success, \<open>Inl\<close> the value found otherwise.\<close>

definition compare_exchange :: "sequence \<Rightarrow> sequence \<Rightarrow> cursor \<Rightarrow> (int + int) \<times> cursor" where
  "compare_exchange current next c =
     (if counter c = current then (Inr current, c\<lparr>counter := next\<rparr>) else (Inl (counter c), c))"

definition cursor_store :: "sequence \<Rightarrow> cursor \<Rightarrow> cursor" where
  "cursor_store s c = c\<lparr>counter := s\<rparr>"

definition relaxed_value :: "cursor \<Rightarrow> sequence" where
  "relaxed_value c = counter c"

type_synonym arc = nat
type_synonym cursors = "arc \<Rightarrow> cursor"

lemma relaxed_value_new [simp]: "relaxed_value (cursor_new s) = s"
  by (simp add: relaxed_value_def cursor_new_def)

lemma relaxed_value_store [simp]: "relaxed_value (cursor_store s c) = s"
  by (simp add: relaxed_value_def cursor_store_def)

lemma compare_exchange_Inr:
  "compare_exchange cur nxt c = (Inr v, c') \<longleftrightarrow>
     v = cur \<and> relaxed_value c = cur \<and> c' = cursor_store nxt c"
  by (auto simp: compare_exchange_def relaxed_value_def cursor_store_def)

lemma compare_exchange_Inl:
  "compare_exchange cur nxt c = (Inl v, c') \<longleftrightarrow>
     v = relaxed_value c \<and> relaxed_value c \<noteq> cur \<and> c' = c"
  by (auto simp: compare_exchange_def relaxed_value_def)

section \<open>Racing claims\<close>

text \<open>
  A thread's claim on a shared cursor: try to move it from what it saw to \<open>n\<close> further.
  The claims of any number of threads, in any order of their atomic steps, each with the value
  the thread saw earlier.
\<close>

fun run_claims :: "(sequence \<times> nat) list \<Rightarrow> cursor \<Rightarrow> (sequence \<times> nat) list \<times> cursor" where
  "run_claims [] c = ([], c)"
| "run_claims ((seen, n) # xs) c =
     (case compare_exchange seen (seen + int n) c of
        (Inr v, c') \<Rightarrow> (let (won, c'') = run_claims xs c' in ((v, n) # won, c''))
      | (Inl v, c') \<Rightarrow> run_claims xs c')"

definition claimed :: "sequence \<times> nat \<Rightarrow> sequence set" where
  "claimed x = {fst x <.. fst x + int (snd x)}"

text \<open>
  However the atomic steps of racing threads interleave, and however stale the values they
  start from, the compare-and-swap gives each winner sequences of its own: the claims won are
  pairwise disjoint, and together they are exactly what the cursor moved over.
\<close>

theorem run_claims_disjoint:
  assumes "run_claims xs c = (won, c')"
  shows "(\<Union>x\<in>set won. claimed x) = {relaxed_value c <.. relaxed_value c'}
    \<and> relaxed_value c \<le> relaxed_value c'
    \<and> (\<forall>i < length won. \<forall>j < length won. i \<noteq> j \<longrightarrow> claimed (won ! i) \<inter> claimed (won ! j) = {})"
  using assms
proof (induction xs arbitrary: c won)
  case Nil
  then show ?case by simp
next
  case (Cons x xs)
  obtain seen n where x: "x = (seen, n)" by (cases x)
  show ?case
  proof (cases "relaxed_value c = seen")
    case False
    then have "compare_exchange seen (seen + int n) c = (Inl (relaxed_value c), c)"
      by (simp add: compare_exchange_Inl)
    with Cons x show ?thesis by simp
  next
    case True
    let ?c = "cursor_store (seen + int n) c"
    obtain won' where rest: "run_claims xs ?c = (won', c')" and won: "won = (seen, n) # won'"
      using Cons.prems True x
      by (auto simp: compare_exchange_def relaxed_value_def cursor_store_def split: prod.splits)
    note IH = Cons.IH [OF rest]
    have below: "claimed (seen, n) \<inter> claimed (won' ! j) = {}" if "j < length won'" for j
    proof -
      have "claimed (won' ! j) \<subseteq> {seen + int n <.. relaxed_value c'}"
        using IH that by (auto dest: nth_mem)
      moreover have "claimed (seen, n) = {seen <.. seen + int n}"
        by (simp add: claimed_def)
      ultimately show ?thesis by (auto simp: subset_iff)
    qed
    have "claimed (won ! i) \<inter> claimed (won ! j) = {}"
      if "i < length won" "j < length won" "i \<noteq> j" for i j
      using that below IH by (cases i; cases j) (auto simp: won Int_commute)
    moreover have "(\<Union>x\<in>set won. claimed x) = {relaxed_value c <.. relaxed_value c'}"
      using IH True by (auto simp: won claimed_def)
    ultimately show ?thesis using IH True by auto
  qed
qed

theorem run_claims_disjoint_witness:
  "(\<Union>x\<in>set [(-1, 2), (1, 3)]. claimed x) = {-1 <.. 4}
   \<and> claimed (-1, 2) \<inter> claimed (1, 3) = {}"
proof -
  have "run_claims [(-1, 2), (-1, 1), (1, 3)] (cursor_new (-1)) = ([(-1, 2), (1, 3)], cursor_new 4)"
    by (simp add: cursor_new_def compare_exchange_def)
  note claims = run_claims_disjoint [OF this]
  then have "claimed ([(-1, 2), (1, 3)] ! 0) \<inter> claimed ([(-1, 2), (1, 3)] ! 1) = {}"
    by (metis length_Cons less_Suc_eq_0_disj zero_less_Suc zero_neq_one One_nat_def)
  with claims show ?thesis by simp
qed

end
