(* ===== verification/Barriers.thy ===== *)
theory Barriers
  imports Cursor
begin

text \<open>
  The \<open>Barrier\<close> trait (\<open>src/_periphery/barrier.rs\<close>) as a locale, and the consumer side's two
  barriers and its thread handle (\<open>src/consumer/mod.rs\<close>). The code that waits on a barrier is
  generic over the trait; its model takes the barrier's \<open>get_after\<close> as an argument, and its lemmas
  are proved once, inside the locale. The laws are what the trait's documentation promises:
  everything from the given sequence up to the returned one is available, and the first sequence
  not covered is not.
\<close>

section \<open>The interface\<close>

locale barrier =
  fixes get_after :: "'m \<Rightarrow> sequence \<Rightarrow> sequence"
    and available :: "'m \<Rightarrow> sequence \<Rightarrow> bool"
    and ready :: "'m \<Rightarrow> sequence \<Rightarrow> bool"
  assumes sound: "ready m lo \<Longrightarrow> lo \<le> s \<Longrightarrow> s \<le> get_after m lo \<Longrightarrow> available m s"
    and first_hole: "ready m lo \<Longrightarrow> \<not> available m (max lo (get_after m lo + 1))"
begin

lemma none_iff: "ready m lo \<Longrightarrow> get_after m lo < lo \<longleftrightarrow> \<not> available m lo"
proof (cases "get_after m lo < lo")
  case True
  then have "max lo (get_after m lo + 1) = lo" by simp
  with first_hole [of m lo] True show "ready m lo \<Longrightarrow> ?thesis" by simp
next
  case False
  with sound [of m lo lo] show "ready m lo \<Longrightarrow> ?thesis" by simp
qed

lemma some_iff: "ready m lo \<Longrightarrow> lo \<le> get_after m lo \<longleftrightarrow> available m lo"
  using none_iff [of m lo] by auto

text \<open>Whatever lies between is available exactly up to the returned sequence.\<close>

lemma reach_iff:
  assumes "ready m lo" "lo \<le> s"
  shows "s \<le> get_after m lo \<longleftrightarrow> (\<forall>t. lo \<le> t \<and> t \<le> s \<longrightarrow> available m t)"
proof
  assume "s \<le> get_after m lo"
  then show "\<forall>t. lo \<le> t \<and> t \<le> s \<longrightarrow> available m t"
    using sound [OF assms(1)] by auto
next
  assume all: "\<forall>t. lo \<le> t \<and> t \<le> s \<longrightarrow> available m t"
  show "s \<le> get_after m lo"
  proof (rule ccontr)
    assume "\<not> s \<le> get_after m lo"
    with assms(2) have "available m (max lo (get_after m lo + 1))"
      using all by auto
    with first_hole [OF assms(1)] show False by simp
  qed
qed

end

section \<open>Consumer barriers\<close>

datatype uni_consumer_barrier = UniConsumerBarrier (uc_cursor: arc)
datatype multi_consumer_barrier = MultiConsumerBarrier (mc_cursors: "arc list")

definition uni_consumer_get_after :: "uni_consumer_barrier \<Rightarrow> cursors \<Rightarrow> sequence \<Rightarrow> sequence" where
  "uni_consumer_get_after b cs lower_bound = relaxed_value (cs (uc_cursor b))"

definition multi_consumer_get_after :: "multi_consumer_barrier \<Rightarrow> cursors \<Rightarrow> sequence \<Rightarrow> sequence" where
  "multi_consumer_get_after b cs lower_bound =
     fold (\<lambda>cursor min_sequence. min (relaxed_value (cs cursor)) min_sequence) (mc_cursors b) i64_MAX"

text \<open>A sequence is passed when every consumer of the group has finished with it.\<close>

definition passed :: "arc list \<Rightarrow> cursors \<Rightarrow> sequence \<Rightarrow> bool" where
  "passed arcs cs s \<longleftrightarrow> (\<forall>a\<in>set arcs. s \<le> relaxed_value (cs a))"

definition group_ready :: "arc list \<Rightarrow> cursors \<Rightarrow> bool" where
  "group_ready arcs cs \<longleftrightarrow> arcs \<noteq> [] \<and> (\<forall>a\<in>set arcs. relaxed_value (cs a) \<le> i64_MAX)"

lemma multi_consumer_get_after_iff:
  "s \<le> multi_consumer_get_after b cs lb \<longleftrightarrow> s \<le> i64_MAX \<and> passed (mc_cursors b) cs s"
  by (simp add: multi_consumer_get_after_def passed_def fold_min_ge)

lemma multi_consumer_get_after_le:
  "a \<in> set (mc_cursors b) \<Longrightarrow> multi_consumer_get_after b cs lb \<le> relaxed_value (cs a)"
  using multi_consumer_get_after_iff [of "multi_consumer_get_after b cs lb" b cs lb] by (simp add: passed_def)

lemma multi_consumer_get_after_least:
  assumes "group_ready (mc_cursors b) cs"
  shows "\<exists>a\<in>set (mc_cursors b). multi_consumer_get_after b cs lb = relaxed_value (cs a)"
proof -
  consider "multi_consumer_get_after b cs lb = i64_MAX"
    | "\<exists>a\<in>set (mc_cursors b). multi_consumer_get_after b cs lb = relaxed_value (cs a)"
    using fold_min_attained [of "\<lambda>a. relaxed_value (cs a)" "mc_cursors b" i64_MAX]
    by (auto simp: multi_consumer_get_after_def)
  then show ?thesis
  proof cases
    case 1
    from assms have a: "hd (mc_cursors b) \<in> set (mc_cursors b)" (is "?a \<in> _")
      by (simp add: group_ready_def)
    from 1 have "passed (mc_cursors b) cs i64_MAX"
      using multi_consumer_get_after_iff [of i64_MAX b cs lb] by simp
    with a assms 1 have "multi_consumer_get_after b cs lb = relaxed_value (cs ?a)"
      by (auto simp: passed_def group_ready_def intro: order_antisym)
    with a show ?thesis by blast
  qed
qed

interpretation uni_cb: barrier "uni_consumer_get_after b" "passed [uc_cursor b]" "\<lambda>_ _. True" for b
  by unfold_locales (auto simp: uni_consumer_get_after_def passed_def)

interpretation multi_cb: barrier "multi_consumer_get_after b" "passed (mc_cursors b)"
  "\<lambda>cs _. group_ready (mc_cursors b) cs" for b
proof unfold_locales
  show "passed (mc_cursors b) cs s" if "s \<le> multi_consumer_get_after b cs lo" for cs lo s
    using that by (simp add: multi_consumer_get_after_iff)
  show "\<not> passed (mc_cursors b) cs (max lo (multi_consumer_get_after b cs lo + 1))"
    if "group_ready (mc_cursors b) cs" for cs lo
    using multi_consumer_get_after_least [OF that, of lo] by (force simp: passed_def)
qed

text \<open>
  What a consumer waits for: a barrier parameter \<open>B\<close> of the source, which it resolves statically.
\<close>

datatype dependent = OnProducer | OnConsumer uni_consumer_barrier | OnGroup multi_consumer_barrier

fun dependent_arcs :: "dependent \<Rightarrow> arc list" where
  "dependent_arcs OnProducer = []"
| "dependent_arcs (OnConsumer b) = [uc_cursor b]"
| "dependent_arcs (OnGroup b) = mc_cursors b"

section \<open>Consumer handles\<close>

text \<open>What a finished consumer thread leaves behind for \<open>join\<close>.\<close>

datatype thread_result = Finished | Panicked

record consumer_handle =
  join_handle :: "thread_result option"

definition consumer_handle_new :: "thread_result \<Rightarrow> consumer_handle" where
  "consumer_handle_new jh = \<lparr>join_handle = Some jh\<rparr>"

definition handle_join :: "consumer_handle \<Rightarrow> consumer_handle fallible" where
  "handle_join h =
     (case join_handle h of
        None \<Rightarrow> Inr h
      | Some Finished \<Rightarrow> Inr (h\<lparr>join_handle := None\<rparr>)
      | Some Panicked \<Rightarrow> Inl (Panic ''Consumer should not panic.''))"

text \<open>\<open>consumer_handles.iter_mut().for_each(|c| c.join())\<close>: in order, up to the first panic.\<close>

fun join_all :: "consumer_handle list \<Rightarrow> consumer_handle list fallible" where
  "join_all [] = Inr []"
| "join_all (h # hs) =
     (case handle_join h of
        Inl p \<Rightarrow> Inl p
      | Inr h' \<Rightarrow> (case join_all hs of Inl p \<Rightarrow> Inl p | Inr hs' \<Rightarrow> Inr (h' # hs')))"

lemma join_all_Inr:
  "(\<forall>h\<in>set hs. join_handle h \<noteq> Some Panicked) \<Longrightarrow>
   join_all hs = Inr (map (\<lambda>h. h\<lparr>join_handle := None\<rparr>) hs)"
  by (induction hs) (auto simp: handle_join_def split: option.splits thread_result.splits)

lemma join_all_Inl:
  "\<exists>h\<in>set hs. join_handle h = Some Panicked \<Longrightarrow>
   join_all hs = Inl (Panic ''Consumer should not panic.'')"
proof (induction hs)
  case (Cons h hs)
  show ?case
  proof (cases "join_handle h = Some Panicked")
    case True
    then show ?thesis by (simp add: handle_join_def)
  next
    case False
    with Cons have "join_all hs = Inl (Panic ''Consumer should not panic.'')" by auto
    with False show ?thesis
      by (simp add: handle_join_def split: option.split thread_result.split)
  qed
qed simp

end
