(* ===== verification/Producer_Common.thy ===== *)
theory Producer_Common
  imports Ring_Buffer Barriers
begin

text \<open>
  What the two producers share (\<open>src/producer/mod.rs\<close>): the iterator over a claimed batch of
  slots, and the busy-wait on a claim with which both implement the infallible half of the
  \<open>Producer\<close> trait. The trait's contract is the locale \<open>claimer\<close>.
\<close>

section \<open>The batch iterator\<close>

record mut_batch_iter =
  current :: sequence
  last_sequence :: sequence

definition batch_iter_new :: "sequence \<Rightarrow> sequence \<Rightarrow> mut_batch_iter" where
  "batch_iter_new start end_sequence = \<lparr>current = start, last_sequence = end_sequence\<rparr>"

definition batch_iter_remaining :: "mut_batch_iter \<Rightarrow> nat" where
  "batch_iter_remaining it = u64 (i64 (i64 (last_sequence it - current it) + 1))"

definition batch_iter_next :: "'e ring_buffer \<Rightarrow> mut_batch_iter \<Rightarrow> nat option \<times> mut_batch_iter" where
  "batch_iter_next rb it =
     (if current it > last_sequence it then (None, it)
      else (Some (ring_get rb (current it)), it\<lparr>current := i64 (current it + 1)\<rparr>))"

definition batch_iter_size_hint :: "mut_batch_iter \<Rightarrow> nat \<times> nat option" where
  "batch_iter_size_hint it = (batch_iter_remaining it, Some (batch_iter_remaining it))"

text \<open>
  A client closure \<open>FnOnce(MutBatchIter<E>)\<close> as the list of changes it makes to the successive
  items: it may stop before the iterator is exhausted, and it stops when it gets \<open>None\<close>.
\<close>

fun run_updates :: "('e \<Rightarrow> 'e) list \<Rightarrow> 'e ring_buffer \<Rightarrow> mut_batch_iter
    \<Rightarrow> 'e ring_buffer \<times> mut_batch_iter" where
  "run_updates [] rb it = (rb, it)"
| "run_updates (f # fs) rb it =
     (case batch_iter_next rb it of
        (None, it') \<Rightarrow> (rb, it')
      | (Some p, it') \<Rightarrow> run_updates fs (update_at rb p f) it')"

lemma batch_iter_remaining_eq:
  assumes "-1 \<le> last_sequence it - current it" "in_i64 (last_sequence it - current it + 1)"
  shows "batch_iter_remaining it = nat (last_sequence it - current it + 1)"
  using assms by (simp add: batch_iter_remaining_def i64_id u64_nonneg in_i64_iff)

lemma run_updates_shape:
  "length (slots (fst (run_updates fs rb it))) = length (slots rb)
   \<and> index_mask (fst (run_updates fs rb it)) = index_mask rb
   \<and> wf_ring (fst (run_updates fs rb it)) = wf_ring rb"
proof (induction fs arbitrary: rb it)
  case (Cons f fs)
  then show ?case
    by (auto simp: batch_iter_next_def)
qed simp

lemma run_updates_empty: "last_sequence it < current it \<Longrightarrow> run_updates fs rb it = (rb, it)"
  by (cases fs) (simp_all add: batch_iter_next_def)

text \<open>
  The effect of a batch on the ring: item \<open>i\<close> is changed by the \<open>i\<close>-th change of the closure,
  and every slot outside the batch keeps its event.
\<close>

lemma run_updates_effect:
  assumes "wf_ring rb" "0 \<le> lower" "lower + int n < 2 ^ 63" "int n \<le> capacity rb"
    and "it = \<lparr>current = lower, last_sequence = lower + int n - 1\<rparr>"
    and "lower \<le> t" "t < lower + capacity rb"
  shows "ring_read (fst (run_updates fs rb it)) t =
    (if t < lower + int (min n (length fs)) then (fs ! nat (t - lower)) (ring_read rb t)
     else ring_read rb t)"
  using assms
proof (induction fs arbitrary: rb it lower n t)
  case Nil
  then show ?case by simp
next
  case (Cons f fs)
  show ?case
  proof (cases n)
    case 0
    with Cons.prems show ?thesis by (simp add: batch_iter_next_def)
  next
    case (Suc m)
    let ?rb = "update_at rb (ring_get rb lower) f"
    let ?it = "\<lparr>current = lower + 1, last_sequence = lower + 1 + int m - 1\<rparr>"
    have "i64 (lower + 1) = lower + 1"
      using Cons.prems Suc by (intro i64_id) (simp add: in_i64_iff)
    then have run: "run_updates (f # fs) rb it = run_updates fs ?rb ?it"
      using Cons.prems Suc by (simp add: batch_iter_next_def)
    have IH: "ring_read (fst (run_updates fs ?rb ?it)) u =
        (if u < lower + 1 + int (min m (length fs)) then (fs ! nat (u - (lower + 1))) (ring_read ?rb u)
         else ring_read ?rb u)" if "lower + 1 \<le> u" "u < lower + 1 + capacity rb" for u
      using Cons.prems Suc that by (intro Cons.IH) auto
    have wf': "wf_ring (fst (run_updates fs ?rb ?it))"
      and cap: "capacity (fst (run_updates fs ?rb ?it)) = capacity rb"
      using Cons.prems run_updates_shape [of fs ?rb ?it] by simp_all
    show ?thesis
    proof (cases "t = lower")
      case True
      have "ring_read (fst (run_updates fs ?rb ?it)) t
          = ring_read (fst (run_updates fs ?rb ?it)) (lower + capacity rb)"
        using wf' cap True by (intro ring_read_cong) auto
      also have "\<dots> = ring_read ?rb (lower + capacity rb)"
        using IH [of "lower + capacity rb"] Cons.prems Suc wf_ring_pos [of rb] by auto
      also have "\<dots> = f (ring_read rb (lower + capacity rb))"
        using Cons.prems by (simp add: ring_read_update)
      also have "ring_read rb (lower + capacity rb) = ring_read rb t"
        using Cons.prems True by (intro ring_read_cong) auto
      finally show ?thesis using run True Suc by simp
    next
      case False
      then have "lower mod capacity rb \<noteq> t mod capacity rb"
        using Cons.prems mod_window_inj [of lower "capacity rb" t] by auto
      then have "ring_read ?rb t = ring_read rb t"
        using Cons.prems by (simp add: ring_read_update)
      moreover have "nat (t - lower) = Suc (nat (t - (lower + 1)))"
        using False Cons.prems by simp
      ultimately show ?thesis
        using run IH [of t] False Cons.prems Suc by auto
    qed
  qed
qed

text \<open>The abstract view of a producer: a bounded queue to which a batch is appended or not at all.\<close>

definition bounded_offer :: "nat \<Rightarrow> 'e list \<Rightarrow> 'e list \<Rightarrow> 'e list option" where
  "bounded_offer bound q es = (if length q + length es \<le> bound then Some (q @ es) else None)"

text \<open>
  The events a closure leaves in a batch of \<open>n\<close> slots: the change of item \<open>i\<close> applied to what the
  slot held, and that itself where the closure stopped earlier.
\<close>

definition batch_events :: "'e ring_buffer \<Rightarrow> sequence \<Rightarrow> nat \<Rightarrow> ('e \<Rightarrow> 'e) list \<Rightarrow> 'e list" where
  "batch_events rb lower n fs =
     map (\<lambda>i. (if i < length fs then fs ! i else id) (ring_read rb (lower + int i))) [0..<n]"

lemma length_batch_events [simp]: "length (batch_events rb lower n fs) = n"
  by (simp add: batch_events_def)

lemma ring_read_batch:
  assumes "wf_ring rb" "0 \<le> lower" "lower + int n < 2 ^ 63" "int n \<le> capacity rb"
    and it: "it = \<lparr>current = lower, last_sequence = lower + int n - 1\<rparr>"
  shows "map (ring_read (fst (run_updates fs rb it))) [lower..lower + int n - 1] = batch_events rb lower n fs"
    and "lower + int n - capacity rb \<le> a \<Longrightarrow>
      map (ring_read (fst (run_updates fs rb it))) [a..lower - 1] = map (ring_read rb) [a..lower - 1]"
proof -
  note effect = run_updates_effect [OF assms]
  show "map (ring_read (fst (run_updates fs rb it))) [lower..lower + int n - 1] = batch_events rb lower n fs"
    unfolding map_upto_nat batch_events_def using assms(4) by (auto simp: effect)
  have wf': "wf_ring (fst (run_updates fs rb it))"
    and cap: "capacity (fst (run_updates fs rb it)) = capacity rb"
    using run_updates_shape [of fs rb it] assms(1) by simp_all
  show "map (ring_read (fst (run_updates fs rb it))) [a..lower - 1] = map (ring_read rb) [a..lower - 1]"
    if "lower + int n - capacity rb \<le> a"
  proof (rule map_cong [OF refl])
    fix s
    assume s: "s \<in> set [a..lower - 1]"
    have "ring_read (fst (run_updates fs rb it)) s
        = ring_read (fst (run_updates fs rb it)) (s + capacity rb)"
      using wf' cap by (intro ring_read_cong) auto
    also have "\<dots> = ring_read rb (s + capacity rb)"
      using s that by (subst effect) auto
    also have "\<dots> = ring_read rb s"
      using assms(1) by (intro ring_read_cong) auto
    finally show "ring_read (fst (run_updates fs rb it)) s = ring_read rb s" .
  qed
qed

section \<open>Claiming, and waiting for a claim\<close>

text \<open>
  \<open>while self.next_sequences(n).is_err() {}\<close>, over the successive states \<open>ms\<close> of the memory the
  producer reads, one for each attempt. \<open>None\<close> is a loop that never ends.
\<close>

partial_function (option) spin_claim ::
  "('m \<Rightarrow> nat \<Rightarrow> 'p \<Rightarrow> (missing_free_slots + sequence) \<times> 'p) \<Rightarrow> (nat \<Rightarrow> 'm) \<Rightarrow> nat \<Rightarrow> nat
    \<Rightarrow> 'p \<Rightarrow> (nat \<times> 'p) option" where
  "spin_claim claim ms t n p =
     (case claim (ms t) n p of
        (Inl e, p') \<Rightarrow> spin_claim claim ms (Suc t) n p'
      | (Inr s, p') \<Rightarrow> Some (t, p'))"

text \<open>
  A producer's claim succeeds exactly when the ring has room for it, and a failed claim changes
  nothing. \<open>sound_for m n p\<close> says when the producer's local state fits the memory.
\<close>

locale claimer =
  fixes claim :: "'m \<Rightarrow> nat \<Rightarrow> 'p \<Rightarrow> (missing_free_slots + sequence) \<times> 'p"
    and room :: "'m \<Rightarrow> nat \<Rightarrow> 'p \<Rightarrow> bool"
    and sound_for :: "'m \<Rightarrow> nat \<Rightarrow> 'p \<Rightarrow> bool"
  assumes claim_room: "sound_for m n p \<Longrightarrow> room m n p \<Longrightarrow> \<exists>s p'. claim m n p = (Inr s, p')"
    and claim_full: "sound_for m n p \<Longrightarrow> \<not> room m n p \<Longrightarrow> \<exists>e. claim m n p = (Inl e, p)"
begin

lemma claim_Inr_iff: "sound_for m n p \<Longrightarrow> (\<exists>s p'. claim m n p = (Inr s, p')) \<longleftrightarrow> room m n p"
  using claim_room [of m n p] claim_full [of m n p] by (cases "room m n p") auto

text \<open>The first attempt that finds room is the one that returns.\<close>

lemma spin_returns:
  assumes "\<forall>t. sound_for (ms t) n p" "\<forall>t. t0 \<le> t \<and> t < t0 + d \<longrightarrow> \<not> room (ms t) n p"
    and "room (ms (t0 + d)) n p"
  shows "spin_claim claim ms t0 n p = Some (t0 + d, snd (claim (ms (t0 + d)) n p))"
  using assms(2,3)
proof (induction d arbitrary: t0)
  case 0
  then show ?case
    using claim_room [of "ms t0" n p] assms(1) by (auto simp: spin_claim.simps)
next
  case (Suc d)
  from Suc.prems(1) have "\<not> room (ms t0) n p" by simp
  then obtain e where "claim (ms t0) n p = (Inl e, p)"
    using claim_full [of "ms t0" n p] assms(1) by blast
  then have "spin_claim claim ms t0 n p = spin_claim claim ms (Suc t0) n p"
    by (simp add: spin_claim.simps)
  also have "\<dots> = Some (Suc t0 + d, snd (claim (ms (Suc t0 + d)) n p))"
    using Suc.prems by (intro Suc.IH) auto
  finally show ?case by simp
qed

lemma spin_diverges:
  assumes "\<forall>t. sound_for (ms t) n p" "\<forall>t. \<not> room (ms t) n p"
  shows "spin_claim claim ms t0 n p = None"
proof (rule ccontr)
  assume "spin_claim claim ms t0 n p \<noteq> None"
  then obtain r where ret: "spin_claim claim ms t0 n p = Some r" by auto
  have stuck: "\<exists>e. claim (ms t) n p = (Inl e, p)" for t
    using claim_full [of "ms t" n p] assms by blast
  have "p \<noteq> p"
  proof (rule spin_claim.raw_induct [where P = "\<lambda>c ms' t n' q r. c = claim \<and> ms' = ms \<and> n' = n
        \<longrightarrow> q \<noteq> p", OF _ ret, THEN mp])
    fix f c ms' t n' q r
    assume IH: "\<And>c ms' t n' q r. f c ms' t n' q = Some r \<Longrightarrow> c = claim \<and> ms' = ms \<and> n' = n \<longrightarrow> q \<noteq> p"
      and eq: "(case c (ms' t) n' q of (Inl e, p') \<Rightarrow> f c ms' (Suc t) n' p' | (Inr s, p') \<Rightarrow> Some (t, p')) = Some r"
    show "c = claim \<and> ms' = ms \<and> n' = n \<longrightarrow> q \<noteq> p"
      using stuck [of t] eq IH [of claim ms "Suc t" n p r] by auto
  qed simp
  then show False by simp
qed

lemma spin_Some:
  assumes "\<forall>t. sound_for (ms t) n p" "spin_claim claim ms 0 n p = Some (t, p')"
  shows "room (ms t) n p \<and> (\<exists>s. claim (ms t) n p = (Inr s, p'))"
proof -
  from assms have ex: "\<exists>t. room (ms t) n p"
    using spin_diverges [of ms n p 0] by force
  define T where "T = (LEAST t. room (ms t) n p)"
  from ex have room: "room (ms T) n p" unfolding T_def by (rule LeastI_ex)
  have "\<forall>t. 0 \<le> t \<and> t < 0 + T \<longrightarrow> \<not> room (ms t) n p"
    unfolding T_def by (auto dest: not_less_Least)
  from spin_returns [OF assms(1) this] room assms(2)
  have "t = T" "p' = snd (claim (ms T) n p)" by auto
  with room claim_room [of "ms T" n p] assms(1) show ?thesis by auto
qed

text \<open>The wait ends exactly if some attempt finds room.\<close>

lemma spin_returns_iff:
  assumes "\<forall>t. sound_for (ms t) n p"
  shows "(\<exists>t p'. spin_claim claim ms 0 n p = Some (t, p')) \<longleftrightarrow> (\<exists>t. room (ms t) n p)"
proof
  assume "\<exists>t p'. spin_claim claim ms 0 n p = Some (t, p')"
  then show "\<exists>t. room (ms t) n p"
    using spin_Some [OF assms] by blast
next
  assume "\<exists>t. room (ms t) n p"
  then have "room (ms (LEAST t. room (ms t) n p)) n p" by (rule LeastI_ex)
  then have "spin_claim claim ms 0 n p = Some (0 + (LEAST t. room (ms t) n p),
      snd (claim (ms (0 + (LEAST t. room (ms t) n p))) n p))"
    by (intro spin_returns [OF assms]) (auto dest: not_less_Least)
  then show "\<exists>t p'. spin_claim claim ms 0 n p = Some (t, p')" by blast
qed

end

end
