(* ===== verification/Uni_Producer.thy ===== *)
theory Uni_Producer
  imports Producer_Common
begin

text \<open>
  The single producer (\<open>src/producer/uni.rs\<close>): its handle, the claim with the cached position
  of the slowest consumer, publication of one event and of a batch, and shutdown. The lemmas show
  that the cache never changes a claim's answer, that a claim never reaches a slot a consumer has
  not passed, and what publication does to the ring.

  The record holds what the handle reaches through its \<open>Arc\<close>s. The handle is generic over the
  consumer barrier \<open>'c\<close>; its operations take the barrier's \<open>get_after\<close>, reading a memory \<open>'m\<close>.
\<close>

section \<open>The handle and its operations\<close>

record ('e, 'c) uni_producer =
  shutdown_at_sequence :: sequence
  ring_buffer :: "'e ring_buffer"
  producer_barrier :: cursor
  consumer_handles :: "consumer_handle list"
  consumer_barrier :: 'c
  sequence :: sequence
  sequence_clear_of_consumers :: sequence

definition uni_producer_barrier_new :: cursor where
  "uni_producer_barrier_new = cursor_new NONE"

definition uni_barrier_get_after :: "cursor \<Rightarrow> sequence \<Rightarrow> sequence" where
  "uni_barrier_get_after b s = relaxed_value b"

definition uni_barrier_publish :: "sequence \<Rightarrow> cursor \<Rightarrow> cursor" where
  "uni_barrier_publish s b = cursor_store s b"

definition uni_producer_new ::
  "sequence \<Rightarrow> 'e ring_buffer \<Rightarrow> cursor \<Rightarrow> consumer_handle list \<Rightarrow> 'c \<Rightarrow> ('e, 'c) uni_producer" where
  "uni_producer_new shutdown rb b handles cb =
     \<lparr>shutdown_at_sequence = shutdown, ring_buffer = rb, producer_barrier = b,
      consumer_handles = handles, consumer_barrier = cb, sequence = 0,
      sequence_clear_of_consumers = i64 (ring_size rb - 1)\<rparr>"

text \<open>
  \<open>uni_claim_with\<close> is the slow path of \<open>next_sequences\<close> once \<open>rear_sequence_read\<close> has been
  loaded: the fullness check and the new cached value.
\<close>

definition uni_claim_with :: "sequence \<Rightarrow> int \<Rightarrow> ('e, 'c) uni_producer
    \<Rightarrow> (missing_free_slots + sequence) \<times> ('e, 'c) uni_producer" where
  "uni_claim_with rear_sequence_read n p =
     (let n_next = i64 (i64 (sequence p - 1) + n);
          last_published = i64 (sequence p - 1);
          free = free_slots (ring_buffer p) last_published rear_sequence_read
      in if free < n then (Inl (EMissingFreeSlots (u64 (i64 (n - free)))), p)
         else (Inr n_next, p\<lparr>sequence_clear_of_consumers := i64 (last_published + free)\<rparr>))"

definition uni_next_sequences :: "('c \<Rightarrow> 'm \<Rightarrow> sequence \<Rightarrow> sequence) \<Rightarrow> 'm \<Rightarrow> nat
    \<Rightarrow> ('e, 'c) uni_producer \<Rightarrow> (missing_free_slots + sequence) \<times> ('e, 'c) uni_producer" where
  "uni_next_sequences get_after m count p =
     (let n = i64 (int count);
          n_next = i64 (i64 (sequence p - 1) + n)
      in if sequence_clear_of_consumers p < n_next
         then uni_claim_with (get_after (consumer_barrier p) m (i64 (sequence p - 1))) n p
         else (Inr n_next, p))"

definition uni_apply_update :: "('e \<Rightarrow> 'e) \<Rightarrow> ('e, 'c) uni_producer
    \<Rightarrow> sequence \<times> ('e, 'c) uni_producer" where
  "uni_apply_update update p =
     (let s = sequence p;
          event_ptr = ring_get (ring_buffer p) s;
          p1 = p\<lparr>ring_buffer := update_at (ring_buffer p) event_ptr update\<rparr>;
          p2 = p1\<lparr>producer_barrier := uni_barrier_publish s (producer_barrier p1)\<rparr>
      in (s, p2\<lparr>sequence := i64 (sequence p2 + 1)\<rparr>))"

definition uni_apply_updates :: "nat \<Rightarrow> ('e \<Rightarrow> 'e) list \<Rightarrow> ('e, 'c) uni_producer
    \<Rightarrow> sequence \<times> ('e, 'c) uni_producer" where
  "uni_apply_updates count updates p =
     (let n = i64 (int count);
          lower = sequence p;
          upper = i64 (i64 (lower + n) - 1);
          iter = batch_iter_new lower upper;
          p1 = p\<lparr>ring_buffer := fst (run_updates updates (ring_buffer p) iter)\<rparr>;
          p2 = p1\<lparr>producer_barrier := uni_barrier_publish upper (producer_barrier p1)\<rparr>
      in (upper, p2\<lparr>sequence := i64 (sequence p2 + n)\<rparr>))"

definition uni_try_publish :: "('c \<Rightarrow> 'm \<Rightarrow> sequence \<Rightarrow> sequence) \<Rightarrow> 'm \<Rightarrow> ('e \<Rightarrow> 'e)
    \<Rightarrow> ('e, 'c) uni_producer \<Rightarrow> (ring_buffer_full + sequence) \<times> ('e, 'c) uni_producer" where
  "uni_try_publish get_after m update p =
     (case uni_next_sequences get_after m 1 p of
        (Inl _, p') \<Rightarrow> (Inl ERingBufferFull, p')
      | (Inr _, p') \<Rightarrow> (let (s, p'') = uni_apply_update update p' in (Inr s, p'')))"

definition uni_publish :: "('c \<Rightarrow> 'm \<Rightarrow> sequence \<Rightarrow> sequence) \<Rightarrow> (nat \<Rightarrow> 'm) \<Rightarrow> ('e \<Rightarrow> 'e)
    \<Rightarrow> ('e, 'c) uni_producer \<Rightarrow> ('e, 'c) uni_producer option" where
  "uni_publish get_after ms update p =
     (case spin_claim (uni_next_sequences get_after) ms 0 1 p of
        None \<Rightarrow> None
      | Some (t, p') \<Rightarrow> Some (snd (uni_apply_update update p')))"

definition uni_try_batch_publish :: "('c \<Rightarrow> 'm \<Rightarrow> sequence \<Rightarrow> sequence) \<Rightarrow> 'm \<Rightarrow> nat
    \<Rightarrow> ('e \<Rightarrow> 'e) list \<Rightarrow> ('e, 'c) uni_producer
    \<Rightarrow> (missing_free_slots + sequence) \<times> ('e, 'c) uni_producer" where
  "uni_try_batch_publish get_after m n updates p =
     (case uni_next_sequences get_after m n p of
        (Inl e, p') \<Rightarrow> (Inl e, p')
      | (Inr _, p') \<Rightarrow> (let (s, p'') = uni_apply_updates n updates p' in (Inr s, p'')))"

definition uni_batch_publish :: "('c \<Rightarrow> 'm \<Rightarrow> sequence \<Rightarrow> sequence) \<Rightarrow> (nat \<Rightarrow> 'm) \<Rightarrow> nat
    \<Rightarrow> ('e \<Rightarrow> 'e) list \<Rightarrow> ('e, 'c) uni_producer \<Rightarrow> ('e, 'c) uni_producer option" where
  "uni_batch_publish get_after ms n updates p =
     (case spin_claim (uni_next_sequences get_after) ms 0 n p of
        None \<Rightarrow> None
      | Some (t, p') \<Rightarrow> Some (snd (uni_apply_updates n updates p')))"

definition uni_producer_drop :: "('e, 'c) uni_producer \<Rightarrow> ('e, 'c) uni_producer fallible" where
  "uni_producer_drop p =
     (let p1 = p\<lparr>shutdown_at_sequence := sequence p\<rparr>
      in case join_all (consumer_handles p1) of
           Inl panic \<Rightarrow> Inl panic
         | Inr hs \<Rightarrow> Inr (p1\<lparr>consumer_handles := hs\<rparr>))"

interpretation uni_pb: barrier uni_barrier_get_after "\<lambda>b s. s \<le> relaxed_value b" "\<lambda>_ _. True"
  by unfold_locales (auto simp: uni_barrier_get_after_def)

section \<open>The handle's invariant\<close>

text \<open>
  \<open>uni_inv rear p\<close>: the handle fits a memory in which the slowest consumer has finished with
  everything up to \<open>rear\<close>. The bound on sequences keeps every \<open>i64\<close> operation in range.
\<close>

definition uni_inv :: "sequence \<Rightarrow> ('e, 'c) uni_producer \<Rightarrow> bool" where
  "uni_inv rear p \<longleftrightarrow> wf_ring (ring_buffer p) \<and> 0 \<le> sequence p \<and> sequence p < 2 ^ 62
     \<and> -1 \<le> rear \<and> rear < sequence p
     \<and> sequence_clear_of_consumers p \<le> rear + capacity (ring_buffer p)
     \<and> sequence p - 1 \<le> sequence_clear_of_consumers p
     \<and> relaxed_value (producer_barrier p) = sequence p - 1"

definition uni_claimed :: "nat \<Rightarrow> ('e, 'c) uni_producer \<Rightarrow> bool" where
  "uni_claimed n p \<longleftrightarrow> sequence p - 1 + int n \<le> sequence_clear_of_consumers p"

definition uni_room :: "sequence \<Rightarrow> nat \<Rightarrow> ('e, 'c) uni_producer \<Rightarrow> bool" where
  "uni_room rear n p \<longleftrightarrow> sequence p - 1 + int n \<le> rear + capacity (ring_buffer p)"

lemma uni_inv_new:
  assumes "wf_ring rb"
  shows "uni_inv (-1) (uni_producer_new shutdown rb uni_producer_barrier_new handles cb)"
proof -
  have "i64 (capacity rb - 1) = capacity rb - 1"
    using wf_ring_pos [OF assms] wf_ring_capacity [OF assms] by (intro i64_id) (simp add: in_i64_iff)
  with assms wf_ring_pos [OF assms] show ?thesis
    by (simp add: uni_inv_def uni_producer_new_def uni_producer_barrier_new_def NONE_def)
qed

text \<open>Consumers only move forward, and the invariant follows them.\<close>

lemma uni_inv_mono: "uni_inv rear p \<Longrightarrow> rear \<le> rear' \<Longrightarrow> rear' < sequence p \<Longrightarrow> uni_inv rear' p"
  by (auto simp: uni_inv_def)

section \<open>Claiming\<close>

lemma uni_claim_with_bounds:
  assumes wf: "wf_ring (ring_buffer p)" and s: "0 \<le> sequence p" "sequence p < 2 ^ 62"
    and rear: "-1 \<le> rear" "rear < sequence p" and n: "n < 2 ^ 62"
  shows "uni_claim_with rear (int n) p =
    (if uni_room rear n p
     then (Inr (sequence p - 1 + int n),
           p\<lparr>sequence_clear_of_consumers := rear + capacity (ring_buffer p)\<rparr>)
     else (Inl (EMissingFreeSlots (nat (sequence p - 1 + int n - rear - capacity (ring_buffer p)))), p))"
proof -
  note cap = wf_ring_capacity [OF wf] wf_ring_pos [OF wf]
  have n': "int n < 4611686018427387904" using n by simp
  have bounds: "in_i64 (sequence p - 1)" "in_i64 (sequence p - 1 + int n)"
    "in_i64 (rear - (sequence p - 1) + capacity (ring_buffer p))"
    "in_i64 (rear + capacity (ring_buffer p))"
    "in_i64 (int n - (rear - (sequence p - 1) + capacity (ring_buffer p)))"
    using s rear cap n' by (auto simp: in_i64_iff)
  have free: "free_slots (ring_buffer p) (sequence p - 1) rear
      = rear - (sequence p - 1) + capacity (ring_buffer p)"
    using wf bounds by (simp add: no_wrap)
  have u: "u64 (int n - (rear - (sequence p - 1) + capacity (ring_buffer p)))
      = nat (int n - (rear - (sequence p - 1) + capacity (ring_buffer p)))"
    if "rear - (sequence p - 1) + capacity (ring_buffer p) < int n"
    using that bounds by (intro u64_nonneg) (auto simp: in_i64_iff)
  show ?thesis
  proof (cases "rear - (sequence p - 1) + capacity (ring_buffer p) < int n")
    case True
    then have "\<not> uni_room rear n p" by (simp add: uni_room_def)
    moreover have "sequence p - 1 + int n - rear - capacity (ring_buffer p)
        = int n - (rear - (sequence p - 1) + capacity (ring_buffer p))" by simp
    ultimately show ?thesis
      using True by (simp only: uni_claim_with_def Let_def free i64_id bounds u if_True if_False)
  next
    case False
    then have "uni_room rear n p" by (simp add: uni_room_def)
    moreover have "sequence p - 1 + (rear - (sequence p - 1) + capacity (ring_buffer p))
        = rear + capacity (ring_buffer p)" by simp
    ultimately show ?thesis
      using False by (simp only: uni_claim_with_def Let_def free i64_id bounds if_True if_False)
  qed
qed

lemma uni_claim_with_eq:
  assumes "uni_inv rear p" "n < 2 ^ 62"
  shows "uni_claim_with rear (int n) p =
    (if uni_room rear n p
     then (Inr (sequence p - 1 + int n),
           p\<lparr>sequence_clear_of_consumers := rear + capacity (ring_buffer p)\<rparr>)
     else (Inl (EMissingFreeSlots (nat (sequence p - 1 + int n - rear - capacity (ring_buffer p)))), p))"
  using assms by (intro uni_claim_with_bounds) (auto simp: uni_inv_def)

lemma uni_next_sequences_eq:
  assumes inv: "uni_inv rear p" and n: "n < 2 ^ 62"
    and rear: "get_after (consumer_barrier p) m (sequence p - 1) = rear"
  shows "uni_next_sequences get_after m n p =
    (if uni_room rear n p
     then (Inr (sequence p - 1 + int n),
           if sequence_clear_of_consumers p < sequence p - 1 + int n
           then p\<lparr>sequence_clear_of_consumers := rear + capacity (ring_buffer p)\<rparr> else p)
     else (Inl (EMissingFreeSlots (nat (sequence p - 1 + int n - rear - capacity (ring_buffer p)))), p))"
proof -
  have n': "int n < 4611686018427387904" using n by simp
  have wraps: "i64 (int n) = int n" "i64 (sequence p - 1) = sequence p - 1"
    "i64 (sequence p - 1 + int n) = sequence p - 1 + int n"
    using inv n' by (auto simp: uni_inv_def in_i64_iff intro!: i64_id)
  have "uni_room rear n p" if "\<not> sequence_clear_of_consumers p < sequence p - 1 + int n"
    using that inv by (auto simp: uni_inv_def uni_room_def)
  then show ?thesis
    using rear wraps by (auto simp: uni_next_sequences_def Let_def uni_claim_with_eq [OF inv n])
qed

interpretation uni_claimer: claimer "uni_next_sequences get_after"
  "\<lambda>m n p. uni_room (get_after (consumer_barrier p) m (sequence p - 1)) n p"
  "\<lambda>m n p. n < 2 ^ 62 \<and> uni_inv (get_after (consumer_barrier p) m (sequence p - 1)) p"
  for get_after :: "'c \<Rightarrow> 'm \<Rightarrow> sequence \<Rightarrow> sequence"
proof unfold_locales
  fix m :: 'm and n :: nat and p :: "('e, 'c) uni_producer"
  let ?rear = "get_after (consumer_barrier p) m (sequence p - 1)"
  assume ok: "n < 2 ^ 62 \<and> uni_inv ?rear p"
  note eq = uni_next_sequences_eq [of ?rear p n get_after m, OF _ _ refl]
  show "\<exists>s p'. uni_next_sequences get_after m n p = (Inr s, p')" if "uni_room ?rear n p"
    using that ok eq by simp
  show "\<exists>e. uni_next_sequences get_after m n p = (Inl e, p)" if "\<not> uni_room ?rear n p"
    using that ok eq by simp
qed

section \<open>Publishing\<close>

text \<open>
  The abstract view of the handle: the events that are published and that the slowest consumer
  has not passed, oldest first. Publication appends to it; the ring bounds its length.
\<close>

definition uni_pending :: "sequence \<Rightarrow> ('e, 'c) uni_producer \<Rightarrow> 'e list" where
  "uni_pending rear p = map (ring_read (ring_buffer p)) [rear + 1..sequence p - 1]"

lemma length_uni_pending:
  "uni_inv rear p \<Longrightarrow> int (length (uni_pending rear p)) = sequence p - 1 - rear"
  by (simp add: uni_pending_def uni_inv_def)

lemma uni_room_iff_pending:
  "uni_inv rear p \<Longrightarrow>
   uni_room rear n p \<longleftrightarrow> length (uni_pending rear p) + n \<le> length (slots (ring_buffer p))"
  using length_uni_pending [of rear p] by (auto simp: uni_room_def)

lemma uni_apply_updates_ok:
  assumes inv: "uni_inv rear p" and claimed: "uni_claimed n p" and bound: "sequence p + int n < 2 ^ 62"
  shows "fst (uni_apply_updates n fs p) = sequence p - 1 + int n"
    and "uni_inv rear (snd (uni_apply_updates n fs p))"
    and "sequence (snd (uni_apply_updates n fs p)) = sequence p + int n"
    and "uni_pending rear (snd (uni_apply_updates n fs p))
      = uni_pending rear p @ batch_events (ring_buffer p) (sequence p) n fs"
proof -
  let ?rb = "ring_buffer p" and ?s = "sequence p"
  let ?it = "\<lparr>current = ?s, last_sequence = ?s + int n - 1\<rparr>"
  from inv have wf: "wf_ring ?rb" and s: "0 \<le> ?s" by (auto simp: uni_inv_def)
  from inv claimed have room: "uni_room rear n p" by (auto simp: uni_inv_def uni_claimed_def uni_room_def)
  have wraps: "i64 (int n) = int n" "i64 (?s + int n) = ?s + int n" "i64 (?s + int n - 1) = ?s + int n - 1"
    using bound s by (auto simp: in_i64_iff intro!: i64_id)
  have n: "int n \<le> capacity ?rb" using room inv by (auto simp: uni_room_def uni_inv_def)
  have eq: "uni_apply_updates n fs p = (?s + int n - 1,
      p\<lparr>ring_buffer := fst (run_updates fs ?rb ?it),
        producer_barrier := cursor_store (?s + int n - 1) (producer_barrier p), sequence := ?s + int n\<rparr>)"
    using wraps
    by (simp add: uni_apply_updates_def Let_def batch_iter_new_def uni_barrier_publish_def)
  show "fst (uni_apply_updates n fs p) = ?s - 1 + int n"
    and "sequence (snd (uni_apply_updates n fs p)) = ?s + int n"
    by (simp_all add: eq)
  show "uni_inv rear (snd (uni_apply_updates n fs p))"
    using inv claimed bound run_updates_shape [of fs ?rb ?it]
    by (auto simp: eq uni_inv_def uni_claimed_def)
  have upto: "[rear + 1..?s + int n - 1] = [rear + 1..?s - 1] @ [?s..?s + int n - 1]"
    using inv by (intro upto_append) (auto simp: uni_inv_def)
  have bound': "?s + int n < 2 ^ 63" using bound by simp
  note batch = ring_read_batch [OF wf s bound' n refl, where fs = fs]
  have "?s + int n - capacity ?rb \<le> rear + 1" using room by (simp add: uni_room_def)
  then show "uni_pending rear (snd (uni_apply_updates n fs p))
      = uni_pending rear p @ batch_events ?rb ?s n fs"
    by (simp add: eq uni_pending_def upto batch)
qed

text \<open>A single publication is a batch of one.\<close>

lemma uni_apply_update_batch:
  assumes "0 \<le> sequence p" "sequence p < 2 ^ 62"
  shows "uni_apply_update f p = uni_apply_updates 1 [f] p"
proof -
  have "i64 (sequence p + 1) = sequence p + 1" "i64 (sequence p) = sequence p" "i64 1 = 1"
    using assms by (auto simp: in_i64_iff intro!: i64_id)
  then show ?thesis
    by (simp add: uni_apply_update_def uni_apply_updates_def Let_def batch_iter_new_def
        batch_iter_next_def)
qed

lemma uni_inv_claim:
  "uni_inv rear p \<Longrightarrow> n < 2 ^ 62 \<Longrightarrow> get_after (consumer_barrier p) m (sequence p - 1) = rear \<Longrightarrow>
   uni_inv rear (snd (uni_next_sequences get_after m n p))"
  by (auto simp: uni_next_sequences_eq) (auto simp: uni_inv_def)

lemma uni_claim_keeps:
  "uni_next_sequences get_after m n p = (r, p') \<Longrightarrow>
   sequence p' = sequence p \<and> ring_buffer p' = ring_buffer p \<and> consumer_barrier p' = consumer_barrier p
   \<and> producer_barrier p' = producer_barrier p"
  by (auto simp: uni_next_sequences_def uni_claim_with_def Let_def split: if_splits)

lemma uni_claim_room:
  assumes "uni_inv rear p" "n < 2 ^ 62" "get_after (consumer_barrier p) m (sequence p - 1) = rear"
  shows "uni_next_sequences get_after m n p = (Inr s, p') \<Longrightarrow>
      uni_room rear n p \<and> uni_inv rear p' \<and> uni_claimed n p' \<and> uni_pending rear p' = uni_pending rear p"
    and "uni_next_sequences get_after m n p = (Inl e, p') \<Longrightarrow> \<not> uni_room rear n p \<and> p' = p"
proof -
  note eq = uni_next_sequences_eq [OF assms(1,2), of get_after m, OF assms(3)]
  show "\<not> uni_room rear n p \<and> p' = p" if "uni_next_sequences get_after m n p = (Inl e, p')"
    using eq that by (simp split: if_split_asm)
  show "uni_room rear n p \<and> uni_inv rear p' \<and> uni_claimed n p' \<and> uni_pending rear p' = uni_pending rear p"
    if claim: "uni_next_sequences get_after m n p = (Inr s, p')"
  proof -
    have "uni_room rear n p" using eq claim by (simp split: if_split_asm)
    moreover have "uni_inv rear p'"
      using uni_inv_claim [OF assms(1,2), of get_after m, OF assms(3)] claim by simp
    moreover have "uni_claimed n p'"
      using eq claim by (auto simp: uni_claimed_def uni_room_def split: if_split_asm)
    moreover have "uni_pending rear p' = uni_pending rear p"
      using uni_claim_keeps [OF claim] by (simp add: uni_pending_def)
    ultimately show ?thesis by simp
  qed
qed

lemma bounded_offer_room:
  "uni_inv rear p \<Longrightarrow> length es = n \<Longrightarrow>
   bounded_offer (length (slots (ring_buffer p))) (uni_pending rear p) es =
     (if uni_room rear n p then Some (uni_pending rear p @ es) else None)"
  by (simp add: bounded_offer_def uni_room_iff_pending)

section \<open>Properties\<close>

text \<open>A handle over four slots with two events published and one of them passed by the consumer.\<close>

definition ex_uni :: "(int, uni_consumer_barrier) uni_producer" where
  "ex_uni = \<lparr>shutdown_at_sequence = -1, ring_buffer = ex_ring, producer_barrier = cursor_new 1,
     consumer_handles = [consumer_handle_new Finished], consumer_barrier = UniConsumerBarrier 0,
     sequence = 2, sequence_clear_of_consumers = 3\<rparr>"

definition ex_cursors :: "sequence \<Rightarrow> cursors" where
  "ex_cursors s = (\<lambda>_. cursor_new s)"

lemma ex_uni_inv: "r = 0 \<or> r = 1 \<Longrightarrow> uni_inv r ex_uni"
  using wf_ex_ring by (auto simp: uni_inv_def ex_uni_def) (auto simp: ex_ring_def)

lemma ex_uni_rear [simp]: "uni_consumer_get_after (consumer_barrier ex_uni) (ex_cursors s) lb = s"
  by (simp add: ex_uni_def ex_cursors_def uni_consumer_get_after_def)

lemma ex_uni_simps [simp]:
  "sequence ex_uni = 2" "ring_buffer ex_uni = ex_ring" "length (slots ex_ring) = 4"
  by (simp_all add: ex_uni_def ex_ring_def)

text \<open>
  C27. The cached position of the slowest consumer is only an optimisation: whatever the cache
  holds, a claim of \<open>n\<close> slots succeeds exactly if \<open>n\<close> slots are free of the slowest consumer,
  it reports the highest claimed sequence or the exact number of missing slots, and it leaves the
  handle's invariant in place.
\<close>

theorem uni_claim_exact:
  assumes "uni_inv rear p" "n < 2 ^ 62" "get_after (consumer_barrier p) m (sequence p - 1) = rear"
  shows "fst (uni_next_sequences get_after m n p) =
      (if sequence p - 1 + int n \<le> rear + capacity (ring_buffer p) then Inr (sequence p - 1 + int n)
       else Inl (EMissingFreeSlots (nat (sequence p - 1 + int n - (rear + capacity (ring_buffer p))))))
    \<and> uni_inv rear (snd (uni_next_sequences get_after m n p))"
  using uni_next_sequences_eq [of rear p n get_after m] uni_inv_claim [of rear p n get_after m] assms
  by (auto simp: uni_room_def algebra_simps)

theorem uni_claim_exact_witness:
  "fst (uni_next_sequences uni_consumer_get_after (ex_cursors 0) 4 ex_uni) = Inl (EMissingFreeSlots 1)
   \<and> fst (uni_next_sequences uni_consumer_get_after (ex_cursors 0) 3 ex_uni) = Inr 4"
  using uni_claim_exact [OF ex_uni_inv [of 0], of 4 uni_consumer_get_after "ex_cursors 0"]
    uni_claim_exact [OF ex_uni_inv [of 0], of 3 uni_consumer_get_after "ex_cursors 0"]
    ex_uni_rear [of 0]
  by (simp add: ex_uni_def ex_ring_def)

text \<open>
  \<open>try_publish\<close> refines a bounded queue of the events the slowest consumer has not passed:
  it fails with \<open>ERingBufferFull\<close>, changing nothing, exactly if the queue is full; otherwise it
  returns the next sequence and appends the event the client's closure made of the slot's old
  contents.
\<close>

theorem uni_try_publish_refines:
  assumes "uni_inv rear p" "get_after (consumer_barrier p) m (sequence p - 1) = rear"
    and "sequence p + 1 < 2 ^ 62"
  shows "case uni_try_publish get_after m update p of
      (Inl ERingBufferFull, p') \<Rightarrow> p' = p \<and>
        bounded_offer (length (slots (ring_buffer p))) (uni_pending rear p)
          [update (ring_read (ring_buffer p) (sequence p))] = None
    | (Inr s, p') \<Rightarrow> s = sequence p \<and> uni_inv rear p' \<and>
        bounded_offer (length (slots (ring_buffer p))) (uni_pending rear p)
          [update (ring_read (ring_buffer p) (sequence p))] = Some (uni_pending rear p')"
proof (cases "uni_next_sequences get_after m 1 p")
  case (Pair r p1)
  have one: "(1::nat) < 2 ^ 62" by simp
  note claim = uni_claim_room [OF assms(1) one, of get_after m, OF assms(2)]
  note keeps = uni_claim_keeps [OF Pair]
  show ?thesis
  proof (cases r)
    case (Inl e)
    with claim(2) Pair assms(1) show ?thesis
      by (simp add: uni_try_publish_def bounded_offer_room)
  next
    case (Inr s)
    with claim(1) Pair have room: "uni_room rear 1 p" "uni_inv rear p1" "uni_claimed 1 p1"
      and pend: "uni_pending rear p1 = uni_pending rear p" by auto
    have bound: "sequence p1 + int 1 < 2 ^ 62" using assms(3) keeps by simp
    note ok = uni_apply_updates_ok [OF room(2,3) bound, of "[update]"]
    have batch: "uni_apply_update update p1 = uni_apply_updates 1 [update] p1"
      using room(2) by (intro uni_apply_update_batch) (auto simp: uni_inv_def)
    show ?thesis
      using Pair Inr ok batch keeps room(1) pend assms(1)
      by (simp add: uni_try_publish_def bounded_offer_room batch_events_def split_def Let_def)
  qed
qed

theorem uni_try_publish_refines_witness:
  "case uni_try_publish uni_consumer_get_after (ex_cursors 0) (\<lambda>_. 7) ex_uni of
      (Inl ERingBufferFull, p') \<Rightarrow> p' = ex_uni \<and>
        bounded_offer (length (slots (ring_buffer ex_uni))) (uni_pending 0 ex_uni) [7] = None
    | (Inr s, p') \<Rightarrow> s = sequence ex_uni \<and> uni_inv 0 p' \<and>
        bounded_offer (length (slots (ring_buffer ex_uni))) (uni_pending 0 ex_uni) [7]
          = Some (uni_pending 0 p')"
  using uni_try_publish_refines [OF ex_uni_inv [of 0], of uni_consumer_get_after "ex_cursors 0" "\<lambda>_. 7"]
    ex_uni_rear [of 0]
  by (simp add: ex_uni_def)

text \<open>
  C12. \<open>try_batch_publish\<close> refines the same bounded queue: all \<open>n\<close> events are appended, in order,
  or none is and the error carries the exact number of missing slots. On success the barrier
  consumers read is at the last event of the batch.
\<close>

theorem uni_try_batch_publish_refines:
  assumes "uni_inv rear p" "get_after (consumer_barrier p) m (sequence p - 1) = rear"
    and "n < 2 ^ 62" "sequence p + int n < 2 ^ 62"
  shows "case uni_try_batch_publish get_after m n updates p of
      (Inl (EMissingFreeSlots k), p') \<Rightarrow> p' = p \<and>
        k = length (uni_pending rear p) + n - length (slots (ring_buffer p)) \<and> 0 < k
    | (Inr s, p') \<Rightarrow> s = sequence p + int n - 1 \<and> uni_inv rear p' \<and>
        relaxed_value (producer_barrier p') = s \<and>
        bounded_offer (length (slots (ring_buffer p))) (uni_pending rear p)
          (batch_events (ring_buffer p) (sequence p) n updates) = Some (uni_pending rear p')"
proof (cases "uni_next_sequences get_after m n p")
  case (Pair r p1)
  note claim = uni_claim_room [OF assms(1,3), of get_after m, OF assms(2)]
  note keeps = uni_claim_keeps [OF Pair]
  show ?thesis
  proof (cases r)
    case (Inl e)
    with claim(2) Pair have full: "\<not> uni_room rear n p" "p1 = p" by auto
    with uni_next_sequences_eq [OF assms(1,3), of get_after m, OF assms(2)] Pair Inl
    have "e = EMissingFreeSlots (nat (sequence p - 1 + int n - rear - capacity (ring_buffer p)))" by simp
    with full Pair Inl length_uni_pending [OF assms(1)] show ?thesis
      by (auto simp: uni_try_batch_publish_def uni_room_def nat_eq_iff)
  next
    case (Inr s)
    with claim(1) Pair have ready: "uni_room rear n p" "uni_inv rear p1" "uni_claimed n p1"
      and pend: "uni_pending rear p1 = uni_pending rear p" by auto
    have bound: "sequence p1 + int n < 2 ^ 62" using assms(4) keeps by simp
    note ok = uni_apply_updates_ok [OF ready(2,3) bound, of updates]
    have "relaxed_value (producer_barrier (snd (uni_apply_updates n updates p1))) = sequence p1 + int n - 1"
      using ok(2,3) by (simp add: uni_inv_def)
    then show ?thesis
      using Pair Inr ok keeps ready(1) pend assms(1)
      by (simp add: uni_try_batch_publish_def bounded_offer_room split_def Let_def)
  qed
qed

theorem uni_try_batch_publish_refines_witness:
  "case uni_try_batch_publish uni_consumer_get_after (ex_cursors 0) 3 [\<lambda>_. 7, \<lambda>e. e + 1] ex_uni of
      (Inl (EMissingFreeSlots k), p') \<Rightarrow> p' = ex_uni \<and>
        k = length (uni_pending 0 ex_uni) + 3 - length (slots (ring_buffer ex_uni)) \<and> 0 < k
    | (Inr s, p') \<Rightarrow> s = sequence ex_uni + int 3 - 1 \<and> uni_inv 0 p' \<and>
        relaxed_value (producer_barrier p') = s \<and>
        bounded_offer (length (slots (ring_buffer ex_uni))) (uni_pending 0 ex_uni)
          (batch_events (ring_buffer ex_uni) (sequence ex_uni) 3 [\<lambda>_. 7, \<lambda>e. e + 1])
          = Some (uni_pending 0 p')"
  by (rule uni_try_batch_publish_refines) (simp_all add: ex_uni_inv)

text \<open>
  C35. \<open>batch_publish\<close> busy-waits exactly as long as it must: over any sequence of states of the
  consumers it returns if and only if in one of them the batch fits, and then it has appended the
  whole batch to the events still pending in that state.
\<close>

theorem uni_batch_publish_waits:
  assumes "\<forall>t. uni_inv (get_after (consumer_barrier p) (ms t) (sequence p - 1)) p"
    and "n < 2 ^ 62" "sequence p + int n < 2 ^ 62"
  shows "(uni_batch_publish get_after ms n updates p \<noteq> None \<longleftrightarrow>
      (\<exists>t. sequence p - 1 + int n \<le>
        get_after (consumer_barrier p) (ms t) (sequence p - 1) + capacity (ring_buffer p)))
    \<and> (\<forall>p'. uni_batch_publish get_after ms n updates p = Some p' \<longrightarrow>
      (\<exists>t rear. rear = get_after (consumer_barrier p) (ms t) (sequence p - 1) \<and> uni_inv rear p' \<and>
        uni_pending rear p' = uni_pending rear p @ batch_events (ring_buffer p) (sequence p) n updates))"
proof -
  let ?rear = "\<lambda>t. get_after (consumer_barrier p) (ms t) (sequence p - 1)"
  have sound: "\<forall>t. n < 2 ^ 62 \<and> uni_inv (?rear t) p" using assms by simp
  note iff = uni_claimer.spin_returns_iff [where get_after = get_after, OF sound]
  have "uni_batch_publish get_after ms n updates p \<noteq> None \<longleftrightarrow>
      (\<exists>t p'. spin_claim (uni_next_sequences get_after) ms 0 n p = Some (t, p'))"
    by (auto simp: uni_batch_publish_def split: option.split)
  also have "\<dots> \<longleftrightarrow> (\<exists>t. uni_room (?rear t) n p)" by (rule iff)
  finally have waits: "uni_batch_publish get_after ms n updates p \<noteq> None \<longleftrightarrow>
      (\<exists>t. sequence p - 1 + int n \<le> ?rear t + capacity (ring_buffer p))"
    by (simp add: uni_room_def)
  have "\<exists>t rear. rear = ?rear t \<and> uni_inv rear p' \<and>
      uni_pending rear p' = uni_pending rear p @ batch_events (ring_buffer p) (sequence p) n updates"
    if "uni_batch_publish get_after ms n updates p = Some p'" for p'
  proof -
    from that obtain t p1 where spin: "spin_claim (uni_next_sequences get_after) ms 0 n p = Some (t, p1)"
      and p': "p' = snd (uni_apply_updates n updates p1)"
      by (auto simp: uni_batch_publish_def split: option.split_asm)
    from uni_claimer.spin_Some [where get_after = get_after, OF sound spin]
    obtain s where claim: "uni_next_sequences get_after (ms t) n p = (Inr s, p1)" by blast
    have inv: "uni_inv (?rear t) p" using assms(1) by blast
    note keeps = uni_claim_keeps [OF claim]
    from uni_claim_room(1) [OF inv assms(2) refl claim]
    have p1: "uni_inv (?rear t) p1" "uni_claimed n p1" "uni_pending (?rear t) p1 = uni_pending (?rear t) p"
      by auto
    have "sequence p1 + int n < 2 ^ 62" using assms(3) keeps by simp
    from uni_apply_updates_ok(2,4) [OF p1(1,2) this, of updates] p1(3) keeps
    show ?thesis unfolding p' by (intro exI [of _ t] exI [of _ "?rear t"]) simp
  qed
  with waits show ?thesis by blast
qed

theorem uni_batch_publish_waits_witness:
  "uni_batch_publish uni_consumer_get_after (\<lambda>t. ex_cursors (if t < 2 then 0 else 1)) 3 [] ex_uni \<noteq> None"
  using uni_batch_publish_waits [of uni_consumer_get_after ex_uni
      "\<lambda>t. ex_cursors (if t < 2 then 0 else 1)" 3 "[]"] ex_uni_inv
  by (auto intro: exI [of _ 2])

text \<open>
  C37. A batch larger than the ring, but of less than \<open>2 ^ 62\<close> events, is never published: whatever the
  consumers do, \<open>try_batch_publish\<close> reports exactly the slots that are missing, at least the excess over the
  ring, and leaves the handle as it was; and \<open>batch_publish\<close>, documented as never failing, never returns.
\<close>

theorem uni_batch_publish_oversized:
  assumes "\<forall>t. uni_inv (get_after (consumer_barrier p) (ms t) (sequence p - 1)) p"
    and "n < 2 ^ 62" "sequence p + int n < 2 ^ 62" "length (slots (ring_buffer p)) < n"
  shows "uni_batch_publish get_after ms n updates p = None \<and> (\<forall>t. \<exists>k \<ge> n - length (slots (ring_buffer p)).
    int k = sequence p - 1 + int n - (get_after (consumer_barrier p) (ms t) (sequence p - 1) + capacity (ring_buffer p))
    \<and> uni_try_batch_publish get_after (ms t) n updates p = (Inl (EMissingFreeSlots k), p))"
proof -
  have inv: "uni_inv (get_after (consumer_barrier p) (ms t) (sequence p - 1)) p" for t
    using assms(1) by blast
  have full: "\<not> uni_room (get_after (consumer_barrier p) (ms t) (sequence p - 1)) n p" for t
    using inv [of t] assms(4) by (simp add: uni_room_def uni_inv_def)
  then have "spin_claim (uni_next_sequences get_after) ms 0 n p = None"
    using assms(2) inv by (intro uni_claimer.spin_diverges) auto
  then have "uni_batch_publish get_after ms n updates p = None" by (simp add: uni_batch_publish_def)
  moreover have "\<exists>k \<ge> n - length (slots (ring_buffer p)).
      int k = sequence p - 1 + int n - (get_after (consumer_barrier p) (ms t) (sequence p - 1) + capacity (ring_buffer p))
      \<and> uni_try_batch_publish get_after (ms t) n updates p = (Inl (EMissingFreeSlots k), p)" for t
  proof -
    let ?rear = "get_after (consumer_barrier p) (ms t) (sequence p - 1)"
    let ?k = "nat (sequence p - 1 + int n - ?rear - capacity (ring_buffer p))"
    have "uni_next_sequences get_after (ms t) n p = (Inl (EMissingFreeSlots ?k), p)"
      using uni_next_sequences_eq [OF inv assms(2), of get_after "ms t" t] full [of t] by simp
    then have "uni_try_batch_publish get_after (ms t) n updates p = (Inl (EMissingFreeSlots ?k), p)"
      by (simp add: uni_try_batch_publish_def)
    moreover have "n - length (slots (ring_buffer p)) \<le> ?k" "0 \<le> sequence p - 1 + int n - ?rear - capacity (ring_buffer p)"
      using inv [of t] assms(4) by (auto simp: uni_inv_def)
    ultimately show ?thesis by (intro exI [of _ ?k]) auto
  qed
  ultimately show ?thesis by blast
qed

theorem uni_batch_publish_oversized_witness:
  "uni_batch_publish uni_consumer_get_after (\<lambda>t. ex_cursors 1) 5 [] ex_uni = None
   \<and> uni_try_batch_publish uni_consumer_get_after (ex_cursors 1) 5 [] ex_uni = (Inl (EMissingFreeSlots 1), ex_uni)"
proof -
  have "\<forall>t::nat. uni_inv (uni_consumer_get_after (consumer_barrier ex_uni) (ex_cursors 1) (sequence ex_uni - 1)) ex_uni"
    by (simp add: ex_uni_inv)
  from uni_batch_publish_oversized [where get_after = uni_consumer_get_after and p = ex_uni and ms = "\<lambda>t. ex_cursors 1" and n = 5 and updates = "[]", OF this]
  show ?thesis by simp
qed

text \<open>
  C39. \<open>n as i64\<close> wraps: a batch of \<open>usize::MAX\<close> events is accepted by \<open>try_batch_publish\<close> without a
  look at the consumers, and it takes back the last published event: the barrier the consumers
  read and the producer's next sequence both move one step backwards.
\<close>

theorem uni_batch_of_usize_MAX_rewinds:
  assumes "uni_inv rear p" "1 \<le> sequence p"
  shows "uni_try_batch_publish get_after m (2 ^ 64 - 1) updates p =
    (Inr (sequence p - 2), p\<lparr>producer_barrier := cursor_store (sequence p - 2) (producer_barrier p),
       sequence := sequence p - 1\<rparr>)"
proof -
  have n: "i64 (int (2 ^ 64 - 1)) = -1" by (simp add: i64_as_mod)
  have wraps: "i64 (sequence p - 2) = sequence p - 2" "i64 (sequence p - 1) = sequence p - 1"
    using assms by (auto simp: uni_inv_def in_i64_iff intro!: i64_id)
  have claim: "uni_next_sequences get_after m (2 ^ 64 - 1) p = (Inr (sequence p - 2), p)"
    using assms n wraps by (simp add: uni_next_sequences_def Let_def uni_inv_def)
  have "run_updates updates (ring_buffer p) (batch_iter_new (sequence p) (sequence p - 2))
      = (ring_buffer p, batch_iter_new (sequence p) (sequence p - 2))"
    by (rule run_updates_empty) (simp add: batch_iter_new_def)
  then have "uni_apply_updates (2 ^ 64 - 1) updates p = (sequence p - 2,
      p\<lparr>producer_barrier := cursor_store (sequence p - 2) (producer_barrier p), sequence := sequence p - 1\<rparr>)"
    using n wraps by (simp add: uni_apply_updates_def Let_def uni_barrier_publish_def)
  with claim show ?thesis by (simp add: uni_try_batch_publish_def)
qed

theorem uni_batch_of_usize_MAX_rewinds_witness:
  "relaxed_value (producer_barrier ex_uni) = 1 \<and>
   relaxed_value (producer_barrier (snd
     (uni_try_batch_publish uni_consumer_get_after (ex_cursors 1) (2 ^ 64 - 1) [] ex_uni))) = 0"
  using uni_batch_of_usize_MAX_rewinds [OF ex_uni_inv [of 1], of uni_consumer_get_after "ex_cursors 1" "[]"]
  by (simp add: ex_uni_def)

text \<open>
  Dropping the producer leaves the sequence after the last published event as the shutdown
  mark and joins every consumer thread; a consumer that panicked makes the drop panic.
\<close>

theorem uni_producer_drop_joins:
  "uni_producer_drop p =
    (if \<exists>h\<in>set (consumer_handles p). join_handle h = Some Panicked
     then Inl (Panic ''Consumer should not panic.'')
     else Inr (p\<lparr>shutdown_at_sequence := sequence p,
       consumer_handles := map (\<lambda>h. h\<lparr>join_handle := None\<rparr>) (consumer_handles p)\<rparr>))"
  using join_all_Inl [of "consumer_handles p"] join_all_Inr [of "consumer_handles p"]
  by (auto simp: uni_producer_drop_def Let_def)

end
