(* ===== verification/Multi_Barrier.thy ===== *)
theory Multi_Barrier
  imports Barriers
begin

unbundle bit_operations_syntax

text \<open>
  The availability bitfield of the multi-producer disruptor (\<open>MultiProducerBarrier\<close> in
  \<open>src/producer/multi.rs\<close>): one bit per slot, flipped at every publication, so that its value
  against the parity of a sequence's round tells whether that sequence is published. The lemmas
  show that flipping a batch word by word is the same as publishing its sequences one by one, that
  the scan in \<open>get_after\<close> ends and finds the first unpublished sequence, and that the bits
  represent the set of published sequences within one lap.

  Words are \<open>64 word\<close>, as \<open>AtomicU64\<close>; slot, word and bit indices are \<open>nat\<close>, as \<open>usize\<close>.
\<close>

section \<open>The bitfield and its operations\<close>

record mp_barrier =
  mp_cursor :: cursor
  available :: "64 word list"
  slot_mask :: nat
  index_shift :: nat

definition mp_barrier_new :: "nat \<Rightarrow> mp_barrier fallible" where
  "mp_barrier_new n =
     (if \<not> 64 \<le> n
      then Inl (Panic ''Multi Producer Disruptor must have a size of minimum 64 slots.'')
      else let i64_needed = n div 64; all_ones = NOT (0 :: 64 word)
           in Inr \<lparr>mp_cursor = cursor_new NONE, available = map (\<lambda>_. all_ones) [0..<i64_needed],
                   slot_mask = n - 1, index_shift = ilog2 n\<rparr>)"

definition mp_current :: "mp_barrier \<Rightarrow> sequence" where
  "mp_current b = relaxed_value (mp_cursor b)"

definition mp_compare_exchange :: "sequence \<Rightarrow> sequence \<Rightarrow> mp_barrier \<Rightarrow> (int + int) \<times> mp_barrier" where
  "mp_compare_exchange cur nxt b =
     (let (r, c) = compare_exchange cur nxt (mp_cursor b) in (r, b\<lparr>mp_cursor := c\<rparr>))"

definition slot_index :: "mp_barrier \<Rightarrow> sequence \<Rightarrow> nat" where
  "slot_index b s = u64 s AND slot_mask b"

definition calculate_availability_indices :: "mp_barrier \<Rightarrow> sequence \<Rightarrow> nat \<times> nat" where
  "calculate_availability_indices b s =
     (let slot = slot_index b s;
          availability_index = drop_bit 6 slot;
          bit_index = slot - availability_index * 64
      in (availability_index, bit_index))"

definition calculate_availability_flag :: "mp_barrier \<Rightarrow> sequence \<Rightarrow> 64 word" where
  "calculate_availability_flag b s =
     (let round = word_of_int (drop_bit (index_shift b) s) in round AND 1)"

text \<open>\<open>availability_at(index).fetch_xor(mask)\<close>\<close>

definition fetch_xor :: "nat \<Rightarrow> 64 word \<Rightarrow> mp_barrier \<Rightarrow> mp_barrier" where
  "fetch_xor i m b = b\<lparr>available := (available b)[i := available b ! i XOR m]\<rparr>"

definition mp_publish :: "sequence \<Rightarrow> mp_barrier \<Rightarrow> mp_barrier" where
  "mp_publish s b =
     (let (availability_index, bit_index) = calculate_availability_indices b s;
          mask = push_bit bit_index 1
      in fetch_xor availability_index mask b)"

text \<open>
  The loop of \<open>publish_range_relaxed\<close>: \<open>k\<close> iterations to go, at iteration \<open>i\<close>, with the word
  index, the bit index and the flips collected for the current word.
\<close>

fun publish_range_loop :: "sequence \<Rightarrow> nat \<Rightarrow> int \<Rightarrow> nat \<Rightarrow> nat \<Rightarrow> 64 word \<Rightarrow> mp_barrier
    \<Rightarrow> nat \<times> 64 word \<times> mp_barrier" where
  "publish_range_loop from 0 i availability_index bit_index flip_mask b =
     (availability_index, flip_mask, b)"
| "publish_range_loop from (Suc k) i availability_index bit_index flip_mask b =
     (let flip_mask = flip_mask OR push_bit bit_index 1
      in if bit_index < 63
         then publish_range_loop from k (i + 1) availability_index (bit_index + 1) flip_mask b
         else let b' = fetch_xor availability_index flip_mask b;
                  next_sequence = i64 (i64 (from + i) + 1)
              in publish_range_loop from k (i + 1)
                   (fst (calculate_availability_indices b' next_sequence)) 0 0 b')"

definition publish_range_relaxed :: "sequence \<Rightarrow> int \<Rightarrow> mp_barrier \<Rightarrow> mp_barrier" where
  "publish_range_relaxed from n b =
     (let (availability_index, bit_index) = calculate_availability_indices b from;
          (availability_index', flip_mask, b') =
            publish_range_loop from (nat n) 0 availability_index bit_index 0 b
      in if flip_mask > 0 then fetch_xor availability_index' flip_mask b' else b')"

text \<open>
  The scan of \<open>get_after\<close>. The \<open>t\<close>-th load of a word sees the words \<open>loads t\<close>: other threads may
  publish between two loads. \<open>None\<close> is a scan that never ends.
\<close>

partial_function (option) mp_scan :: "mp_barrier \<Rightarrow> (nat \<Rightarrow> 64 word list) \<Rightarrow> nat \<Rightarrow> 64 word
    \<Rightarrow> 64 word \<Rightarrow> nat \<Rightarrow> sequence \<Rightarrow> sequence option" where
  "mp_scan b loads t availability_flag availability bit_index highest_available =
     (if availability AND 1 \<noteq> availability_flag then Some (i64 (highest_available - 1))
      else if bit_index < 63
      then mp_scan b loads t availability_flag (drop_bit 1 availability) (bit_index + 1)
             (i64 (highest_available + 1))
      else mp_scan b loads (Suc t)
             (if fst (calculate_availability_indices b (i64 (highest_available + 1))) = 0
              then availability_flag XOR 1 else availability_flag)
             (loads t ! fst (calculate_availability_indices b (i64 (highest_available + 1))))
             0 (i64 (highest_available + 1)))"

declare mp_scan.simps [code]

definition mp_get_after_loads :: "mp_barrier \<Rightarrow> (nat \<Rightarrow> 64 word list) \<Rightarrow> sequence \<Rightarrow> sequence option" where
  "mp_get_after_loads b loads prev =
     (let availability_flag = calculate_availability_flag b prev;
          (availability_index, bit_index) = calculate_availability_indices b prev;
          availability = drop_bit bit_index (loads 0 ! availability_index)
      in mp_scan b loads 1 availability_flag availability bit_index prev)"

text \<open>Without interference every load sees the same words.\<close>

definition mp_get_after :: "mp_barrier \<Rightarrow> sequence \<Rightarrow> sequence option" where
  "mp_get_after b prev = mp_get_after_loads b (\<lambda>_. available b) prev"

section \<open>Well-formedness, and the bits as a view\<close>

definition wf_mp :: "mp_barrier \<Rightarrow> bool" where
  "wf_mp b \<longleftrightarrow> is_power_of_two (Suc (slot_mask b)) \<and> 64 \<le> Suc (slot_mask b) \<and> Suc (slot_mask b) < 2 ^ 63
     \<and> index_shift b = ilog2 (Suc (slot_mask b)) \<and> length (available b) = Suc (slot_mask b) div 64"

abbreviation mp_size :: "mp_barrier \<Rightarrow> int" where
  "mp_size b \<equiv> int (Suc (slot_mask b))"

definition mp_bit :: "64 word list \<Rightarrow> nat \<Rightarrow> bool" where
  "mp_bit av i = bit (av ! (i div 64)) (i mod 64)"

text \<open>
  The words \<open>av\<close> show sequence \<open>s\<close> as published: its slot's bit has the parity of its round.
\<close>

definition mp_shown :: "mp_barrier \<Rightarrow> 64 word list \<Rightarrow> sequence \<Rightarrow> bool" where
  "mp_shown b av s \<longleftrightarrow> mp_bit av (slot_index b s) = odd (s div mp_size b)"

definition mp_available :: "mp_barrier \<Rightarrow> sequence \<Rightarrow> bool" where
  "mp_available b s \<longleftrightarrow> mp_shown b (available b) s"

section \<open>Indices and flags\<close>

lemma wf_mp_exp:
  assumes "wf_mp b"
  obtains k where "6 \<le> k" "k < 63" "Suc (slot_mask b) = 2 ^ k" "index_shift b = k"
    "length (available b) = 2 ^ (k - 6)"
proof -
  from assms obtain k where k: "Suc (slot_mask b) = 2 ^ k"
    by (auto simp: wf_mp_def is_power_of_two_iff)
  from assms k have "(2::nat) ^ 6 \<le> 2 ^ k" "(2::nat) ^ k < 2 ^ 63" by (auto simp: wf_mp_def)
  then have "6 \<le> k" "k < 63"
    by (simp_all only: power_strict_increasing_iff power_increasing_iff)
  moreover have "(2::nat) ^ k div 64 = 2 ^ (k - 6)"
    using \<open>6 \<le> k\<close> power_diff [of "2::nat" 6 k] by simp
  ultimately show thesis using that k assms by (simp add: wf_mp_def)
qed

lemma slot_index_mod:
  assumes "wf_mp b"
  shows "slot_index b s = nat (s mod mp_size b)"
proof -
  from assms obtain k where k: "6 \<le> k" "k < 63" "Suc (slot_mask b) = 2 ^ k" by (rule wf_mp_exp)
  then have mask: "slot_mask b = 2 ^ k - Suc 0" by simp
  have dvd: "(2::int) ^ k dvd 2 ^ 64" using k(2) by (intro le_imp_power_dvd) auto
  have "slot_index b s = u64 s mod 2 ^ k"
    unfolding slot_index_def mask by (rule nat_and_mask)
  also have "\<dots> = nat ((s mod 2 ^ 64) mod 2 ^ k)"
    by (simp add: u64_def take_bit_eq_mod nat_mod_distrib nat_power_eq)
  also have "\<dots> = nat (s mod 2 ^ k)"
    using dvd by (simp only: mod_mod_cancel)
  finally show ?thesis using k(3) by simp
qed

lemma slot_index_less: "wf_mp b \<Longrightarrow> slot_index b s < Suc (slot_mask b)"
  by (simp add: slot_index_mod nat_less_iff)

lemma indices_eq: "calculate_availability_indices b s = (slot_index b s div 64, slot_index b s mod 64)"
  by (simp add: calculate_availability_indices_def Let_def drop_bit_eq_div minus_div_mult_eq_mod)

lemma word_index_less:
  assumes "wf_mp b"
  shows "slot_index b s div 64 < length (available b)"
proof -
  have "slot_index b s < Suc (slot_mask b)" using assms by (rule slot_index_less)
  moreover have "64 dvd Suc (slot_mask b)"
    using assms le_imp_power_dvd [of 6 _ "2::nat"] by (elim wf_mp_exp) fastforce
  ultimately show ?thesis using assms by (auto simp: wf_mp_def less_mult_imp_div_less elim!: dvdE)
qed

lemma word_of_int_and_1: "(word_of_int x :: 64 word) AND 1 = of_bool (odd x)"
  by (rule bit_word_eqI) (auto simp: bit_and_iff bit_1_iff bit_word_of_int_iff bit_0, metis bit_0 gr0I)

lemma word_and_1: "(w :: 64 word) AND 1 = of_bool (bit w 0)"
  by (rule bit_word_eqI) (auto simp: bit_and_iff bit_1_iff bit_0, metis bit_0 gr0I)

lemma flag_eq:
  "wf_mp b \<Longrightarrow> calculate_availability_flag b s = of_bool (odd (s div mp_size b))"
  by (elim wf_mp_exp)
    (simp add: calculate_availability_flag_def Let_def word_of_int_and_1 drop_bit_eq_div del: of_nat_Suc)

lemma fetch_xor_simps [simp]:
  "slot_mask (fetch_xor i m b) = slot_mask b" "index_shift (fetch_xor i m b) = index_shift b"
  "mp_cursor (fetch_xor i m b) = mp_cursor b" "length (available (fetch_xor i m b)) = length (available b)"
  "wf_mp (fetch_xor i m b) = wf_mp b" "slot_index (fetch_xor i m b) s = slot_index b s"
  "calculate_availability_indices (fetch_xor i m b) s = calculate_availability_indices b s"
  by (simp_all add: fetch_xor_def wf_mp_def slot_index_def calculate_availability_indices_def)

lemma mp_publish_simps [simp]:
  "slot_mask (mp_publish s b) = slot_mask b" "index_shift (mp_publish s b) = index_shift b"
  "mp_cursor (mp_publish s b) = mp_cursor b" "length (available (mp_publish s b)) = length (available b)"
  "wf_mp (mp_publish s b) = wf_mp b" "slot_index (mp_publish s b) t = slot_index b t"
  by (simp_all add: mp_publish_def split_def Let_def)

lemma mp_bit_fetch_xor:
  "i div 64 < length (available b) \<Longrightarrow> mp_bit (available (fetch_xor w m b)) i
     = (mp_bit (available b) i \<noteq> (i div 64 = w \<and> bit m (i mod 64)))"
  by (cases "i div 64 = w") (auto simp: mp_bit_def fetch_xor_def bit_xor_iff)

lemma mp_bit_publish:
  assumes "wf_mp b" "i < Suc (slot_mask b)"
  shows "mp_bit (available (mp_publish s b)) i = (mp_bit (available b) i \<noteq> (i = slot_index b s))"
proof -
  have "slot_index b (int i) = i"
    using assms by (simp add: slot_index_mod nat_mod_as_int [symmetric] del: of_nat_Suc)
  then have len: "i div 64 < length (available b)"
    using word_index_less [OF assms(1), of "int i"] by simp
  have "i = slot_index b s \<longleftrightarrow> i div 64 = slot_index b s div 64 \<and> i mod 64 = slot_index b s mod 64"
    by (metis mod_div_mult_eq)
  with len show ?thesis
    by (auto simp: mp_publish_def indices_eq mp_bit_fetch_xor bit_exp_iff)
qed

lemma fetch_xor_0 [simp]: "fetch_xor i 0 b = b"
  by (simp add: fetch_xor_def)

lemma fetch_xor_fetch_xor: "i < length (available b) \<Longrightarrow>
  fetch_xor i m (fetch_xor i m' b) = fetch_xor i (m' XOR m) b"
  by (simp add: fetch_xor_def xor.assoc)

lemma OR_new_bit: "i < 64 \<Longrightarrow> \<not> bit m i \<Longrightarrow> m OR 2 ^ i = m XOR (2 ^ i :: 64 word)"
  by (rule bit_word_eqI) (auto simp: bit_or_iff bit_xor_iff bit_exp_iff)

text \<open>The successor of a sequence is the next bit of the same word, or the first bit of a word.\<close>

lemma slot_index_Suc:
  assumes "wf_mp b"
  shows "slot_index b s mod 64 < 63 \<Longrightarrow> slot_index b (s + 1) = Suc (slot_index b s)"
    and "slot_index b s mod 64 = 63 \<Longrightarrow> slot_index b (s + 1) mod 64 = 0"
    and "slot_index b s mod 64 = 63 \<Longrightarrow> slot_index b (s + 1) div 64 = 0 \<longleftrightarrow> (s + 1) mod mp_size b = 0"
proof -
  from assms obtain k where k: "6 \<le> k" "Suc (slot_mask b) = 2 ^ k" by (rule wf_mp_exp)
  from le_imp_power_dvd [OF k(1), of "2::int"] have dvd: "64 dvd mp_size b" using k(2) by simp
  have idx: "int (slot_index b t) = t mod mp_size b" for t
    using assms by (simp add: slot_index_mod)
  have mod64: "int (slot_index b t mod 64) = t mod 64" for t
    using dvd by (simp add: zmod_int idx mod_mod_cancel del: of_nat_Suc)
  have first: "slot_index b (s + 1) mod 64 = 0" if "slot_index b s mod 64 = 63"
  proof -
    have "s mod 64 = 63" using mod64 [of s] that by simp
    then have "(s + 1) mod 64 = 0" using mod_plus_one [of 64 s] by simp
    then show ?thesis using mod64 [of "s + 1"] by simp
  qed
  have N: "0 < mp_size b" by simp
  note wrap = mod_plus_one [OF N, of s]
  have dvd': "64 dvd s mod mp_size b + 1" if "s mod mp_size b = mp_size b - 1"
    using dvd by (simp only: that diff_add_cancel)
  show "slot_index b (s + 1) = Suc (slot_index b s)" if "slot_index b s mod 64 < 63"
  proof -
    have "s mod mp_size b \<noteq> mp_size b - 1"
    proof
      assume "s mod mp_size b = mp_size b - 1"
      then have "64 dvd int (slot_index b s) + 1" using dvd' idx [of s] by simp
      then have "(int (slot_index b s) + 1) mod 64 = 0" by simp
      moreover have "0 \<le> int (slot_index b s) mod 64" by simp
      ultimately have "int (slot_index b s mod 64) = 63"
        using mod_plus_one [of 64 "int (slot_index b s)"] by (simp add: zmod_int split: if_split_asm)
      with that show False by simp
    qed
    then have "int (slot_index b (s + 1)) = int (slot_index b s) + 1"
      by (simp only: idx wrap if_False)
    then show ?thesis by simp
  qed
  show "slot_index b (s + 1) mod 64 = 0" if "slot_index b s mod 64 = 63"
    using that by (rule first)
  show "slot_index b (s + 1) div 64 = 0 \<longleftrightarrow> (s + 1) mod mp_size b = 0" if "slot_index b s mod 64 = 63"
  proof -
    have "slot_index b (s + 1) mod 64 = 0" using that by (rule first)
    then have "slot_index b (s + 1) div 64 = 0 \<longleftrightarrow> slot_index b (s + 1) = 0"
      using mult_div_mod_eq [of 64 "slot_index b (s + 1)"] by auto
    then have "slot_index b (s + 1) div 64 = 0 \<longleftrightarrow> int (slot_index b (s + 1)) = 0" by simp
    then show ?thesis by (simp only: idx)
  qed
qed

lemma publish_in_word:
  assumes "wf_mp b" "\<forall>j \<ge> slot_index b s mod 64. \<not> bit m j"
  shows "mp_publish s (fetch_xor (slot_index b s div 64) m b)
    = fetch_xor (slot_index b s div 64) (m OR push_bit (slot_index b s mod 64) 1) b"
  using assms word_index_less [OF assms(1), of s]
  by (simp add: mp_publish_def indices_eq fetch_xor_fetch_xor OR_new_bit)

lemma publish_range_loop_eff:
  assumes "wf_mp b" "ai = slot_index b (lo + i) div 64" "bi = slot_index b (lo + i) mod 64"
    and "\<forall>j \<ge> bi. \<not> bit m j" "0 \<le> lo + i" "lo + i + int k < 2 ^ 63"
  shows "case publish_range_loop lo k i ai bi m b of (ai', m', b') \<Rightarrow>
    fetch_xor ai' m' b' = fold mp_publish [lo + i..lo + i + int k - 1] (fetch_xor ai m b)"
  using assms
proof (induction k arbitrary: i ai bi m b)
  case 0
  then show ?case by simp
next
  case (Suc k)
  let ?m = "m OR push_bit bi (1 :: 64 word)"
  have step: "mp_publish (lo + i) (fetch_xor ai m b) = fetch_xor ai ?m b"
    using Suc.prems publish_in_word [of b "lo + i" m] by simp
  have upto: "[lo + i..lo + i + int (Suc k) - 1]
      = (lo + i) # [lo + (i + 1)..lo + (i + 1) + int k - 1]"
    by (subst upto_rec1) (simp_all add: algebra_simps)
  show ?case
  proof (cases "bi < 63")
    case True
    have "slot_index b (lo + (i + 1)) = Suc (slot_index b (lo + i))"
      using slot_index_Suc(1) [OF Suc.prems(1), of "lo + i"] True Suc.prems(3) by (simp add: add.assoc)
    then have idx: "ai = slot_index b (lo + (i + 1)) div 64" "bi + 1 = slot_index b (lo + (i + 1)) mod 64"
      using True Suc.prems(2,3) by (simp_all add: div_Suc mod_Suc)
    have clear: "\<forall>j \<ge> bi + 1. \<not> bit ?m j"
      using Suc.prems(4) by (auto simp: bit_or_iff bit_exp_iff)
    have b: "0 \<le> lo + (i + 1)" "lo + (i + 1) + int k < 2 ^ 63"
      using Suc.prems(5,6) by simp_all
    from Suc.IH [OF Suc.prems(1) idx clear b] show ?thesis
      unfolding upto using True by (simp add: Let_def step del: fold_simps(1)) 
  next
    case False
    then have bi: "bi = 63" using Suc.prems(3) mod_less_divisor [of 64 "slot_index b (lo + i)"] by simp
    let ?b = "fetch_xor ai ?m b"
    have next_seq: "i64 (lo + i + 1) = lo + (i + 1)"
      using Suc.prems(5,6) by (subst i64_id) (simp_all add: in_i64_iff)
    have wf: "wf_mp ?b" using Suc.prems(1) by simp
    have idx: "fst (calculate_availability_indices ?b (lo + (i + 1))) = slot_index ?b (lo + (i + 1)) div 64"
      "0 = slot_index ?b (lo + (i + 1)) mod 64"
      using slot_index_Suc(2) [OF Suc.prems(1), of "lo + i"] bi Suc.prems(3)
      by (simp_all add: indices_eq add.assoc)
    have b: "0 \<le> lo + (i + 1)" "lo + (i + 1) + int k < 2 ^ 63"
      using Suc.prems(5,6) by simp_all
    from Suc.IH [OF wf idx _ b, of 0] show ?thesis
      unfolding upto using False by (simp add: Let_def step next_seq)
  qed
qed

lemma publish_range_relaxed_fold:
  assumes "wf_mp b" "0 \<le> lo" "0 \<le> n" "lo + n < 2 ^ 63"
  shows "publish_range_relaxed lo n b = fold mp_publish [lo..lo + n - 1] b"
proof -
  obtain ai m b' where loop: "publish_range_loop lo (nat n) 0 (slot_index b lo div 64)
      (slot_index b lo mod 64) 0 b = (ai, m, b')" by (cases rule: prod_cases3)
  have "fetch_xor ai m b' = fold mp_publish [lo..lo + n - 1] b"
    using publish_range_loop_eff [OF assms(1) refl refl, where i = 0 and lo = lo and k = "nat n" and m = 0] assms loop by simp
  then show ?thesis
    using loop by (auto simp: publish_range_relaxed_def indices_eq word_gt_0)
qed

lemma mp_available_lap:
  assumes "wf_mp b"
  shows "mp_available b (s + mp_size b) \<longleftrightarrow> \<not> mp_available b s"
proof -
  have "(s + mp_size b) div mp_size b = s div mp_size b + 1"
    by (rule div_add_self2) simp
  with assms show ?thesis by (simp add: mp_available_def mp_shown_def slot_index_mod del: of_nat_Suc)
qed

text \<open>The \<open>s\<close>-th sequence after \<open>lo\<close> is looked up in the word of this load of a scan from \<open>lo\<close>.\<close>

definition load_of :: "sequence \<Rightarrow> sequence \<Rightarrow> nat" where
  "load_of lo s = nat (s div 64 - lo div 64)"

lemma slot_index_mod_64:
  assumes "wf_mp b"
  shows "int (slot_index b s mod 64) = s mod 64"
proof -
  from assms obtain k where k: "6 \<le> k" "Suc (slot_mask b) = 2 ^ k" by (rule wf_mp_exp)
  from le_imp_power_dvd [OF k(1), of "2::int"] have "64 dvd mp_size b" using k(2) by simp
  with assms show ?thesis by (simp add: slot_index_mod zmod_int mod_mod_cancel del: of_nat_Suc)
qed

lemma load_of_Suc:
  assumes "wf_mp b"
  shows "slot_index b h mod 64 < 63 \<Longrightarrow> load_of (h + 1) s = load_of h s"
    and "slot_index b h mod 64 = 63 \<Longrightarrow> h + 1 \<le> s \<Longrightarrow> Suc (load_of (h + 1) s) = load_of h s"
proof -
  show "load_of (h + 1) s = load_of h s" if "slot_index b h mod 64 < 63"
  proof -
    have "h mod 64 \<noteq> 63" using slot_index_mod_64 [OF assms, of h] that by linarith
    moreover have "0 \<le> h mod 64" by simp
    ultimately have "(h + 1) mod 64 \<noteq> 0" unfolding mod_plus_one [OF zero_less_numeral] by simp
    then have "(h + 1) div 64 = h div 64" unfolding div_plus_one [OF zero_less_numeral] by simp
    then show ?thesis by (simp add: load_of_def)
  qed
  show "Suc (load_of (h + 1) s) = load_of h s" if "slot_index b h mod 64 = 63" "h + 1 \<le> s"
  proof -
    have "h mod 64 = 63" using slot_index_mod_64 [OF assms, of h] that(1) by linarith
    then have "(h + 1) mod 64 = 0" unfolding mod_plus_one [OF zero_less_numeral] by simp
    then have "(h + 1) div 64 = h div 64 + 1" unfolding div_plus_one [OF zero_less_numeral] by simp
    moreover have "(h + 1) div 64 \<le> s div 64" using that(2) by (simp add: zdiv_mono1)
    ultimately show ?thesis unfolding load_of_def by linarith
  qed
qed

text \<open>
  The scan under interference. If every word it loads shows only sequences of \<open>S\<close>, and \<open>B\<close> is not
  in \<open>S\<close>, the scan from \<open>h\<close> ends before \<open>B\<close>, everything it passes is in \<open>S\<close> and shown by the word it
  was looked up in, and it passes everything that all the words show.
\<close>

lemma mp_scan_interfered:
  assumes "wf_mp b" "\<forall>t s. h \<le> s \<and> s \<le> B \<and> mp_shown b (loads t) s \<longrightarrow> s \<in> S" "B \<notin> S"
    and "B = h + int d" "-1 \<le> h" "B < 2 ^ 63"
    and "flag = of_bool (odd (h div mp_size b))" "bi = slot_index b h mod 64"
    and "av = drop_bit bi (loads t0 ! (slot_index b h div 64))" and "t = Suc t0"
  shows "\<exists>r. mp_scan b loads t flag av bi h = Some r \<and> h - 1 \<le> r \<and> r < B
    \<and> (\<forall>s. h \<le> s \<and> s \<le> r \<longrightarrow> s \<in> S \<and> mp_shown b (loads (t0 + load_of h s)) s)
    \<and> (\<forall>q. (\<forall>s t. h \<le> s \<and> s \<le> q \<longrightarrow> mp_shown b (loads t) s) \<longrightarrow> q \<le> r)"
  using assms
proof (induction d arbitrary: h t flag av bi t0)
  case (0 h t flag av bi t0)
  then have "\<not> mp_shown b (loads t0) h" by auto
  then have "av AND 1 \<noteq> flag"
    using 0 by (auto simp: word_and_1 bit_drop_bit_eq mp_shown_def mp_bit_def)
  moreover have "i64 (h - 1) = h - 1" using 0 by (intro i64_id) (simp add: in_i64_iff)
  ultimately have "mp_scan b loads t flag av bi h = Some (h - 1)"
    by (simp add: mp_scan.simps [of b _ t flag])
  moreover have "q < h" if "\<forall>s t. h \<le> s \<and> s \<le> q \<longrightarrow> mp_shown b (loads t) s" for q
    using that \<open>\<not> mp_shown b (loads t0) h\<close> by force
  ultimately show ?case using 0 by fastforce
next
  case (Suc d h t flag av bi t0)
  have bit0: "av AND 1 \<noteq> flag \<longleftrightarrow> \<not> mp_shown b (loads t0) h"
    using Suc.prems by (auto simp: word_and_1 bit_drop_bit_eq mp_shown_def mp_bit_def)
  show ?case
  proof (cases "mp_shown b (loads t0) h")
    case False
    have "i64 (h - 1) = h - 1" using Suc.prems by (intro i64_id) (simp add: in_i64_iff)
    with False bit0 have "mp_scan b loads t flag av bi h = Some (h - 1)"
      by (simp add: mp_scan.simps [of b _ t flag])
    moreover have "q < h" if "\<forall>s t. h \<le> s \<and> s \<le> q \<longrightarrow> mp_shown b (loads t) s" for q
      using that False by force
    ultimately show ?thesis using Suc.prems by fastforce
  next
    case True
    have inS: "h \<in> S" using True Suc.prems(2,4) by auto
    have nxt: "i64 (h + 1) = h + 1" using Suc.prems(4-6) by (intro i64_id) (simp add: in_i64_iff)
    have rest: "\<forall>t s. h + 1 \<le> s \<and> s \<le> B \<and> mp_shown b (loads t) s \<longrightarrow> s \<in> S" "B \<notin> S"
      "B = h + 1 + int d" "-1 \<le> h + 1" "B < 2 ^ 63"
      using Suc.prems(2-6) by auto
    note IH = Suc.IH [OF Suc.prems(1) rest]
    let ?ok = "\<lambda>h t0 r. h - 1 \<le> r \<and> r < B
      \<and> (\<forall>s. h \<le> s \<and> s \<le> r \<longrightarrow> s \<in> S \<and> mp_shown b (loads (t0 + load_of h s)) s)
      \<and> (\<forall>q. (\<forall>s t. h \<le> s \<and> s \<le> q \<longrightarrow> mp_shown b (loads t) s) \<longrightarrow> q \<le> r)"
    have lift: "?ok h t0 r" if ok: "?ok (h + 1) t1 r"
      and t1: "\<And>s. h + 1 \<le> s \<Longrightarrow> t1 + load_of (h + 1) s = t0 + load_of h s" for r t1
    proof -
      have "s \<in> S \<and> mp_shown b (loads (t0 + load_of h s)) s" if "h \<le> s" "s \<le> r" for s
      proof (cases "s = h")
        case True
        then show ?thesis using inS \<open>mp_shown b (loads t0) h\<close> by (simp add: load_of_def)
      next
        case False
        with that have "h + 1 \<le> s" by simp
        with ok that(2) t1 [of s] show ?thesis by auto
      qed
      with ok show ?thesis by auto
    qed
    have N: "0 < mp_size b" by simp
    have slot0: "slot_index b (h + 1) = 0 \<longleftrightarrow> (h + 1) mod mp_size b = 0"
      using pos_mod_sign [OF N, of "h + 1"]
      by (auto simp: slot_index_mod [OF Suc.prems(1)] simp del: of_nat_Suc intro: order_antisym)
    show ?thesis
    proof (cases "bi < 63")
      case True
      have slot: "slot_index b (h + 1) = Suc (slot_index b h)"
        using slot_index_Suc(1) [OF Suc.prems(1), of h] True Suc.prems(8) by simp
      then have "(h + 1) mod mp_size b \<noteq> 0" using slot0 by simp
      then have "flag = of_bool (odd ((h + 1) div mp_size b))"
        using Suc.prems(7) div_plus_one [OF N, of h] by simp
      moreover have "bi + 1 = slot_index b (h + 1) mod 64"
        "drop_bit 1 av = drop_bit (bi + 1) (loads t0 ! (slot_index b (h + 1) div 64))"
        using slot True Suc.prems(8,9) by (simp_all add: div_Suc mod_Suc drop_bit_drop_bit)
      ultimately have "\<exists>r. mp_scan b loads t flag (drop_bit 1 av) (bi + 1) (h + 1) = Some r \<and> ?ok (h + 1) t0 r"
        by (rule IH) (rule Suc.prems(10))
      then obtain r where r: "mp_scan b loads t flag (drop_bit 1 av) (bi + 1) (h + 1) = Some r" "?ok (h + 1) t0 r"
        by blast
      have "t0 + load_of (h + 1) s = t0 + load_of h s" for s
        using load_of_Suc(1) [OF Suc.prems(1), of h] True Suc.prems(8) by simp
      note lift = lift [OF r(2) this]
      have "mp_scan b loads t flag av bi h = Some r"
        using r(1) bit0 \<open>mp_shown b (loads t0) h\<close> True nxt by (simp add: mp_scan.simps [of b _ t flag av])
      with lift show ?thesis by blast
    next
      case False
      then have bi: "slot_index b h mod 64 = 63"
        using Suc.prems(8) mod_less_divisor [of 64 "slot_index b h"] by simp
      let ?flag = "if slot_index b (h + 1) div 64 = 0 then flag XOR 1 else flag"
      let ?av = "loads t ! (slot_index b (h + 1) div 64)"
      have "?flag = of_bool (odd ((h + 1) div mp_size b))"
        using slot_index_Suc(3) [OF Suc.prems(1) bi] Suc.prems(7) div_plus_one [OF N, of h] by simp
      moreover have "0 = slot_index b (h + 1) mod 64"
        using slot_index_Suc(2) [OF Suc.prems(1) bi] by simp
      moreover have "?av = drop_bit 0 ?av" by simp
      ultimately have "\<exists>r. mp_scan b loads (Suc t) ?flag ?av 0 (h + 1) = Some r \<and> ?ok (h + 1) t r"
        by (rule IH) (rule refl)
      then obtain r where r: "mp_scan b loads (Suc t) ?flag ?av 0 (h + 1) = Some r" "?ok (h + 1) t r"
        by blast
      have "t + load_of (h + 1) s = t0 + load_of h s" if "h + 1 \<le> s" for s
        using load_of_Suc(2) [OF Suc.prems(1) bi that] Suc.prems(10) by simp
      note lift = lift [OF r(2) this]
      have "mp_scan b loads t flag av bi h = Some r"
        using r(1) bit0 \<open>mp_shown b (loads t0) h\<close> False nxt
        by (simp add: mp_scan.simps [of b _ t flag av] indices_eq)
      with lift show ?thesis by blast
    qed
  qed
qed

lemma mp_get_after_interfered:
  assumes "wf_mp b" "\<forall>t s. prev \<le> s \<and> s \<le> B \<and> mp_shown b (loads t) s \<longrightarrow> s \<in> S" "B \<notin> S"
    and "-1 \<le> prev" "prev \<le> B" "B < 2 ^ 63"
  shows "\<exists>r. mp_get_after_loads b loads prev = Some r \<and> prev - 1 \<le> r \<and> r < B
    \<and> (\<forall>s. prev \<le> s \<and> s \<le> r \<longrightarrow> s \<in> S \<and> mp_shown b (loads (load_of prev s)) s)
    \<and> (\<forall>q. (\<forall>s t. prev \<le> s \<and> s \<le> q \<longrightarrow> mp_shown b (loads t) s) \<longrightarrow> q \<le> r)"
proof -
  have "B = prev + int (nat (B - prev))" using assms(5) by simp
  from mp_scan_interfered [OF assms(1-3) this assms(4,6) refl refl refl, of 1 0] assms(1)
  show ?thesis
    by (simp add: mp_get_after_loads_def Let_def indices_eq flag_eq del: of_nat_Suc)
qed

lemma mp_hole_exists:
  assumes "wf_mp b"
  obtains d where "int d \<le> mp_size b" "\<forall>s. prev \<le> s \<and> s < prev + int d \<longrightarrow> mp_available b s"
    "\<not> mp_available b (prev + int d)"
proof -
  let ?P = "\<lambda>d::nat. \<not> mp_available b (prev + int d)"
  have some: "\<exists>d \<le> Suc (slot_mask b). ?P d"
    using mp_available_lap [OF assms, of prev]
    by (cases "mp_available b prev") (force intro: exI [of _ 0] exI [of _ "Suc (slot_mask b)"])+
  define d where "d = (LEAST d. ?P d)"
  have "?P d" unfolding d_def using some by (intro LeastI_ex [of ?P]) blast
  moreover have "d \<le> Suc (slot_mask b)"
    using some Least_le [of ?P] unfolding d_def by (meson order_trans)
  moreover have "mp_available b s" if "prev \<le> s" "s < prev + int d" for s
  proof -
    have "nat (s - prev) < d" using that by simp
    then have "\<not> ?P (nat (s - prev))" unfolding d_def by (rule not_less_Least)
    with that show ?thesis by simp
  qed
  ultimately show thesis by (intro that) auto
qed

lemma mp_scan_stop:
  "av AND 1 \<noteq> flag \<Longrightarrow> mp_scan b loads t flag av bi h = Some (i64 (h - 1))"
  by (simp add: mp_scan.simps [of b loads t flag])

lemma mp_get_after_blocked:
  assumes "wf_mp b" "\<not> mp_shown b (loads 0) prev" "-1 \<le> prev" "prev < 2 ^ 63"
  shows "mp_get_after_loads b loads prev = Some (prev - 1)"
proof -
  have "i64 (prev - 1) = prev - 1" using assms(3,4) by (intro i64_id) (simp add: in_i64_iff)
  moreover have "drop_bit (slot_index b prev mod 64) (loads 0 ! (slot_index b prev div 64)) AND 1
      \<noteq> calculate_availability_flag b prev"
    using assms(1,2)
    by (auto simp: word_and_1 bit_drop_bit_eq mp_shown_def mp_bit_def flag_eq simp del: of_nat_Suc)
  ultimately show ?thesis
    by (simp add: mp_get_after_loads_def Let_def indices_eq mp_scan_stop)
qed

text \<open>Without interference the scan finds the first sequence that is not available.\<close>

lemma mp_get_after_exact:
  assumes "wf_mp b" "-1 \<le> prev" "prev + mp_size b < 2 ^ 63"
  obtains r where "mp_get_after b prev = Some r" "prev - 1 \<le> r" "r < prev + mp_size b"
    "\<forall>s. prev \<le> s \<and> s \<le> r \<longrightarrow> mp_available b s" "\<not> mp_available b (r + 1)"
proof -
  obtain d where d: "int d \<le> mp_size b" "\<forall>s. prev \<le> s \<and> s < prev + int d \<longrightarrow> mp_available b s"
    "\<not> mp_available b (prev + int d)" by (rule mp_hole_exists [OF assms(1), of prev])
  have "\<forall>t s. prev \<le> s \<and> s \<le> prev + int d \<and> mp_shown b ((\<lambda>_. available b) (t::nat)) s
      \<longrightarrow> s \<in> {s. mp_available b s}"
    by (simp add: mp_available_def)
  from mp_get_after_interfered [OF assms(1) this] d assms
  obtain r where r: "mp_get_after b prev = Some r" "prev - 1 \<le> r" "r < prev + int d"
    "\<forall>s. prev \<le> s \<and> s \<le> r \<longrightarrow> mp_available b s"
    "\<forall>q. (\<forall>s. prev \<le> s \<and> s \<le> q \<longrightarrow> mp_available b s) \<longrightarrow> q \<le> r"
    by (auto simp: mp_get_after_def mp_available_def)
  have "prev + int d - 1 \<le> r" using r(5) d(2) by auto
  with r(3) have "r + 1 = prev + int d" by simp
  with that [OF r(1,2)] r(3,4) d(1,3) show thesis by simp
qed

interpretation mp_pb: barrier "\<lambda>b prev. the (mp_get_after b prev)" mp_available
  "\<lambda>b lo. wf_mp b \<and> -1 \<le> lo \<and> lo + mp_size b < 2 ^ 63"
proof unfold_locales
  fix b lo s
  assume ok: "wf_mp b \<and> -1 \<le> lo \<and> lo + mp_size b < 2 ^ 63"
  then obtain r where r: "mp_get_after b lo = Some r" "lo - 1 \<le> r"
    "\<forall>s. lo \<le> s \<and> s \<le> r \<longrightarrow> mp_available b s" "\<not> mp_available b (r + 1)"
    by (elim conjE mp_get_after_exact)
  show "mp_available b s" if "lo \<le> s" "s \<le> the (mp_get_after b lo)"
    using r that by simp
  have "max lo (r + 1) = r + 1" using r(2) by simp
  with r show "\<not> mp_available b (max lo (the (mp_get_after b lo) + 1))" by simp
qed

section \<open>The set of published sequences\<close>

text \<open>
  \<open>mp_represents b lo P\<close>: the bits of \<open>b\<close> stand for the set \<open>P\<close> of published sequences, where
  everything below \<open>lo\<close> is published and passed by all consumers, and nothing is published a lap or
  more ahead of it.
\<close>

definition mp_represents :: "mp_barrier \<Rightarrow> sequence \<Rightarrow> sequence set \<Rightarrow> bool" where
  "mp_represents b lo P \<longleftrightarrow> wf_mp b \<and> 0 \<le> lo \<and> {0..<lo} \<subseteq> P \<and> P \<subseteq> {0..<lo + mp_size b}
     \<and> (\<forall>s. lo \<le> s \<and> s < lo + mp_size b \<longrightarrow> mp_available b s = (s \<in> P))"

lemma mp_barrier_new_wf:
  assumes "mp_barrier_new n = Inr b" "is_power_of_two n" "n < 2 ^ 63"
  shows "wf_mp b" "Suc (slot_mask b) = n" "mp_current b = NONE"
proof -
  from assms obtain k where k: "n = 2 ^ k" "64 \<le> n" by (auto simp: is_power_of_two_iff mp_barrier_new_def split: if_splits)
  then show "wf_mp b" "Suc (slot_mask b) = n" "mp_current b = NONE"
    using assms by (auto simp: mp_barrier_new_def wf_mp_def Let_def mp_current_def split: if_splits)
qed

lemma mp_barrier_new_represents:
  assumes "mp_barrier_new n = Inr b" "is_power_of_two n" "n < 2 ^ 63"
  shows "mp_represents b 0 {}"
proof -
  note new = mp_barrier_new_wf [OF assms]
  have "\<not> mp_available b s" if "0 \<le> s" "s < mp_size b" for s
  proof -
    have "slot_index b s div 64 < length (available b)" by (rule word_index_less [OF new(1)])
    moreover have "available b = map (\<lambda>_. NOT 0) [0..<length (available b)]"
      using assms(1) by (auto simp: mp_barrier_new_def Let_def split: if_splits)
    ultimately have "available b ! (slot_index b s div 64) = NOT 0"
      by (metis (no_types, lifting) length_map nth_map)
    then have "mp_bit (available b) (slot_index b s)"
      by (simp add: mp_bit_def bit_not_iff)
    with that show ?thesis by (simp add: mp_available_def mp_shown_def del: of_nat_Suc)
  qed
  with new(1) show ?thesis by (auto simp: mp_represents_def)
qed

lemma mp_available_publish:
  assumes "wf_mp b"
  shows "mp_available (mp_publish s b) t = (mp_available b t \<noteq> (t mod mp_size b = s mod mp_size b))"
proof -
  have "slot_index b t = slot_index b s \<longleftrightarrow> t mod mp_size b = s mod mp_size b"
    using assms by (simp add: slot_index_mod eq_nat_nat_iff del: of_nat_Suc)
  then show ?thesis
    using mp_bit_publish [OF assms slot_index_less [OF assms, of t], of s]
    by (auto simp: mp_available_def mp_shown_def)
qed

lemma mp_represents_publish:
  assumes "mp_represents b lo P" "lo \<le> s" "s < lo + mp_size b" "s \<notin> P"
  shows "mp_represents (mp_publish s b) lo (insert s P)"
proof -
  have "mp_available (mp_publish s b) t = (t \<in> insert s P)" if "lo \<le> t" "t < lo + mp_size b" for t
  proof -
    have "t mod mp_size b = s mod mp_size b \<longleftrightarrow> t = s"
      using that assms(2,3) mod_window_inj [of t "mp_size b" s] by auto
    then show ?thesis
      using assms that by (auto simp: mp_represents_def mp_available_publish)
  qed
  with assms show ?thesis by (auto simp: mp_represents_def)
qed

lemma mp_represents_advance:
  assumes rep: "mp_represents b lo P" and next_published: "lo \<in> P"
  shows "mp_represents b (lo + 1) P"
proof -
  have wf: "wf_mp b" using rep by (simp add: mp_represents_def)
  have lap: "mp_available b (lo + mp_size b) \<longleftrightarrow> lo \<notin> P"
    using rep mp_available_lap [OF wf, of lo] by (auto simp: mp_represents_def)
  have "mp_available b s = (s \<in> P)" if "lo + 1 \<le> s" "s < lo + 1 + mp_size b" for s
  proof (cases "s = lo + mp_size b")
    case True
    then show ?thesis using lap next_published rep by (auto simp: mp_represents_def)
  next
    case False
    then show ?thesis using that rep by (auto simp: mp_represents_def)
  qed
  moreover have "{0..<lo + 1} \<subseteq> P"
  proof
    fix s assume "s \<in> {0..<lo + 1}"
    then show "s \<in> P" using rep next_published by (cases "s = lo") (auto simp: mp_represents_def)
  qed
  ultimately show ?thesis using rep by (auto simp: mp_represents_def)
qed

lemma mp_represents_advance_to:
  assumes "mp_represents b lo P" "{lo..<lo'} \<subseteq> P" "lo \<le> lo'"
  shows "mp_represents b lo' P"
proof -
  have "{lo..<lo + int d} \<subseteq> P \<Longrightarrow> mp_represents b (lo + int d) P" for d
  proof (induction d)
    case (Suc d)
    then have "{lo..<lo + int d} \<subseteq> P" by (simp add: subset_iff)
    then have "mp_represents b (lo + int d) P" by (rule Suc.IH)
    moreover have "lo + int d \<in> P" using Suc.prems by (simp add: subset_iff)
    ultimately have "mp_represents b (lo + int d + 1) P" by (rule mp_represents_advance)
    then show ?case by (simp add: algebra_simps)
  qed (use assms(1) in simp)
  from this [of "nat (lo' - lo)"] assms(2,3) show ?thesis by simp
qed

lemma mp_represents_publish_list:
  assumes "mp_represents b lo P" "distinct ss" "set ss \<subseteq> {lo..<lo + mp_size b} - P"
  shows "mp_represents (fold mp_publish ss b) lo (P \<union> set ss)"
  using assms
proof (induction ss arbitrary: b P)
  case (Cons s ss)
  then have "mp_represents (mp_publish s b) lo (insert s P)"
    by (intro mp_represents_publish) auto
  with Cons.prems Cons.IH [of "mp_publish s b" "insert s P"] show ?case by auto
qed simp

lemma mp_represents_publish_range:
  assumes "mp_represents b lo P" "lo \<le> s" "0 \<le> n" "s + n \<le> lo + mp_size b" "{s..<s + n} \<inter> P = {}"
    and "s + n < 2 ^ 63"
  shows "mp_represents (publish_range_relaxed s n b) lo (P \<union> {s..<s + n})"
proof -
  have "0 \<le> s" "wf_mp b" using assms(1,2) by (auto simp: mp_represents_def)
  moreover have "set [s..s + n - 1] = {s..<s + n}" by auto
  moreover have "{s..<s + n} \<subseteq> {lo..<lo + mp_size b} - P" using assms(2,4,5) by auto
  ultimately show ?thesis
    using mp_represents_publish_list [OF assms(1), of "[s..s + n - 1]"] assms(3,6)
    by (simp add: publish_range_relaxed_fold)
qed

lemma mp_represents_cursor [simp]: "mp_represents (b\<lparr>mp_cursor := c\<rparr>) lo P = mp_represents b lo P"
  by (simp add: mp_represents_def wf_mp_def mp_available_def mp_shown_def slot_index_def)

lemma publish_list_keeps [simp]:
  "mp_current (fold mp_publish ss b) = mp_current b" "slot_mask (fold mp_publish ss b) = slot_mask b"
  by (induction ss arbitrary: b) (simp_all add: mp_current_def)

section \<open>Properties\<close>

definition ex_mp :: mp_barrier where
  "ex_mp = \<lparr>mp_cursor = cursor_new (-1), available = [NOT 0], slot_mask = 63, index_shift = 6\<rparr>"

lemma power_of_two_64: "is_power_of_two 64"
proof -
  have "(64::nat) = 2 ^ 6" by simp
  then show ?thesis unfolding is_power_of_two_iff by blast
qed

lemma ilog2_64: "ilog2 64 = 6"
  using ilog2_exp [of 6] by simp

lemma ex_mp_new: "mp_barrier_new 64 = Inr ex_mp"
  by (simp add: mp_barrier_new_def ex_mp_def NONE_def ilog2_64)

lemmas ex_mp_facts = mp_barrier_new_wf [OF ex_mp_new power_of_two_64, simplified]
  mp_barrier_new_represents [OF ex_mp_new power_of_two_64, simplified]

text \<open>
  C24. Publishing a batch word by word, with one \<open>fetch_xor\<close> per word for all its slots, leaves the
  bitfield exactly as publishing its sequences one after the other does, for every start, length and
  number of words and laps crossed.
\<close>

theorem mp_publish_range_is_publish_each:
  assumes "wf_mp b" "0 \<le> lo" "0 \<le> n" "lo + n < 2 ^ 63"
  shows "publish_range_relaxed lo n b = fold mp_publish [lo..lo + n - 1] b"
  using assms by (rule publish_range_relaxed_fold)

theorem mp_publish_range_is_publish_each_witness:
  "publish_range_relaxed 50 50 ex_mp = fold mp_publish [50..50 + 50 - 1] ex_mp"
  by (rule mp_publish_range_is_publish_each) (simp_all add: ex_mp_facts)

text \<open>\<open>sequence_of_bit\<close> reads the indices backwards: the sequence of a bit in a given round.\<close>

definition sequence_of_bit :: "mp_barrier \<Rightarrow> int \<Rightarrow> nat \<times> nat \<Rightarrow> sequence" where
  "sequence_of_bit b r = (\<lambda>(w, i). r * mp_size b + (64 * int w + int i))"

lemma wf_mp_words:
  assumes "wf_mp b"
  shows "mp_size b = 64 * int (length (available b))"
proof -
  from assms obtain k where k: "6 \<le> k" "Suc (slot_mask b) = 2 ^ k" by (rule wf_mp_exp)
  from le_imp_power_dvd [OF k(1), of "2::nat"] have "64 dvd Suc (slot_mask b)" using k(2) by simp
  moreover have "length (available b) = Suc (slot_mask b) div 64" using assms by (simp add: wf_mp_def)
  ultimately have "Suc (slot_mask b) = 64 * length (available b)" by (simp only: dvd_mult_div_cancel)
  then show ?thesis by (metis of_nat_mult of_nat_numeral)
qed

text \<open>
  C31. The word index, the bit index and the round address a sequence exactly: the unchecked access to
  the words is in bounds, the sequence can be read back from the three, every bit of the field is
  the bit of one sequence per round, and the flag is the parity of that round.
\<close>

theorem availability_indices_roundtrip:
  assumes "wf_mp b"
  shows "(case calculate_availability_indices b s of (w, i) \<Rightarrow> w < length (available b) \<and> i < 64)
    \<and> sequence_of_bit b (s div mp_size b) (calculate_availability_indices b s) = s
    \<and> (\<forall>w < length (available b). \<forall>i < 64. \<forall>r.
        calculate_availability_indices b (sequence_of_bit b r (w, i)) = (w, i)
        \<and> sequence_of_bit b r (w, i) div mp_size b = r
        \<and> calculate_availability_flag b (sequence_of_bit b r (w, i)) = of_bool (odd r))"
proof (intro conjI allI impI)
  have N: "0 < mp_size b" by simp
  show "case calculate_availability_indices b s of (w, i) \<Rightarrow> w < length (available b) \<and> i < 64"
    by (simp add: indices_eq word_index_less [OF assms])
  have "int (slot_index b s) = s mod mp_size b" by (simp add: slot_index_mod [OF assms] del: of_nat_Suc)
  moreover have "64 * int (slot_index b s div 64) + int (slot_index b s mod 64) = int (slot_index b s)"
    unfolding of_nat_div of_nat_mod of_nat_numeral by (rule mult_div_mod_eq)
  moreover have "s div mp_size b * mp_size b + s mod mp_size b = s" by (rule div_mult_mod_eq)
  ultimately show "sequence_of_bit b (s div mp_size b) (calculate_availability_indices b s) = s"
    unfolding sequence_of_bit_def indices_eq prod.case by linarith
  fix w i :: nat and r :: int
  assume w: "w < length (available b)" "i < 64"
  then have "64 * int w + int i < mp_size b" unfolding wf_mp_words [OF assms] by simp
  then have s: "sequence_of_bit b r (w, i) mod mp_size b = 64 * int w + int i" "sequence_of_bit b r (w, i) div mp_size b = r"
    unfolding sequence_of_bit_def prod.case
    by (simp_all only: mod_mult_self3 mod_pos_pos_trivial div_mult_self3 div_pos_pos_trivial)
  have "slot_index b (sequence_of_bit b r (w, i)) = nat (64 * int w + int i)"
    unfolding slot_index_mod [OF assms] s(1) ..
  also have "\<dots> = 64 * w + i" by (simp add: nat_add_distrib nat_mult_distrib)
  finally show "calculate_availability_indices b (sequence_of_bit b r (w, i)) = (w, i)"
    using w(2) by (simp add: indices_eq)
  show "sequence_of_bit b r (w, i) div mp_size b = r" by (rule s(2))
  show "calculate_availability_flag b (sequence_of_bit b r (w, i)) = of_bool (odd r)"
    unfolding flag_eq [OF assms] s(2) ..
qed

theorem availability_indices_roundtrip_witness:
  "calculate_availability_indices ex_mp (sequence_of_bit ex_mp 3 (0, 5)) = (0, 5) \<and> sequence_of_bit ex_mp 3 (0, 5) = 197"
proof
  have "(0::nat) < length (available ex_mp)" "(5::nat) < 64" by (simp_all add: ex_mp_def)
  with availability_indices_roundtrip [OF ex_mp_facts(1)]
  show "calculate_availability_indices ex_mp (sequence_of_bit ex_mp 3 (0, 5)) = (0, 5)" by blast
qed (simp add: sequence_of_bit_def ex_mp_def)

text \<open>
  The scan of \<open>get_after\<close> always ends, within one lap, and returns the sequence before the
  first one that is not available: all sequences from \<open>prev\<close> up to it are, the next is not.
\<close>

theorem mp_get_after_first_hole:
  assumes "wf_mp b" "-1 \<le> prev" "prev + mp_size b < 2 ^ 63"
  shows "\<exists>r. mp_get_after b prev = Some r \<and> prev - 1 \<le> r \<and> r < prev + mp_size b
    \<and> (\<forall>s. prev \<le> s \<and> s \<le> r \<longrightarrow> mp_available b s) \<and> \<not> mp_available b (r + 1)"
  by (rule mp_get_after_exact [OF assms]) blast

theorem mp_get_after_first_hole_witness:
  "\<exists>r. mp_get_after ex_mp 5 = Some r \<and> 4 \<le> r \<and> r < 5 + mp_size ex_mp
    \<and> (\<forall>s. 5 \<le> s \<and> s \<le> r \<longrightarrow> mp_available ex_mp s) \<and> \<not> mp_available ex_mp (r + 1)"
  using mp_get_after_first_hole [OF ex_mp_facts(1), of 5] by (simp add: ex_mp_def)

text \<open>
  C8. While the bits stand for the published set, a consumer that has seen everything below \<open>prev\<close>
  gets from \<open>get_after\<close> exactly the published sequences without a gap: those up to the result are
  published, the one after it is not. So an event published out of order stays hidden until
  everything before it is published too.
\<close>

theorem mp_get_after_contiguous:
  assumes "mp_represents b lo P" "lo \<le> prev" "{lo..<prev} \<subseteq> P" "prev + mp_size b < 2 ^ 63"
  shows "\<exists>r. mp_get_after b prev = Some r \<and> prev - 1 \<le> r
    \<and> (\<forall>s. prev \<le> s \<and> s \<le> r \<longrightarrow> s \<in> P) \<and> r + 1 \<notin> P"
proof -
  have rep: "mp_represents b prev P" using assms(1,3,2) by (rule mp_represents_advance_to)
  then have wf: "wf_mp b" and "0 \<le> prev" by (simp_all add: mp_represents_def)
  obtain r where r: "mp_get_after b prev = Some r" "prev - 1 \<le> r" "r < prev + mp_size b"
    "\<forall>s. prev \<le> s \<and> s \<le> r \<longrightarrow> mp_available b s" "\<not> mp_available b (r + 1)"
    using wf \<open>0 \<le> prev\<close> assms(4) by (elim mp_get_after_exact [of b prev]) simp_all
  have "s \<in> P" if "prev \<le> s" "s \<le> r" for s
    using rep r(3,4) that by (auto simp: mp_represents_def)
  moreover have "r + 1 \<notin> P"
    using rep r(2,3,5) by (cases "r + 1 < prev + mp_size b") (auto simp: mp_represents_def)
  ultimately show ?thesis using r(1,2) by blast
qed

theorem mp_get_after_contiguous_witness:
  "mp_get_after (fold mp_publish [1, 0, 3] ex_mp) 0 = Some 1"
proof -
  have "mp_represents (fold mp_publish [1, 0, 3] ex_mp) 0 ({} \<union> set [1, 0, 3])"
    by (rule mp_represents_publish_list [OF ex_mp_facts(4)]) (auto simp: ex_mp_def)
  from mp_get_after_contiguous [OF this, of 0] obtain r
    where r: "mp_get_after (fold mp_publish [1, 0, 3] ex_mp) 0 = Some r" "-1 \<le> r"
      "\<forall>s. 0 \<le> s \<and> s \<le> r \<longrightarrow> s \<in> {1, 0, 3}" "r + 1 \<notin> {1, 0, 3}"
    by (auto simp: ex_mp_def)
  have "\<not> 2 \<le> r" using r(3) [rule_format, of 2] by auto
  then have "r = 1" using r(2,4) by auto
  with r(1) show ?thesis by simp
qed

text \<open>
  C28. Publishing a claimed batch adds exactly its sequences to the set the bits stand for, whatever
  was published before and in whatever order, as long as none of it is published already and all of
  it is less than a lap ahead of the slowest consumer.
\<close>

theorem mp_publish_range_represents:
  assumes "mp_represents b lo P" "lo \<le> s" "0 \<le> n" "s + n \<le> lo + mp_size b" "{s..<s + n} \<inter> P = {}"
    and "s + n < 2 ^ 63"
  shows "mp_represents (publish_range_relaxed s n b) lo (P \<union> {s..<s + n})"
  using assms by (rule mp_represents_publish_range)

theorem mp_publish_range_represents_witness:
  "mp_represents (publish_range_relaxed 3 40 ex_mp) 0 ({} \<union> {3..<3 + 40})"
  by (rule mp_publish_range_represents [OF ex_mp_facts(4)]) (simp_all add: ex_mp_def)

text \<open>
  C25. The scan is sound under interference. Its loads happen at different times, and producers
  publish in between; \<open>Pt t\<close> is what is published at the \<open>t\<close>-th load. The scan still ends, every
  sequence it reports was published at one of its loads, and it reports at least what was
  published without a gap when it started.
\<close>

theorem mp_get_after_under_interference:
  assumes "\<forall>t. mp_represents (b\<lparr>available := loads t\<rparr>) prev (Pt t)" "\<forall>t. Pt 0 \<subseteq> Pt t"
    and "loads 0 = available b" "prev + mp_size b < 2 ^ 63"
  shows "\<exists>r. mp_get_after_loads b loads prev = Some r \<and> prev - 1 \<le> r
    \<and> (\<forall>s. prev \<le> s \<and> s \<le> r \<longrightarrow> (\<exists>t. s \<in> Pt t)) \<and> (\<forall>q. {prev..q} \<subseteq> Pt 0 \<longrightarrow> q \<le> r)"
proof -
  have rep: "mp_represents (b\<lparr>available := loads t\<rparr>) prev (Pt t)" for t using assms(1) by blast
  have wf: "wf_mp b" and prev: "0 \<le> prev"
    using rep [of 0] assms(3) by (auto simp: mp_represents_def)
  have shown: "mp_shown b (loads t) s \<longleftrightarrow> s \<in> Pt t" if "prev \<le> s" "s < prev + mp_size b" for s t
    using rep [of t] that
    by (auto simp: mp_represents_def mp_available_def mp_shown_def slot_index_def)
  show ?thesis
  proof (cases "prev \<in> Pt 0")
    case False
    then have "\<not> mp_shown b (loads 0) prev" using shown [of prev 0] by simp
    then have "mp_get_after_loads b loads prev = Some (prev - 1)"
      using wf prev assms(4) by (intro mp_get_after_blocked) auto
    moreover have "q \<le> prev - 1" if "{prev..q} \<subseteq> Pt 0" for q
    proof (rule ccontr)
      assume "\<not> q \<le> prev - 1"
      then have "prev \<in> {prev..q}" by simp
      with that False show False by blast
    qed
    ultimately show ?thesis by (intro exI [of _ "prev - 1"]) auto
  next
    case True
    have top: "\<not> mp_shown b (loads t) (prev + mp_size b)" for t
      using mp_available_lap [of "b\<lparr>available := loads t\<rparr>" prev] True assms(2) rep [of t]
      by (auto simp: mp_represents_def mp_available_def mp_shown_def slot_index_def)
    let ?S = "{s. prev \<le> s \<and> s < prev + mp_size b \<and> (\<exists>t. s \<in> Pt t)}"
    have "\<forall>t s. prev \<le> s \<and> s \<le> prev + mp_size b \<and> mp_shown b (loads t) s \<longrightarrow> s \<in> ?S"
    proof (intro allI impI)
      fix t s assume s: "prev \<le> s \<and> s \<le> prev + mp_size b \<and> mp_shown b (loads t) s"
      then have "s \<noteq> prev + mp_size b" using top by auto
      with s shown [of s t] show "s \<in> ?S" by auto
    qed
    from mp_get_after_interfered [OF wf this] prev assms(4) obtain r
      where r: "mp_get_after_loads b loads prev = Some r" "prev - 1 \<le> r" "r < prev + mp_size b"
        "\<forall>s. prev \<le> s \<and> s \<le> r \<longrightarrow> s \<in> ?S"
        "\<forall>q. (\<forall>s t. prev \<le> s \<and> s \<le> q \<longrightarrow> mp_shown b (loads t) s) \<longrightarrow> q \<le> r" by auto
    have "q \<le> r" if q: "{prev..q} \<subseteq> Pt 0" for q
    proof (rule r(5) [rule_format])
      fix s t assume s: "prev \<le> s \<and> s \<le> q"
      then have "s \<in> Pt 0" using q by auto
      then have "s \<in> Pt t" "s < prev + mp_size b"
        using assms(2) rep [of 0] by (auto simp: mp_represents_def)
      then show "mp_shown b (loads t) s" using s shown by simp
    qed
    with r(1,2,4) show ?thesis by auto
  qed
qed

theorem mp_get_after_under_interference_witness:
  "\<exists>r. mp_get_after_loads (fold mp_publish [0] ex_mp)
      (\<lambda>t. available (fold mp_publish (if t = 0 then [0] else [0, 1]) ex_mp)) 0 = Some r
    \<and> 0 \<le> r \<and> (\<forall>s. 0 \<le> s \<and> s \<le> r \<longrightarrow> s = 0 \<or> s = 1)"
proof -
  let ?loads = "\<lambda>t::nat. available (fold mp_publish (if t = 0 then [0] else [0, 1]) ex_mp)"
  let ?Pt = "\<lambda>t::nat. {} \<union> set (if t = 0 then [0] else [0, 1]) :: int set"
  have rep: "mp_represents (fold mp_publish ss ex_mp) 0 ({} \<union> set ss)" if "ss = [0] \<or> ss = [0, 1]" for ss
    using that by (intro mp_represents_publish_list [OF ex_mp_facts(4)]) (auto simp: ex_mp_def)
  have same: "(mp_publish 0 ex_mp)\<lparr>available := available (mp_publish s (mp_publish 0 ex_mp))\<rparr>
      = mp_publish s (mp_publish 0 ex_mp)" for s
    by (simp add: mp_publish_def fetch_xor_def split_def Let_def)
  have "\<forall>t. mp_represents ((fold mp_publish [0] ex_mp)\<lparr>available := ?loads t\<rparr>) 0 (?Pt t)"
    using rep [of "[0]"] rep [of "[0, 1]"] by (auto simp: same)
  moreover have "\<forall>t. ?Pt 0 \<subseteq> ?Pt t" by simp
  moreover have "?loads 0 = available (fold mp_publish [0] ex_mp)" by simp
  moreover have "0 + mp_size (fold mp_publish [0] ex_mp) < 2 ^ 63" by (simp add: ex_mp_def)
  ultimately have "\<exists>r. mp_get_after_loads (fold mp_publish [0] ex_mp) ?loads 0 = Some r \<and> 0 - 1 \<le> r
     \<and> (\<forall>s. 0 \<le> s \<and> s \<le> r \<longrightarrow> (\<exists>t. s \<in> ?Pt t)) \<and> (\<forall>q. {0..q} \<subseteq> ?Pt 0 \<longrightarrow> q \<le> r)"
    by (rule mp_get_after_under_interference [where Pt = ?Pt])
  then obtain r
    where r: "mp_get_after_loads (fold mp_publish [0] ex_mp) ?loads 0 = Some r"
      "\<forall>s. 0 \<le> s \<and> s \<le> r \<longrightarrow> (\<exists>t. s \<in> ?Pt t)" "\<forall>q. {0..q} \<subseteq> ?Pt 0 \<longrightarrow> q \<le> r"
    by blast
  have "s = 0 \<or> s = 1" if "0 \<le> s" "s \<le> r" for s
    using r(2) that by (auto split: if_split_asm)
  with r(1) r(3) [rule_format, of 0] show ?thesis by auto
qed

end
