(* ===== verification/Multi_Producer.thy ===== *)
theory Multi_Producer
  imports Producer_Common Multi_Barrier
begin

text \<open>
  The cloneable producer (\<open>MultiProducer\<close> in \<open>src/producer/multi.rs\<close>): the claim loop on the
  shared cursor, publication through the availability bits, and the counted life of the clones. The
  lemmas show that a claim is exclusive and never reaches a slot a consumer has not passed, whatever
  the other producers and the consumers do between its steps; that it fails to end only if other
  claims keep succeeding; and that exactly the last drop shuts the disruptor down.

  What the handles share through their \<open>Arc\<close>s is one record; a handle is its own fields. An
  operation takes its atomic steps at times \<open>t, t + 1, ...\<close>; \<open>env t\<close> is what all other threads do
  to the shared record just before step \<open>t\<close>. With \<open>env = (\<lambda>_ s. s)\<close> nothing interferes.
\<close>

section \<open>State\<close>

record ('e, 'm) mp_shared =
  shutdown_at_sequence :: sequence
  ring_buffer :: "'e ring_buffer"
  producer_barrier :: mp_barrier
  consumers :: 'm
  consumer_handles :: "consumer_handle list"
  live_count :: int

record 'c multi_producer =
  consumer_barrier :: 'c
  claimed_sequence :: sequence
  sequence_clear_of_consumers :: sequence

type_synonym ('e, 'm) interference = "nat \<Rightarrow> ('e, 'm) mp_shared \<Rightarrow> ('e, 'm) mp_shared"

text \<open>
  \<open>MultiProducer::new\<close>: the shared record the first handle creates, over the memory \<open>m\<close> of the
  consumers, and the handle.
\<close>

definition multi_producer_new :: "sequence \<Rightarrow> 'e ring_buffer \<Rightarrow> mp_barrier \<Rightarrow> consumer_handle list
    \<Rightarrow> 'c \<Rightarrow> 'm \<Rightarrow> 'c multi_producer \<times> ('e, 'm) mp_shared" where
  "multi_producer_new shutdown rb b handles cb m =
     (\<lparr>consumer_barrier = cb, claimed_sequence = NONE,
       sequence_clear_of_consumers = i64 (ring_size rb - 1)\<rparr>,
      \<lparr>shutdown_at_sequence = shutdown, ring_buffer = rb, producer_barrier = b, consumers = m,
       consumer_handles = handles, live_count = 1\<rparr>)"

section \<open>Claiming\<close>

text \<open>
  The first half of a round of the claim loop: the fullness check against the slowest consumer,
  skipped while the cached bound covers the claim.
\<close>

definition mp_check_room :: "('c \<Rightarrow> 'm \<Rightarrow> sequence \<Rightarrow> sequence) \<Rightarrow> int \<Rightarrow> sequence \<Rightarrow> sequence
    \<Rightarrow> ('e, 'm) mp_shared \<Rightarrow> 'c multi_producer \<Rightarrow> missing_free_slots + 'c multi_producer" where
  "mp_check_room get_after n cur n_next \<sigma> p =
     (if sequence_clear_of_consumers p < n_next
      then let rear_sequence_read = get_after (consumer_barrier p) (consumers \<sigma>) cur;
               free = free_slots (ring_buffer \<sigma>) cur rear_sequence_read
           in if free < n then Inl (EMissingFreeSlots (u64 (i64 (n - free))))
              else Inr (p\<lparr>sequence_clear_of_consumers := i64 (cur + free)\<rparr>)
      else Inr p)"

text \<open>The loop. \<open>None\<close> is a claim that never ends.\<close>

partial_function (option) mp_claim_loop :: "('c \<Rightarrow> 'm \<Rightarrow> sequence \<Rightarrow> sequence) \<Rightarrow> ('e, 'm) interference
    \<Rightarrow> nat \<Rightarrow> int \<Rightarrow> sequence \<Rightarrow> 'c multi_producer \<Rightarrow> ('e, 'm) mp_shared
    \<Rightarrow> ((missing_free_slots + sequence) \<times> 'c multi_producer \<times> ('e, 'm) mp_shared \<times> nat) option" where
  "mp_claim_loop get_after env t n cur p \<sigma> =
     (let n_next = i64 (cur + n); \<sigma>1 = env t \<sigma>
      in case mp_check_room get_after n cur n_next \<sigma>1 p of
           Inl e \<Rightarrow> Some (Inl e, p, \<sigma>1, t + 1)
         | Inr p1 \<Rightarrow>
             (let \<sigma>2 = env (t + 1) \<sigma>1
              in case mp_compare_exchange cur n_next (producer_barrier \<sigma>2) of
                   (Inr _, b) \<Rightarrow> Some (Inr n_next, p1\<lparr>claimed_sequence := n_next\<rparr>,
                                    \<sigma>2\<lparr>producer_barrier := b\<rparr>, t + 2)
                 | (Inl new_cur, b) \<Rightarrow>
                     mp_claim_loop get_after env (t + 2) n new_cur p1 (\<sigma>2\<lparr>producer_barrier := b\<rparr>)))"

definition mp_next_sequences :: "('c \<Rightarrow> 'm \<Rightarrow> sequence \<Rightarrow> sequence) \<Rightarrow> ('e, 'm) interference \<Rightarrow> nat
    \<Rightarrow> nat \<Rightarrow> 'c multi_producer \<Rightarrow> ('e, 'm) mp_shared
    \<Rightarrow> ((missing_free_slots + sequence) \<times> 'c multi_producer \<times> ('e, 'm) mp_shared \<times> nat) option" where
  "mp_next_sequences get_after env t count p \<sigma> =
     (let n = i64 (int count); \<sigma>1 = env t \<sigma>; cur = mp_current (producer_barrier \<sigma>1)
      in mp_claim_loop get_after env (t + 1) n cur p \<sigma>1)"

text \<open>\<open>while self.next_sequences(n).is_err() {}\<close>\<close>

partial_function (option) mp_spin :: "('c \<Rightarrow> 'm \<Rightarrow> sequence \<Rightarrow> sequence) \<Rightarrow> ('e, 'm) interference \<Rightarrow> nat
    \<Rightarrow> nat \<Rightarrow> 'c multi_producer \<Rightarrow> ('e, 'm) mp_shared
    \<Rightarrow> ('c multi_producer \<times> ('e, 'm) mp_shared \<times> nat) option" where
  "mp_spin get_after env t n p \<sigma> =
     Option.bind (mp_next_sequences get_after env t n p \<sigma>)
       (\<lambda>(r, p', \<sigma>', t'). case r of
          Inl e \<Rightarrow> mp_spin get_after env t' n p' \<sigma>'
        | Inr s \<Rightarrow> Some (p', \<sigma>', t'))"

section \<open>Publishing\<close>

definition mp_apply_update :: "('e, 'm) interference \<Rightarrow> nat \<Rightarrow> ('e \<Rightarrow> 'e) \<Rightarrow> 'c multi_producer
    \<Rightarrow> ('e, 'm) mp_shared \<Rightarrow> sequence \<times> ('e, 'm) mp_shared" where
  "mp_apply_update env t update p \<sigma> =
     (let s = claimed_sequence p;
          \<sigma>1 = env t \<sigma>;
          event_ptr = ring_get (ring_buffer \<sigma>1) s;
          \<sigma>2 = env (t + 1) (\<sigma>1\<lparr>ring_buffer := update_at (ring_buffer \<sigma>1) event_ptr update\<rparr>)
      in (s, \<sigma>2\<lparr>producer_barrier := mp_publish s (producer_barrier \<sigma>2)\<rparr>))"

text \<open>
  The closure's writes to the claimed slots are one step, and so are the flips of
  \<open>publish_range_relaxed\<close>; a scan that sees only some of the flips is the subject of
  \<open>mp_get_after_under_interference\<close>.
\<close>

definition mp_apply_updates :: "('e, 'm) interference \<Rightarrow> nat \<Rightarrow> nat \<Rightarrow> ('e \<Rightarrow> 'e) list
    \<Rightarrow> 'c multi_producer \<Rightarrow> ('e, 'm) mp_shared \<Rightarrow> sequence \<times> ('e, 'm) mp_shared" where
  "mp_apply_updates env t count updates p \<sigma> =
     (let n = i64 (int count);
          upper = claimed_sequence p;
          lower = i64 (i64 (upper - n) + 1);
          \<sigma>1 = env t \<sigma>;
          iter = batch_iter_new lower upper;
          \<sigma>2 = env (t + 1) (\<sigma>1\<lparr>ring_buffer := fst (run_updates updates (ring_buffer \<sigma>1) iter)\<rparr>)
      in (upper, \<sigma>2\<lparr>producer_barrier := publish_range_relaxed lower n (producer_barrier \<sigma>2)\<rparr>))"

definition mp_try_publish :: "('c \<Rightarrow> 'm \<Rightarrow> sequence \<Rightarrow> sequence) \<Rightarrow> ('e, 'm) interference \<Rightarrow> ('e \<Rightarrow> 'e)
    \<Rightarrow> 'c multi_producer \<Rightarrow> ('e, 'm) mp_shared
    \<Rightarrow> ((ring_buffer_full + sequence) \<times> 'c multi_producer \<times> ('e, 'm) mp_shared) option" where
  "mp_try_publish get_after env update p \<sigma> =
     Option.bind (mp_next_sequences get_after env 0 1 p \<sigma>)
       (\<lambda>(r, p', \<sigma>', t). case r of
          Inl _ \<Rightarrow> Some (Inl ERingBufferFull, p', \<sigma>')
        | Inr _ \<Rightarrow> (let (s, \<sigma>'') = mp_apply_update env t update p' \<sigma>' in Some (Inr s, p', \<sigma>'')))"

definition mp_publish_event :: "('c \<Rightarrow> 'm \<Rightarrow> sequence \<Rightarrow> sequence) \<Rightarrow> ('e, 'm) interference \<Rightarrow> ('e \<Rightarrow> 'e)
    \<Rightarrow> 'c multi_producer \<Rightarrow> ('e, 'm) mp_shared
    \<Rightarrow> ('c multi_producer \<times> ('e, 'm) mp_shared) option" where
  "mp_publish_event get_after env update p \<sigma> =
     Option.bind (mp_spin get_after env 0 1 p \<sigma>)
       (\<lambda>(p', \<sigma>', t). Some (p', snd (mp_apply_update env t update p' \<sigma>')))"

definition mp_try_batch_publish :: "('c \<Rightarrow> 'm \<Rightarrow> sequence \<Rightarrow> sequence) \<Rightarrow> ('e, 'm) interference \<Rightarrow> nat
    \<Rightarrow> ('e \<Rightarrow> 'e) list \<Rightarrow> 'c multi_producer \<Rightarrow> ('e, 'm) mp_shared
    \<Rightarrow> ((missing_free_slots + sequence) \<times> 'c multi_producer \<times> ('e, 'm) mp_shared) option" where
  "mp_try_batch_publish get_after env n updates p \<sigma> =
     Option.bind (mp_next_sequences get_after env 0 n p \<sigma>)
       (\<lambda>(r, p', \<sigma>', t). case r of
          Inl e \<Rightarrow> Some (Inl e, p', \<sigma>')
        | Inr _ \<Rightarrow> (let (s, \<sigma>'') = mp_apply_updates env t n updates p' \<sigma>' in Some (Inr s, p', \<sigma>'')))"

definition mp_batch_publish :: "('c \<Rightarrow> 'm \<Rightarrow> sequence \<Rightarrow> sequence) \<Rightarrow> ('e, 'm) interference \<Rightarrow> nat
    \<Rightarrow> ('e \<Rightarrow> 'e) list \<Rightarrow> 'c multi_producer \<Rightarrow> ('e, 'm) mp_shared
    \<Rightarrow> ('c multi_producer \<times> ('e, 'm) mp_shared) option" where
  "mp_batch_publish get_after env n updates p \<sigma> =
     Option.bind (mp_spin get_after env 0 n p \<sigma>)
       (\<lambda>(p', \<sigma>', t). Some (p', snd (mp_apply_updates env t n updates p' \<sigma>')))"

section \<open>Clone and drop\<close>

text \<open>
  Both hold the mutex for their whole body, so each is one step. \<open>None\<close> is \<open>process::abort\<close>.
\<close>

definition mp_clone :: "'c multi_producer \<Rightarrow> ('e, 'm) mp_shared
    \<Rightarrow> ('c multi_producer \<times> ('e, 'm) mp_shared) option" where
  "mp_clone p \<sigma> =
     (let count = live_count \<sigma>; \<sigma>1 = \<sigma>\<lparr>live_count := i64 (live_count \<sigma> + 1)\<rparr>
      in if count > i64_MAX div 2 then None
         else Some (\<lparr>consumer_barrier = consumer_barrier p, claimed_sequence = NONE,
                     sequence_clear_of_consumers = 0\<rparr>, \<sigma>1))"

definition mp_drop :: "('e, 'm) mp_shared \<Rightarrow> ('e, 'm) mp_shared fallible" where
  "mp_drop \<sigma> =
     (let old_count = live_count \<sigma>; \<sigma>1 = \<sigma>\<lparr>live_count := i64 (live_count \<sigma> - 1)\<rparr>
      in if old_count = 1
         then let s = i64 (mp_current (producer_barrier \<sigma>1) + 1);
                  \<sigma>2 = \<sigma>1\<lparr>shutdown_at_sequence := s\<rparr>
              in (case join_all (consumer_handles \<sigma>2) of
                    Inl panic \<Rightarrow> Inl panic
                  | Inr hs \<Rightarrow> Inr (\<sigma>2\<lparr>consumer_handles := hs\<rparr>))
         else Inr \<sigma>1)"

section \<open>Assumptions about the other threads\<close>

text \<open>
  \<open>rear m\<close> is the sequence the slowest consumer has finished with in the memory \<open>m\<close>. The shared
  record fits it when the claims are at most a lap ahead; the bound keeps every \<open>i64\<close> operation in
  range. Other threads keep this, and move the cursor and the consumers only forward; they may be
  known to keep more, the states \<open>I\<close>. A claim is itself such a step, so any number of producers may
  rely on each other.
\<close>

abbreviation mp_claimed :: "('e, 'm) mp_shared \<Rightarrow> sequence" where
  "mp_claimed \<sigma> \<equiv> mp_current (producer_barrier \<sigma>)"

abbreviation mp_capacity :: "('e, 'm) mp_shared \<Rightarrow> int" where
  "mp_capacity \<sigma> \<equiv> int (length (slots (ring_buffer \<sigma>)))"

definition mp_ok :: "('m \<Rightarrow> sequence) \<Rightarrow> ('e, 'm) mp_shared \<Rightarrow> bool" where
  "mp_ok rear \<sigma> \<longleftrightarrow> wf_ring (ring_buffer \<sigma>) \<and> -1 \<le> rear (consumers \<sigma>)
     \<and> rear (consumers \<sigma>) \<le> mp_claimed \<sigma> \<and> mp_claimed \<sigma> \<le> rear (consumers \<sigma>) + mp_capacity \<sigma>
     \<and> rear (consumers \<sigma>) + mp_capacity \<sigma> < 2 ^ 62"

definition mp_rely :: "('m \<Rightarrow> sequence) \<Rightarrow> ('e, 'm) mp_shared \<Rightarrow> ('e, 'm) mp_shared \<Rightarrow> bool" where
  "mp_rely rear \<sigma> \<sigma>' \<longleftrightarrow> mp_ok rear \<sigma>' \<and> mp_capacity \<sigma>' = mp_capacity \<sigma>
     \<and> rear (consumers \<sigma>) \<le> rear (consumers \<sigma>') \<and> mp_claimed \<sigma> \<le> mp_claimed \<sigma>'"

definition mp_env_ok :: "('m \<Rightarrow> sequence) \<Rightarrow> (('e, 'm) mp_shared \<Rightarrow> bool) \<Rightarrow> ('e, 'm) interference \<Rightarrow> bool" where
  "mp_env_ok rear I env \<longleftrightarrow>
     (\<forall>\<sigma>. I \<sigma> \<longrightarrow> mp_ok rear \<sigma> \<and> (\<forall>t. mp_rely rear \<sigma> (env t \<sigma>) \<and> I (env t \<sigma>)))"

text \<open>A handle's cached bound never promises more than the consumers have freed.\<close>

definition mp_handle_ok :: "('m \<Rightarrow> sequence) \<Rightarrow> ('e, 'm) mp_shared \<Rightarrow> 'c multi_producer \<Rightarrow> bool" where
  "mp_handle_ok rear \<sigma> p \<longleftrightarrow>
     sequence_clear_of_consumers p \<le> rear (consumers \<sigma>) + mp_capacity \<sigma>"

definition mp_sees :: "('c \<Rightarrow> 'm \<Rightarrow> sequence \<Rightarrow> sequence) \<Rightarrow> 'c \<Rightarrow> ('m \<Rightarrow> sequence) \<Rightarrow> bool" where
  "mp_sees get_after cb rear \<longleftrightarrow> (\<forall>m lb. get_after cb m lb = rear m)"

lemma mp_rely_refl: "mp_ok rear \<sigma> \<Longrightarrow> mp_rely rear \<sigma> \<sigma>"
  by (simp add: mp_rely_def)

lemma mp_rely_trans: "mp_rely rear \<sigma> \<sigma>' \<Longrightarrow> mp_rely rear \<sigma>' \<sigma>'' \<Longrightarrow> mp_rely rear \<sigma> \<sigma>''"
  by (auto simp: mp_rely_def)

lemma mp_rely_ok: "mp_rely rear \<sigma> \<sigma>' \<Longrightarrow> mp_ok rear \<sigma>'"
  by (simp add: mp_rely_def)

lemma mp_env_step: "mp_env_ok rear I env \<Longrightarrow> I \<sigma> \<Longrightarrow> mp_rely rear \<sigma> (env t \<sigma>)"
  by (simp add: mp_env_ok_def)

lemma mp_env_inv: "mp_env_ok rear I env \<Longrightarrow> I \<sigma> \<Longrightarrow> I (env t \<sigma>)"
  by (simp add: mp_env_ok_def)

lemma mp_env_start: "mp_env_ok rear I env \<Longrightarrow> I \<sigma> \<Longrightarrow> mp_ok rear \<sigma>"
  by (simp add: mp_env_ok_def)

lemma mp_handle_ok_rely: "mp_rely rear \<sigma> \<sigma>' \<Longrightarrow> mp_handle_ok rear \<sigma> p \<Longrightarrow> mp_handle_ok rear \<sigma>' p"
  by (auto simp: mp_rely_def mp_handle_ok_def)

lemma mp_quiet_ok: "mp_env_ok rear (mp_ok rear) (\<lambda>_ \<sigma>. \<sigma>)"
  by (simp add: mp_env_ok_def mp_rely_refl)

section \<open>The claim loop\<close>

lemma mp_check_room_eq:
  assumes ok: "mp_ok rear \<sigma>" and cur: "-1 \<le> cur" "cur \<le> mp_claimed \<sigma>" and n: "n < 2 ^ 62"
    and sees: "mp_sees get_after (consumer_barrier p) rear"
  shows "mp_check_room get_after (int n) cur (cur + int n) \<sigma> p =
    (if cur + int n \<le> sequence_clear_of_consumers p then Inr p
     else if cur + int n \<le> rear (consumers \<sigma>) + mp_capacity \<sigma>
     then Inr (p\<lparr>sequence_clear_of_consumers := rear (consumers \<sigma>) + mp_capacity \<sigma>\<rparr>)
     else Inl (EMissingFreeSlots (nat (cur + int n - rear (consumers \<sigma>) - mp_capacity \<sigma>))))"
proof -
  let ?free = "rear (consumers \<sigma>) - cur + mp_capacity \<sigma>"
  have n': "int n < 4611686018427387904" using n by simp
  have wraps: "free_slots (ring_buffer \<sigma>) cur (rear (consumers \<sigma>)) = ?free"
    "i64 (cur + ?free) = rear (consumers \<sigma>) + mp_capacity \<sigma>" "i64 (int n - ?free) = int n - ?free"
    using ok cur n' by (auto simp: mp_ok_def in_i64_iff no_wrap intro!: i64_id)
  have u: "u64 (int n - ?free) = nat (cur + int n - rear (consumers \<sigma>) - mp_capacity \<sigma>)"
    if "?free < int n"
  proof -
    have "u64 (int n - ?free) = nat (int n - ?free)"
      using that ok cur n' by (intro u64_nonneg) (auto simp: mp_ok_def)
    then show ?thesis by (simp add: algebra_simps)
  qed
  have "get_after (consumer_barrier p) (consumers \<sigma>) cur = rear (consumers \<sigma>)"
    using sees by (simp add: mp_sees_def)
  then show ?thesis
    using wraps u by (auto simp: mp_check_room_def Let_def)
qed

text \<open>The state after the successful compare-and-swap of a claim.\<close>

definition mp_moved :: "sequence \<Rightarrow> ('e, 'm) mp_shared \<Rightarrow> ('e, 'm) mp_shared" where
  "mp_moved s \<sigma> =
     \<sigma>\<lparr>producer_barrier := producer_barrier \<sigma>\<lparr>mp_cursor := cursor_store s (mp_cursor (producer_barrier \<sigma>))\<rparr>\<rparr>"

text \<open>What a finished claim of \<open>n\<close> slots, started in \<open>\<sigma>\<close>, has done.\<close>

definition mp_claim_done :: "('m \<Rightarrow> sequence) \<Rightarrow> (('e, 'm) mp_shared \<Rightarrow> bool) \<Rightarrow> nat \<Rightarrow> ('e, 'm) mp_shared \<Rightarrow> 'c multi_producer
    \<Rightarrow> (missing_free_slots + sequence) \<times> 'c multi_producer \<times> ('e, 'm) mp_shared \<times> nat \<Rightarrow> bool" where
  "mp_claim_done rear I n \<sigma> p r =
     (case r of
        (Inr s, p', \<sigma>', t') \<Rightarrow> claimed_sequence p' = s \<and> s \<le> rear (consumers \<sigma>') + mp_capacity \<sigma>'
          \<and> (\<exists>\<sigma>2. mp_rely rear \<sigma> \<sigma>2 \<and> mp_claimed \<sigma>2 = s - int n \<and> mp_rely rear \<sigma>2 \<sigma>'
              \<and> \<sigma>' = mp_moved s \<sigma>2)
          \<and> mp_handle_ok rear \<sigma>' p' \<and> consumer_barrier p' = consumer_barrier p
      | (Inl (EMissingFreeSlots k), p', \<sigma>', t') \<Rightarrow> mp_rely rear \<sigma> \<sigma>' \<and> I \<sigma>' \<and> 0 < k
          \<and> int k \<le> mp_claimed \<sigma>' + int n - (rear (consumers \<sigma>') + mp_capacity \<sigma>')
          \<and> mp_handle_ok rear \<sigma>' p' \<and> consumer_barrier p' = consumer_barrier p)"

lemma mp_claim_done_later:
  assumes "mp_rely rear \<sigma> \<sigma>'" "consumer_barrier p' = consumer_barrier p" "mp_claim_done rear I n \<sigma>' p' r"
  shows "mp_claim_done rear I n \<sigma> p r"
  using assms(2,3) mp_rely_trans [OF assms(1)]
  by (auto simp: mp_claim_done_def split: sum.splits missing_free_slots.splits) blast

lemma mp_check_room_keeps:
  "mp_check_room get_after n cur nxt \<sigma> p = Inr p' \<Longrightarrow>
   consumer_barrier p' = consumer_barrier p \<and> claimed_sequence p' = claimed_sequence p"
  by (auto simp: mp_check_room_def Let_def split: if_splits)

lemma mp_compare_exchange_Inr:
  "mp_compare_exchange cur nxt b = (Inr v, b') \<longleftrightarrow>
   v = cur \<and> mp_current b = cur \<and> b' = b\<lparr>mp_cursor := cursor_store nxt (mp_cursor b)\<rparr>"
  by (auto simp: mp_compare_exchange_def mp_current_def compare_exchange_Inr split_def
      compare_exchange_def relaxed_value_def cursor_store_def Let_def)

lemma mp_compare_exchange_Inl:
  "mp_compare_exchange cur nxt b = (Inl v, b') \<longleftrightarrow>
   v = mp_current b \<and> mp_current b \<noteq> cur \<and> b' = b"
  by (auto simp: mp_compare_exchange_def mp_current_def split_def
      compare_exchange_def relaxed_value_def Let_def)

lemma mp_moved_simps [simp]:
  "mp_claimed (mp_moved s \<sigma>) = s" "mp_capacity (mp_moved s \<sigma>) = mp_capacity \<sigma>"
  "ring_buffer (mp_moved s \<sigma>) = ring_buffer \<sigma>" "consumers (mp_moved s \<sigma>) = consumers \<sigma>"
  by (simp_all add: mp_moved_def mp_current_def)

lemma mp_rely_moved:
  "mp_ok rear \<sigma> \<Longrightarrow> mp_claimed \<sigma> \<le> s \<Longrightarrow> s \<le> rear (consumers \<sigma>) + mp_capacity \<sigma> \<Longrightarrow>
   mp_rely rear \<sigma> (mp_moved s \<sigma>)"
  by (auto simp: mp_rely_def mp_ok_def)

text \<open>One round of the loop: what its two steps find.\<close>

lemma mp_claim_round:
  fixes t :: nat
  assumes env: "mp_env_ok rear I env" and n: "n < 2 ^ 62" and I: "I \<sigma>"
    and hok: "mp_handle_ok rear \<sigma> p" and sees: "mp_sees get_after (consumer_barrier p) rear"
    and cur: "-1 \<le> cur" "cur \<le> mp_claimed \<sigma>"
  obtains p1 where
    "I (env (t + 1) (env t \<sigma>))" "mp_rely rear \<sigma> (env t \<sigma>)" "I (env t \<sigma>)" "mp_rely rear \<sigma> (env (t + 1) (env t \<sigma>))"
    "mp_handle_ok rear (env t \<sigma>) p" "mp_handle_ok rear (env (t + 1) (env t \<sigma>)) p1"
    "consumer_barrier p1 = consumer_barrier p" "i64 (cur + int n) = cur + int n"
    "mp_check_room get_after (int n) cur (cur + int n) (env t \<sigma>) p =
      (if sequence_clear_of_consumers p < cur + int n
          \<and> rear (consumers (env t \<sigma>)) + mp_capacity (env t \<sigma>) < cur + int n
       then Inl (EMissingFreeSlots (nat (cur + int n - rear (consumers (env t \<sigma>)) - mp_capacity (env t \<sigma>))))
       else Inr p1)"
    "sequence_clear_of_consumers p < cur + int n
      \<and> rear (consumers (env t \<sigma>)) + mp_capacity (env t \<sigma>) < cur + int n
     \<or> cur + int n \<le> rear (consumers (env (t + 1) (env t \<sigma>))) + mp_capacity (env (t + 1) (env t \<sigma>))"
    "mp_compare_exchange cur (cur + int n) (producer_barrier (env (t + 1) (env t \<sigma>))) =
      (if mp_claimed (env (t + 1) (env t \<sigma>)) = cur
       then (Inr cur, producer_barrier (mp_moved (cur + int n) (env (t + 1) (env t \<sigma>))))
       else (Inl (mp_claimed (env (t + 1) (env t \<sigma>))), producer_barrier (env (t + 1) (env t \<sigma>))))"
proof -
  let ?\<sigma>1 = "env t \<sigma>" and ?\<sigma>2 = "env (t + 1) (env t \<sigma>)"
  note ok = mp_env_start [OF env I]
  have rely1: "mp_rely rear \<sigma> ?\<sigma>1" by (rule mp_env_step [OF env I])
  have I1: "I ?\<sigma>1" by (rule mp_env_inv [OF env I])
  have step2: "mp_rely rear ?\<sigma>1 ?\<sigma>2" and I2: "I ?\<sigma>2"
    by (rule mp_env_step [OF env I1], rule mp_env_inv [OF env I1])
  have hok1: "mp_handle_ok rear ?\<sigma>1 p" using rely1 hok by (rule mp_handle_ok_rely)
  have cur1: "cur \<le> mp_claimed ?\<sigma>1" using rely1 cur by (simp add: mp_rely_def)
  define p1 where "p1 = (if cur + int n \<le> sequence_clear_of_consumers p then p
    else p\<lparr>sequence_clear_of_consumers := rear (consumers ?\<sigma>1) + mp_capacity ?\<sigma>1\<rparr>)"
  have "mp_handle_ok rear ?\<sigma>1 p1" using hok1 by (simp add: p1_def mp_handle_ok_def)
  then have hok2: "mp_handle_ok rear ?\<sigma>2 p1" using step2 by (blast intro: mp_handle_ok_rely)
  have next_seq: "i64 (cur + int n) = cur + int n"
  proof -
    have "int n < 4611686018427387904" using n by simp
    then show ?thesis using cur ok by (intro i64_id) (auto simp: in_i64_iff mp_ok_def)
  qed
  note room = mp_check_room_eq [OF mp_rely_ok [OF rely1] cur(1) cur1 n sees]
  have swap: "mp_compare_exchange cur (cur + int n) (producer_barrier ?\<sigma>2) =
      (if mp_claimed ?\<sigma>2 = cur then (Inr cur, producer_barrier (mp_moved (cur + int n) ?\<sigma>2))
       else (Inl (mp_claimed ?\<sigma>2), producer_barrier ?\<sigma>2))"
    using mp_compare_exchange_Inr [of cur "cur + int n" "producer_barrier ?\<sigma>2" cur]
      mp_compare_exchange_Inl [of cur "cur + int n" "producer_barrier ?\<sigma>2" "mp_claimed ?\<sigma>2"]
    by (simp add: mp_moved_def)
  have "sequence_clear_of_consumers p < cur + int n
      \<and> rear (consumers ?\<sigma>1) + mp_capacity ?\<sigma>1 < cur + int n
     \<or> cur + int n \<le> rear (consumers ?\<sigma>2) + mp_capacity ?\<sigma>2"
    using hok1 step2 by (auto simp: mp_handle_ok_def mp_rely_def)
  moreover have "mp_check_room get_after (int n) cur (cur + int n) ?\<sigma>1 p =
      (if sequence_clear_of_consumers p < cur + int n
          \<and> rear (consumers ?\<sigma>1) + mp_capacity ?\<sigma>1 < cur + int n
       then Inl (EMissingFreeSlots (nat (cur + int n - rear (consumers ?\<sigma>1) - mp_capacity ?\<sigma>1)))
       else Inr p1)"
    using room by (auto simp: p1_def)
  moreover have "consumer_barrier p1 = consumer_barrier p" by (simp add: p1_def)
  ultimately show thesis
    using that I1 I2 rely1 mp_rely_trans [OF rely1 step2] hok1 hok2 next_seq swap by blast
qed

lemma mp_moved_barrier: "\<sigma>\<lparr>producer_barrier := producer_barrier (mp_moved s \<sigma>)\<rparr> = mp_moved s \<sigma>"
  by (simp add: mp_moved_def)

lemma mp_claim_loop_sound:
  assumes env: "mp_env_ok rear I env" and n: "n < 2 ^ 62"
    and run: "mp_claim_loop get_after env t (int n) cur p \<sigma> = Some r"
    and ok: "I \<sigma>" "mp_handle_ok rear \<sigma> p" "mp_sees get_after (consumer_barrier p) rear"
      "-1 \<le> cur" "cur \<le> mp_claimed \<sigma>"
  shows "mp_claim_done rear I n \<sigma> p r"
proof -
  let ?P = "\<lambda>ga e t k cur p \<sigma> r. ga = get_after \<and> e = env \<and> k = int n \<longrightarrow>
      I \<sigma> \<longrightarrow> mp_handle_ok rear \<sigma> p \<longrightarrow> mp_sees get_after (consumer_barrier p) rear \<longrightarrow>
      -1 \<le> cur \<longrightarrow> cur \<le> mp_claimed \<sigma> \<longrightarrow> mp_claim_done rear I n \<sigma> p r"
  have "?P get_after env t (int n) cur p \<sigma> r"
  proof (rule mp_claim_loop.raw_induct [where P = ?P, OF _ run], goal_cases)
    case (1 loop ga e t k cur p \<sigma> r)
    show ?case
    proof (intro impI, elim conjE)
      assume ok: "I \<sigma>" and hok: "mp_handle_ok rear \<sigma> p"
        and sees: "mp_sees get_after (consumer_barrier p) rear" and cur: "-1 \<le> cur" "cur \<le> mp_claimed \<sigma>"
        and same: "ga = get_after" "e = env" "k = int n"
      obtain p1 where inv: "I (env (t + 1) (env t \<sigma>))"
        and rely: "mp_rely rear \<sigma> (env t \<sigma>)" "I (env t \<sigma>)" "mp_rely rear \<sigma> (env (t + 1) (env t \<sigma>))"
        and hoks: "mp_handle_ok rear (env t \<sigma>) p" "mp_handle_ok rear (env (t + 1) (env t \<sigma>)) p1"
        and p1: "consumer_barrier p1 = consumer_barrier p"
        and round: "i64 (cur + int n) = cur + int n"
          "mp_check_room get_after (int n) cur (cur + int n) (env t \<sigma>) p =
            (if sequence_clear_of_consumers p < cur + int n
                \<and> rear (consumers (env t \<sigma>)) + mp_capacity (env t \<sigma>) < cur + int n
             then Inl (EMissingFreeSlots (nat (cur + int n - rear (consumers (env t \<sigma>)) - mp_capacity (env t \<sigma>))))
             else Inr p1)"
          "mp_compare_exchange cur (cur + int n) (producer_barrier (env (t + 1) (env t \<sigma>))) =
            (if mp_claimed (env (t + 1) (env t \<sigma>)) = cur
             then (Inr cur, producer_barrier (mp_moved (cur + int n) (env (t + 1) (env t \<sigma>))))
             else (Inl (mp_claimed (env (t + 1) (env t \<sigma>))), producer_barrier (env (t + 1) (env t \<sigma>))))"
        and room: "sequence_clear_of_consumers p < cur + int n
            \<and> rear (consumers (env t \<sigma>)) + mp_capacity (env t \<sigma>) < cur + int n
          \<or> cur + int n \<le> rear (consumers (env (t + 1) (env t \<sigma>))) + mp_capacity (env (t + 1) (env t \<sigma>))"
        using env n ok hok sees cur by (rule mp_claim_round)
      let ?\<sigma>1 = "env t \<sigma>" and ?\<sigma>2 = "env (t + 1) (env t \<sigma>)"
      note body = 1(2) [unfolded same Let_def round]
      consider (full) "sequence_clear_of_consumers p < cur + int n"
          "rear (consumers ?\<sigma>1) + mp_capacity ?\<sigma>1 < cur + int n"
        | (won) "cur + int n \<le> rear (consumers ?\<sigma>2) + mp_capacity ?\<sigma>2" "mp_claimed ?\<sigma>2 = cur"
            "\<not> (sequence_clear_of_consumers p < cur + int n
              \<and> rear (consumers ?\<sigma>1) + mp_capacity ?\<sigma>1 < cur + int n)"
        | (lost) "mp_claimed ?\<sigma>2 \<noteq> cur" "\<not> (sequence_clear_of_consumers p < cur + int n
              \<and> rear (consumers ?\<sigma>1) + mp_capacity ?\<sigma>1 < cur + int n)"
        using room by blast
      then show "mp_claim_done rear I n \<sigma> p r"
      proof cases
        case full
        with body have "r = (Inl (EMissingFreeSlots (nat (cur + int n - rear (consumers ?\<sigma>1) - mp_capacity ?\<sigma>1))),
            p, ?\<sigma>1, t + 1)" by simp
        with full rely(1,2) hoks(1) cur show ?thesis
          by (auto simp: mp_claim_done_def mp_rely_def)
      next
        case won
        with body have r: "r = (Inr (cur + int n), p1\<lparr>claimed_sequence := cur + int n\<rparr>,
            mp_moved (cur + int n) ?\<sigma>2, t + 2)" by (simp add: mp_moved_barrier)
        have "mp_rely rear ?\<sigma>2 (mp_moved (cur + int n) ?\<sigma>2)"
          using won mp_rely_ok [OF rely(3)] by (intro mp_rely_moved) auto
        with won rely(3) hoks(2) p1 show ?thesis
          by (auto simp: r mp_claim_done_def mp_handle_ok_def intro!: exI [of _ ?\<sigma>2])
      next
        case lost
        with body have "loop get_after env (t + 2) (int n) (mp_claimed ?\<sigma>2) p1 ?\<sigma>2 = Some r" by simp
        from 1(1) [OF this] inv mp_rely_ok [OF rely(3)] hoks(2) sees p1
        have "mp_claim_done rear I n ?\<sigma>2 p1 r" by (simp add: mp_ok_def)
        with rely(3) p1 show ?thesis by (rule mp_claim_done_later)
      qed
    qed
  qed
  with ok show ?thesis by simp
qed

lemma mp_next_sequences_sound:
  assumes "mp_env_ok rear I env" "n < 2 ^ 62" "I \<sigma>" "mp_handle_ok rear \<sigma> p"
    and "mp_sees get_after (consumer_barrier p) rear"
    and run: "mp_next_sequences get_after env t n p \<sigma> = Some r"
  shows "mp_claim_done rear I n \<sigma> p r"
proof -
  have "int n < 4611686018427387904" using assms(2) by simp
  then have "i64 (int n) = int n" by (intro i64_id) (simp add: in_i64_iff)
  then have loop: "mp_claim_loop get_after env (t + 1) (int n) (mp_claimed (env t \<sigma>)) p (env t \<sigma>) = Some r"
    using run by (simp add: mp_next_sequences_def Let_def)
  have rely: "mp_rely rear \<sigma> (env t \<sigma>)" using assms(1,3) by (rule mp_env_step)
  have "-1 \<le> mp_claimed (env t \<sigma>)" using mp_rely_ok [OF rely] by (simp add: mp_ok_def)
  then have "mp_claim_done rear I n (env t \<sigma>) p r"
    by (rule mp_claim_loop_sound [OF assms(1,2) loop mp_env_inv [OF assms(1,3)]
          mp_handle_ok_rely [OF rely assms(4)] assms(5)]) simp
  then show ?thesis by (rule mp_claim_done_later [OF rely refl])
qed

section \<open>The claim ends\<close>

text \<open>From time \<open>T\<close> on no other thread's claim succeeds.\<close>

definition mp_settled :: "('e, 'm) interference \<Rightarrow> nat \<Rightarrow> bool" where
  "mp_settled env T \<longleftrightarrow> (\<forall>t\<ge>T. \<forall>\<sigma>. mp_claimed (env t \<sigma>) = mp_claimed \<sigma>)"

lemma mp_compare_exchange_cases:
  obtains b' where "mp_compare_exchange cur nxt b = (Inr cur, b')" "mp_current b = cur"
  | "mp_compare_exchange cur nxt b = (Inl (mp_current b), b)" "mp_current b \<noteq> cur"
  using mp_compare_exchange_Inr [of cur nxt b cur] mp_compare_exchange_Inl [of cur nxt b "mp_current b"]
  by (cases "mp_current b = cur") auto

lemma mp_claim_loop_cases:
  obtains (ends) r where "mp_claim_loop get_after env t n cur p \<sigma> = Some r"
  | (retry) p1 where "mp_claim_loop get_after env t n cur p \<sigma> =
      mp_claim_loop get_after env (t + 2) n (mp_claimed (env (t + 1) (env t \<sigma>))) p1 (env (t + 1) (env t \<sigma>))"
      "mp_claimed (env (t + 1) (env t \<sigma>)) \<noteq> cur"
proof (cases "mp_check_room get_after n cur (i64 (cur + n)) (env t \<sigma>) p")
  case (Inl e)
  then show ?thesis using ends by (simp add: mp_claim_loop.simps [of get_after env t] Let_def)
next
  case (Inr p1)
  let ?\<sigma>2 = "env (t + 1) (env t \<sigma>)"
  show ?thesis
  proof (rule mp_compare_exchange_cases [of cur "i64 (cur + n)" "producer_barrier ?\<sigma>2"])
    fix b' assume "mp_compare_exchange cur (i64 (cur + n)) (producer_barrier ?\<sigma>2) = (Inr cur, b')"
    with Inr show ?thesis using ends by (simp add: mp_claim_loop.simps [of get_after env t] Let_def)
  next
    assume "mp_compare_exchange cur (i64 (cur + n)) (producer_barrier ?\<sigma>2)
        = (Inl (mp_claimed ?\<sigma>2), producer_barrier ?\<sigma>2)" "mp_claimed ?\<sigma>2 \<noteq> cur"
    with Inr show ?thesis
      using retry by (simp add: mp_claim_loop.simps [of get_after env t] Let_def)
  qed
qed

lemma mp_claim_loop_current:
  assumes "mp_settled env T" "T \<le> t" "mp_claimed \<sigma> = cur"
  shows "mp_claim_loop get_after env t n cur p \<sigma> \<noteq> None"
proof (rule mp_claim_loop_cases [of get_after env t n cur p \<sigma>])
  fix p1 assume "mp_claimed (env (t + 1) (env t \<sigma>)) \<noteq> cur"
  with assms show ?thesis by (simp add: mp_settled_def)
qed simp

lemma mp_claim_loop_ends:
  assumes "mp_settled env T"
  shows "mp_claim_loop get_after env t n cur p \<sigma> \<noteq> None"
proof (induction "T - t" arbitrary: t cur p \<sigma> rule: less_induct)
  case less
  have "mp_claim_loop get_after env (t + 2) n (mp_claimed \<sigma>') p' \<sigma>' \<noteq> None" for p' \<sigma>'
  proof (cases "T \<le> t")
    case True
    then show ?thesis using assms by (intro mp_claim_loop_current [where T = T]) auto
  next
    case False
    then show ?thesis by (intro less) simp
  qed
  then show ?case
    by (rule_tac mp_claim_loop_cases [of get_after env t n cur p \<sigma>]) simp_all
qed

lemma mp_next_sequences_ends:
  "mp_settled env T \<Longrightarrow> mp_next_sequences get_after env t n p \<sigma> \<noteq> None"
  using mp_claim_loop_ends by (simp add: mp_next_sequences_def Let_def)

section \<open>One operation at a time\<close>

text \<open>
  Without interference the handle is exact: it claims exactly when the slowest consumer leaves room.
\<close>

lemma mp_next_sequences_quiet:
  assumes ok: "mp_ok rear \<sigma>" "mp_handle_ok rear \<sigma> p" and n: "n < 2 ^ 62"
    and sees: "mp_sees get_after (consumer_barrier p) rear"
  obtains (room) p1 where "mp_next_sequences get_after (\<lambda>_ \<sigma>. \<sigma>) t n p \<sigma> =
      Some (Inr (mp_claimed \<sigma> + int n), p1, mp_moved (mp_claimed \<sigma> + int n) \<sigma>, t + 3)"
      "mp_claimed \<sigma> + int n \<le> rear (consumers \<sigma>) + mp_capacity \<sigma>"
      "claimed_sequence p1 = mp_claimed \<sigma> + int n" "mp_handle_ok rear \<sigma> p1"
      "consumer_barrier p1 = consumer_barrier p"
  | (full) "mp_next_sequences get_after (\<lambda>_ \<sigma>. \<sigma>) t n p \<sigma> =
      Some (Inl (EMissingFreeSlots (nat (mp_claimed \<sigma> + int n - rear (consumers \<sigma>) - mp_capacity \<sigma>))), p, \<sigma>, t + 2)"
      "rear (consumers \<sigma>) + mp_capacity \<sigma> < mp_claimed \<sigma> + int n"
proof -
  let ?env = "\<lambda>_ \<sigma>. \<sigma>" and ?cur = "mp_claimed \<sigma>"
  have "int n < 4611686018427387904" using n by simp
  then have wrap: "i64 (int n) = int n" by (intro i64_id) (simp add: in_i64_iff)
  have cur: "-1 \<le> ?cur" using ok by (simp add: mp_ok_def)
  obtain p1 where p1: "mp_handle_ok rear \<sigma> p1" "consumer_barrier p1 = consumer_barrier p"
    and round: "i64 (?cur + int n) = ?cur + int n"
      "mp_check_room get_after (int n) ?cur (?cur + int n) \<sigma> p =
        (if sequence_clear_of_consumers p < ?cur + int n
            \<and> rear (consumers \<sigma>) + mp_capacity \<sigma> < ?cur + int n
         then Inl (EMissingFreeSlots (nat (?cur + int n - rear (consumers \<sigma>) - mp_capacity \<sigma>))) else Inr p1)"
      "mp_compare_exchange ?cur (?cur + int n) (producer_barrier \<sigma>) =
        (Inr ?cur, producer_barrier (mp_moved (?cur + int n) \<sigma>))"
    by (rule mp_claim_round [OF mp_quiet_ok n ok sees cur order_refl]) simp
  show thesis
  proof (cases "rear (consumers \<sigma>) + mp_capacity \<sigma> < ?cur + int n")
    case True
    moreover have "sequence_clear_of_consumers p < ?cur + int n"
      using True ok(2) by (simp add: mp_handle_ok_def)
    ultimately show thesis
      using round by (intro full)
        (simp_all add: mp_next_sequences_def mp_claim_loop.simps [of get_after _ "Suc t"] Let_def wrap)
  next
    case False
    then show thesis
      using round p1
      by (intro room [of "p1\<lparr>claimed_sequence := ?cur + int n\<rparr>"])
        (simp_all add: mp_next_sequences_def mp_claim_loop.simps [of get_after _ "Suc t"] Let_def wrap
          mp_moved_barrier mp_handle_ok_def)
  qed
qed

text \<open>
  The abstract view: the events published and not passed by the slowest consumer, oldest first. All
  claimed events are published and the bits say so.
\<close>

definition mp_pending :: "('m \<Rightarrow> sequence) \<Rightarrow> ('e, 'm) mp_shared \<Rightarrow> 'e list" where
  "mp_pending rear \<sigma> = map (ring_read (ring_buffer \<sigma>)) [rear (consumers \<sigma>) + 1..mp_claimed \<sigma>]"

definition mp_published :: "('m \<Rightarrow> sequence) \<Rightarrow> ('e, 'm) mp_shared \<Rightarrow> bool" where
  "mp_published rear \<sigma> \<longleftrightarrow> mp_ok rear \<sigma> \<and> mp_size (producer_barrier \<sigma>) = mp_capacity \<sigma>
     \<and> mp_represents (producer_barrier \<sigma>) (rear (consumers \<sigma>) + 1) {0..mp_claimed \<sigma>}"

lemma length_mp_pending:
  "mp_ok rear \<sigma> \<Longrightarrow> int (length (mp_pending rear \<sigma>)) = mp_claimed \<sigma> - rear (consumers \<sigma>)"
  by (simp add: mp_pending_def mp_ok_def)

lemma mp_bounded_offer:
  "mp_ok rear \<sigma> \<Longrightarrow> length es = n \<Longrightarrow>
   bounded_offer (length (slots (ring_buffer \<sigma>))) (mp_pending rear \<sigma>) es =
     (if mp_claimed \<sigma> + int n \<le> rear (consumers \<sigma>) + mp_capacity \<sigma>
      then Some (mp_pending rear \<sigma> @ es) else None)"
  using length_mp_pending [of rear \<sigma>] by (auto simp: bounded_offer_def)

lemma mp_apply_updates_quiet:
  assumes pub: "mp_published rear \<sigma>" and p: "claimed_sequence p = mp_claimed \<sigma> + int n"
    and room: "mp_claimed \<sigma> + int n \<le> rear (consumers \<sigma>) + mp_capacity \<sigma>"
  shows "\<exists>\<sigma>'. mp_apply_updates (\<lambda>_ \<sigma>. \<sigma>) t n fs p (mp_moved (mp_claimed \<sigma> + int n) \<sigma>) = (mp_claimed \<sigma> + int n, \<sigma>')
    \<and> mp_published rear \<sigma>' \<and> mp_claimed \<sigma>' = mp_claimed \<sigma> + int n
    \<and> mp_pending rear \<sigma>' = mp_pending rear \<sigma> @ batch_events (ring_buffer \<sigma>) (mp_claimed \<sigma> + 1) n fs"
proof -
  let ?s = "mp_claimed \<sigma> + int n" and ?lo = "mp_claimed \<sigma> + 1" and ?rb = "ring_buffer \<sigma>"
  let ?b = "producer_barrier (mp_moved ?s \<sigma>)"
  let ?it = "\<lparr>current = ?lo, last_sequence = ?lo + int n - 1\<rparr>"
  from pub have ok: "mp_ok rear \<sigma>" and mask: "mp_size (producer_barrier \<sigma>) = mp_capacity \<sigma>"
    and rep: "mp_represents (producer_barrier \<sigma>) (rear (consumers \<sigma>) + 1) {0..mp_claimed \<sigma>}"
    by (auto simp: mp_published_def)
  from ok have wf: "wf_ring ?rb" and lo: "0 \<le> ?lo" by (auto simp: mp_ok_def)
  have n: "int n \<le> capacity ?rb" using ok room by (auto simp: mp_ok_def)
  have top: "?lo + int n < 2 ^ 63" using ok room by (auto simp: mp_ok_def)
  have wraps: "i64 (int n) = int n" "i64 (mp_claimed \<sigma>) = mp_claimed \<sigma>" "i64 ?lo = ?lo"
    using ok room by (auto simp: mp_ok_def in_i64_iff intro!: i64_id)
  define \<sigma>' where "\<sigma>' = (mp_moved ?s \<sigma>)\<lparr>ring_buffer := fst (run_updates fs ?rb ?it),
    producer_barrier := publish_range_relaxed ?lo (int n) ?b\<rparr>"
  have it: "batch_iter_new ?lo ?s = ?it" by (simp add: batch_iter_new_def)
  have eq: "mp_apply_updates (\<lambda>_ \<sigma>. \<sigma>) t n fs p (mp_moved ?s \<sigma>) = (?s, \<sigma>')"
    using wraps it p by (simp add: mp_apply_updates_def Let_def \<sigma>'_def)
  have b: "?b = producer_barrier \<sigma>\<lparr>mp_cursor := cursor_store ?s (mp_cursor (producer_barrier \<sigma>))\<rparr>"
    by (simp add: mp_moved_def)
  have repb: "mp_represents ?b (rear (consumers \<sigma>) + 1) {0..mp_claimed \<sigma>}" and maskb: "mp_size ?b = mp_capacity \<sigma>"
    using rep mask by (simp_all add: b)
  have range: "publish_range_relaxed ?lo (int n) ?b = fold mp_publish [?lo..?lo + int n - 1] ?b"
    using repb lo top by (intro publish_range_relaxed_fold) (auto simp: mp_represents_def)
  have cur: "mp_claimed \<sigma>' = ?s"
    by (simp add: \<sigma>'_def range)
  have "mp_represents (publish_range_relaxed ?lo (int n) ?b) (rear (consumers \<sigma>) + 1)
      ({0..mp_claimed \<sigma>} \<union> {?lo..<?lo + int n})"
    using ok room top maskb by (intro mp_represents_publish_range [OF repb]) (auto simp: mp_ok_def)
  moreover have "{0..mp_claimed \<sigma>} \<union> {?lo..<?lo + int n} = {0..?s}"
    using lo by (auto simp: not_less)
  ultimately have rep': "mp_represents (producer_barrier \<sigma>') (rear (consumers \<sigma>') + 1) {0..mp_claimed \<sigma>'}"
    by (simp add: cur) (simp add: \<sigma>'_def)
  have shape: "mp_capacity \<sigma>' = mp_capacity \<sigma>" "wf_ring (ring_buffer \<sigma>')" "consumers \<sigma>' = consumers \<sigma>"
    using run_updates_shape [of fs ?rb ?it] wf by (simp_all add: \<sigma>'_def)
  have "mp_size (producer_barrier \<sigma>') = mp_capacity \<sigma>'"
    using maskb shape by (simp add: \<sigma>'_def range)
  with ok room shape cur rep' have "mp_published rear \<sigma>'"
    by (auto simp: mp_published_def mp_ok_def)
  moreover have "mp_pending rear \<sigma>' = mp_pending rear \<sigma> @ batch_events ?rb ?lo n fs"
  proof -
    note batch = ring_read_batch [OF wf lo top n refl, where fs = fs]
    have "[rear (consumers \<sigma>) + 1..?s] = [rear (consumers \<sigma>) + 1..?lo - 1] @ [?lo..?lo + int n - 1]"
      using ok upto_append [of "rear (consumers \<sigma>) + 1" ?lo ?s] by (simp add: mp_ok_def)
    moreover have "?lo + int n - capacity ?rb \<le> rear (consumers \<sigma>) + 1" using room by simp
    note batch(2) [OF this]
    ultimately show ?thesis
      using batch(1) by (simp add: mp_pending_def cur shape) (simp add: \<sigma>'_def)
  qed
  ultimately show ?thesis using eq cur by blast
qed

lemma mp_apply_update_batch:
  assumes "mp_published rear \<sigma>" "claimed_sequence p = mp_claimed \<sigma> + 1"
    and "mp_claimed \<sigma> + 1 \<le> rear (consumers \<sigma>) + mp_capacity \<sigma>"
  shows "mp_apply_update (\<lambda>_ \<sigma>. \<sigma>) t f p (mp_moved (mp_claimed \<sigma> + 1) \<sigma>)
    = mp_apply_updates (\<lambda>_ \<sigma>. \<sigma>) t 1 [f] p (mp_moved (mp_claimed \<sigma> + 1) \<sigma>)"
proof -
  let ?s = "mp_claimed \<sigma> + 1"
  have s: "0 \<le> ?s" "?s + 1 < 2 ^ 63" "wf_mp (producer_barrier \<sigma>)"
    using assms by (auto simp: mp_published_def mp_ok_def mp_represents_def)
  then have "wf_mp (producer_barrier (mp_moved ?s \<sigma>))" by (simp add: mp_moved_def wf_mp_def)
  with s have "publish_range_relaxed ?s 1 (producer_barrier (mp_moved ?s \<sigma>))
      = mp_publish ?s (producer_barrier (mp_moved ?s \<sigma>))"
    by (subst publish_range_relaxed_fold) (auto simp: add.commute [of 1])
  moreover have "i64 1 = 1" "i64 (mp_claimed \<sigma>) = mp_claimed \<sigma>" "i64 ?s = ?s"
    using s by (auto simp: in_i64_iff intro!: i64_id)
  ultimately show ?thesis
    using assms(2) by (simp add: mp_apply_update_def mp_apply_updates_def Let_def batch_iter_new_def
        batch_iter_next_def add.commute [of 1])
qed

section \<open>Waiting for room\<close>

lemma mp_claim_loop_time:
  assumes run: "mp_claim_loop get_after env t n cur p \<sigma> = Some r"
  shows "t < snd (snd (snd r))"
proof -
  let ?P = "\<lambda>ga e t k cur p \<sigma> r. t < snd (snd (snd r))"
  show ?thesis
  proof (rule mp_claim_loop.raw_induct [where P = ?P, OF _ run], goal_cases)
    case (1 loop ga e t k cur p \<sigma> r)
    show ?case
      using 1(2) by (auto simp: Let_def split: sum.splits prod.splits dest!: 1(1))
  qed
qed

lemma mp_next_sequences_time:
  "mp_next_sequences get_after env t n p \<sigma> = Some (r, p', \<sigma>', t') \<Longrightarrow> t < t'"
  by (auto simp: mp_next_sequences_def Let_def dest: mp_claim_loop_time)

text \<open>From time \<open>T\<close> on the others leave room for a claim of \<open>n\<close> slots.\<close>

definition mp_room_from :: "('m \<Rightarrow> sequence) \<Rightarrow> (('e, 'm) mp_shared \<Rightarrow> bool) \<Rightarrow> nat \<Rightarrow> ('e, 'm) interference \<Rightarrow> nat \<Rightarrow> bool" where
  "mp_room_from rear I n env T \<longleftrightarrow> (\<forall>t\<ge>T. \<forall>\<sigma>. I \<sigma> \<longrightarrow>
     mp_claimed (env t \<sigma>) + int n \<le> rear (consumers (env t \<sigma>)) + mp_capacity (env t \<sigma>))"

lemma mp_next_sequences_succeeds:
  assumes env: "mp_env_ok rear I env" and n: "n < 2 ^ 62" and ok: "I \<sigma>" "mp_handle_ok rear \<sigma> p"
    and sees: "mp_sees get_after (consumer_barrier p) rear"
    and T: "mp_settled env T" "mp_room_from rear I n env T" "T \<le> t"
  shows "\<exists>s p' \<sigma>' t'. mp_next_sequences get_after env t n p \<sigma> = Some (Inr s, p', \<sigma>', t')"
proof -
  let ?\<sigma>0 = "env t \<sigma>"
  let ?cur = "mp_claimed ?\<sigma>0" and ?\<sigma>1 = "env (Suc t) ?\<sigma>0"
  have "int n < 4611686018427387904" using n by simp
  then have wrap: "i64 (int n) = int n" by (intro i64_id) (simp add: in_i64_iff)
  have rely: "mp_rely rear \<sigma> ?\<sigma>0" using env ok(1) by (rule mp_env_step)
  note ok0 = mp_env_inv [OF env ok(1), of t] mp_handle_ok_rely [OF rely ok(2)]
  have cur: "-1 \<le> ?cur" using mp_rely_ok [OF rely] by (simp add: mp_ok_def)
  have same: "mp_claimed (env (Suc (Suc t)) ?\<sigma>1) = ?cur" "mp_claimed ?\<sigma>1 = ?cur"
    using T(1,3) by (simp_all add: mp_settled_def)
  have "mp_claimed ?\<sigma>1 + int n \<le> rear (consumers ?\<sigma>1) + mp_capacity ?\<sigma>1"
    using T(2,3) ok0(1) by (simp add: mp_room_from_def)
  then have room: "\<not> rear (consumers ?\<sigma>1) + mp_capacity ?\<sigma>1 < ?cur + int n" using same by simp
  show ?thesis
    by (rule mp_claim_round [OF env n ok0 sees cur order_refl, of "Suc t"])
      (simp add: mp_next_sequences_def mp_claim_loop.simps [of get_after _ "Suc t"] Let_def wrap room same)
qed

lemma mp_spin_returns:
  assumes env: "mp_env_ok rear I env" and n: "n < 2 ^ 62"
    and T: "mp_settled env T" "mp_room_from rear I n env T"
    and "I \<sigma>" "mp_handle_ok rear \<sigma> p" "mp_sees get_after (consumer_barrier p) rear"
  shows "mp_spin get_after env t n p \<sigma> \<noteq> None"
  using assms(5-)
proof (induction "T - t" arbitrary: t p \<sigma> rule: less_induct)
  case less
  obtain r p' \<sigma>' t' where claim: "mp_next_sequences get_after env t n p \<sigma> = Some (r, p', \<sigma>', t')"
    using mp_next_sequences_ends [OF T(1)] by fast
  show ?case
  proof (cases r)
    case (Inr s)
    with claim show ?thesis by (simp add: mp_spin.simps [of get_after env t])
  next
    case (Inl e)
    have "\<not> T \<le> t"
      using mp_next_sequences_succeeds [OF env n less.prems T, of t] claim Inl by auto
    moreover have "t < t'" using claim by (rule mp_next_sequences_time)
    moreover have "mp_claim_done rear I n \<sigma> p (Inl e, p', \<sigma>', t')"
      using mp_next_sequences_sound [OF env n less.prems claim] Inl by simp
    then have "I \<sigma>'" "mp_handle_ok rear \<sigma>' p'" "mp_sees get_after (consumer_barrier p') rear"
      using less.prems(3) by (auto simp: mp_claim_done_def mp_rely_def split: missing_free_slots.splits)
    ultimately have "mp_spin get_after env t' n p' \<sigma>' \<noteq> None" by (intro less.hyps) auto
    with claim Inl show ?thesis by (simp add: mp_spin.simps [of get_after env t])
  qed
qed

lemma mp_spin_sound:
  assumes env: "mp_env_ok rear I env" and n: "n < 2 ^ 62"
    and run: "mp_spin get_after env t n p \<sigma> = Some r"
    and ok: "I \<sigma>" "mp_handle_ok rear \<sigma> p" "mp_sees get_after (consumer_barrier p) rear"
  shows "mp_claim_done rear I n \<sigma> p (Inr (claimed_sequence (fst r)), r)"
proof -
  let ?P = "\<lambda>ga e t k p \<sigma> r. ga = get_after \<and> e = env \<and> k = n \<longrightarrow>
      I \<sigma> \<longrightarrow> mp_handle_ok rear \<sigma> p \<longrightarrow> mp_sees get_after (consumer_barrier p) rear \<longrightarrow>
      mp_claim_done rear I n \<sigma> p (Inr (claimed_sequence (fst r)), r)"
  have "?P get_after env t n p \<sigma> r"
  proof (rule mp_spin.raw_induct [where P = ?P, OF _ run], goal_cases)
    case (1 loop ga e t k p \<sigma> r)
    show ?case
    proof (intro impI, elim conjE)
      assume ok: "I \<sigma>" "mp_handle_ok rear \<sigma> p" "mp_sees get_after (consumer_barrier p) rear"
        and same: "ga = get_after" "e = env" "k = n"
      obtain c p' \<sigma>' t' where claim: "mp_next_sequences get_after env t n p \<sigma> = Some (c, p', \<sigma>', t')"
        using 1(2) same by (auto simp: bind_eq_Some_conv)
      note sound = mp_next_sequences_sound [OF env n ok claim]
      show "mp_claim_done rear I n \<sigma> p (Inr (claimed_sequence (fst r)), r)"
      proof (cases c)
        case (Inr s)
        with 1(2) claim same sound show ?thesis by (auto simp: mp_claim_done_def)
      next
        case (Inl x)
        with 1(2) claim same have "loop get_after env t' n p' \<sigma>' = Some r" by simp
        note IH = 1(1) [OF this]
        have "mp_rely rear \<sigma> \<sigma>'" "I \<sigma>'" "mp_handle_ok rear \<sigma>' p'" "consumer_barrier p' = consumer_barrier p"
          using sound Inl by (auto simp: mp_claim_done_def split: missing_free_slots.splits)
        with IH ok(3) show ?thesis
          by (auto intro: mp_claim_done_later)
      qed
    qed
  qed
  with ok show ?thesis by simp
qed

section \<open>The life of the clones\<close>

text \<open>
  What the handles' owners do, in the order in which they get the mutex: clone a handle, drop one,
  and, in between, claims that leave the cursor at some sequence.
\<close>

datatype life_op = CloneHandle | DropHandle | Claimed sequence

fun run_life :: "'c multi_producer \<Rightarrow> life_op list \<Rightarrow> ('e, 'm) mp_shared
    \<Rightarrow> ('e, 'm) mp_shared fallible option" where
  "run_life p [] \<sigma> = Some (Inr \<sigma>)"
| "run_life p (CloneHandle # ops) \<sigma> = Option.bind (mp_clone p \<sigma>) (\<lambda>(p', \<sigma>'). run_life p ops \<sigma>')"
| "run_life p (DropHandle # ops) \<sigma> =
     (case mp_drop \<sigma> of Inl panic \<Rightarrow> Some (Inl panic) | Inr \<sigma>' \<Rightarrow> run_life p ops \<sigma>')"
| "run_life p (Claimed s # ops) \<sigma> = run_life p ops (mp_moved s \<sigma>)"

text \<open>The number of live handles afterwards; \<open>None\<close> if something is done without a handle.\<close>

fun live_after :: "nat \<Rightarrow> life_op list \<Rightarrow> nat option" where
  "live_after k [] = Some k"
| "live_after k (CloneHandle # ops) = (if k = 0 then None else live_after (k + 1) ops)"
| "live_after k (DropHandle # ops) = (if k = 0 then None else live_after (k - 1) ops)"
| "live_after k (Claimed s # ops) = (if k = 0 then None else live_after k ops)"

lemma live_after_0: "live_after 0 ops = Some k \<Longrightarrow> ops = [] \<and> k = 0"
  by (cases "(0::nat, ops)" rule: live_after.cases) auto

text \<open>The shared record once the last handle is gone, and before.\<close>

definition mp_life_result :: "nat \<Rightarrow> ('e, 'm) mp_shared \<Rightarrow> ('e, 'm) mp_shared fallible \<Rightarrow> bool" where
  "mp_life_result k \<sigma> r \<longleftrightarrow>
     (if k = 0 \<and> (\<exists>h\<in>set (consumer_handles \<sigma>). join_handle h = Some Panicked)
      then r = Inl (Panic ''Consumer should not panic.'')
      else \<exists>\<sigma>'. r = Inr \<sigma>' \<and> live_count \<sigma>' = int k
        \<and> shutdown_at_sequence \<sigma>' = (if k = 0 then mp_claimed \<sigma>' + 1 else shutdown_at_sequence \<sigma>)
        \<and> consumer_handles \<sigma>' = (if k = 0 then map (\<lambda>h. h\<lparr>join_handle := None\<rparr>) (consumer_handles \<sigma>)
            else consumer_handles \<sigma>))"

lemma mp_drop_last:
  assumes "live_count \<sigma> = 1" "-1 \<le> mp_claimed \<sigma>" "mp_claimed \<sigma> < 2 ^ 62"
  shows "mp_life_result 0 \<sigma> (mp_drop \<sigma>)"
proof -
  have "i64 (mp_claimed \<sigma> + 1) = mp_claimed \<sigma> + 1" using assms by (intro i64_id) (simp add: in_i64_iff)
  then show ?thesis
    using assms(1) join_all_Inl [of "consumer_handles \<sigma>"] join_all_Inr [of "consumer_handles \<sigma>"]
    by (auto simp: mp_life_result_def mp_drop_def Let_def i64_id [of 0] in_i64_iff)
qed

lemma mp_life_result_cong [simp]:
  "mp_life_result k (\<sigma>\<lparr>live_count := c\<rparr>) r = mp_life_result k \<sigma> r"
  "mp_life_result k (mp_moved s \<sigma>) r = mp_life_result k \<sigma> r"
  by (simp_all add: mp_life_result_def mp_moved_def)

lemma run_life_result:
  assumes "live_after j ops = Some k" "live_count \<sigma> = int j" "0 < j" "int j + int (length ops) < 2 ^ 62"
    and "-1 \<le> mp_claimed \<sigma>" "mp_claimed \<sigma> < 2 ^ 62" "\<forall>s. Claimed s \<in> set ops \<longrightarrow> -1 \<le> s \<and> s < 2 ^ 62"
  shows "\<exists>r. run_life p ops \<sigma> = Some r \<and> mp_life_result k \<sigma> r"
  using assms
proof (induction j ops arbitrary: \<sigma> rule: live_after.induct)
  case (1 j)
  then show ?case by (simp add: mp_life_result_def)
next
  case (2 j ops)
  then have "i64 (live_count \<sigma> + 1) = live_count \<sigma> + 1" by (intro i64_id) (simp add: in_i64_iff)
  moreover have "\<not> live_count \<sigma> > i64_MAX div 2" using 2 by (simp add: i64_MAX_def)
  ultimately have "run_life p (CloneHandle # ops) \<sigma> = run_life p ops (\<sigma>\<lparr>live_count := int (j + 1)\<rparr>)"
    using 2 by (simp add: mp_clone_def Let_def add.commute)
  moreover have "\<exists>r. run_life p ops (\<sigma>\<lparr>live_count := int (j + 1)\<rparr>) = Some r
      \<and> mp_life_result k (\<sigma>\<lparr>live_count := int (j + 1)\<rparr>) r"
    using 2 by (intro "2.IH") auto
  ultimately show ?case by simp
next
  case (3 j ops)
  show ?case
  proof (cases "j = 1")
    case True
    with 3 have "ops = []" "k = 0" using live_after_0 [of ops k] by auto
    moreover have "mp_life_result 0 \<sigma> (mp_drop \<sigma>)" using 3 True by (intro mp_drop_last) auto
    ultimately show ?thesis by (cases "mp_drop \<sigma>") simp_all
  next
    case False
    with 3 have "i64 (live_count \<sigma> - 1) = live_count \<sigma> - 1" by (intro i64_id) (simp add: in_i64_iff)
    with 3 False have "run_life p (DropHandle # ops) \<sigma> = run_life p ops (\<sigma>\<lparr>live_count := int (j - 1)\<rparr>)"
      by (simp add: mp_drop_def Let_def of_nat_diff)
    moreover have "\<exists>r. run_life p ops (\<sigma>\<lparr>live_count := int (j - 1)\<rparr>) = Some r
        \<and> mp_life_result k (\<sigma>\<lparr>live_count := int (j - 1)\<rparr>) r"
      using 3 False by (intro "3.IH") auto
    ultimately show ?thesis by simp
  qed
next
  case (4 j s ops)
  have "\<exists>r. run_life p ops (mp_moved s \<sigma>) = Some r \<and> mp_life_result k (mp_moved s \<sigma>) r"
    using 4 by (intro "4.IH") (auto simp: mp_moved_def mp_current_def)
  then show ?case by simp
qed

section \<open>Properties\<close>

lemma uni_consumer_sees: "mp_sees uni_consumer_get_after cb (\<lambda>cs. relaxed_value (cs (uc_cursor cb)))"
  by (simp add: mp_sees_def uni_consumer_get_after_def)

lemma multi_consumer_sees:
  "mp_sees multi_consumer_get_after cb (\<lambda>cs. multi_consumer_get_after cb cs 0)"
  by (simp add: mp_sees_def multi_consumer_get_after_def)

text \<open>A new disruptor of 64 slots with one consumer, and its first handle.\<close>

definition ex_mp_ring :: "int ring_buffer" where
  "ex_mp_ring = \<lparr>slots = replicate 64 0, index_mask = 63\<rparr>"

definition ex_handle :: "uni_consumer_barrier multi_producer" where
  "ex_handle = fst (multi_producer_new (-1) ex_mp_ring ex_mp [consumer_handle_new Finished]
     (UniConsumerBarrier 0) (\<lambda>_::arc. cursor_new (-1)))"

definition ex_shared :: "(int, cursors) mp_shared" where
  "ex_shared = snd (multi_producer_new (-1) ex_mp_ring ex_mp [consumer_handle_new Finished]
     (UniConsumerBarrier 0) (\<lambda>_::arc. cursor_new (-1)))"

abbreviation ex_rear :: "cursors \<Rightarrow> sequence" where
  "ex_rear \<equiv> \<lambda>cs. relaxed_value (cs 0)"

lemma wf_ex_mp_ring: "wf_ring ex_mp_ring"
  using power_of_two_64 by (simp add: wf_ring_def ex_mp_ring_def)

lemma ex_shared_simps [simp]:
  "mp_current ex_mp = -1" "ring_buffer ex_shared = ex_mp_ring" "producer_barrier ex_shared = ex_mp"
  "relaxed_value (consumers ex_shared a) = -1" "length (slots ex_mp_ring) = 64"
  "live_count ex_shared = 1" "consumer_handles ex_shared = [consumer_handle_new Finished]"
  by (simp_all add: ex_shared_def multi_producer_new_def ex_mp_def mp_current_def ex_mp_ring_def)

lemma ex_shared_facts:
  "mp_ok ex_rear ex_shared" "mp_handle_ok ex_rear ex_shared ex_handle"
  "mp_sees uni_consumer_get_after (consumer_barrier ex_handle) ex_rear"
  "mp_published ex_rear ex_shared"
proof -
  show ok: "mp_ok ex_rear ex_shared" using wf_ex_mp_ring by (simp add: mp_ok_def)
  have "i64 63 = 63" by (intro i64_id) (simp add: in_i64_iff)
  then show "mp_handle_ok ex_rear ex_shared ex_handle"
    using wf_ex_mp_ring by (simp add: mp_handle_ok_def ex_handle_def multi_producer_new_def)
  show "mp_sees uni_consumer_get_after (consumer_barrier ex_handle) ex_rear"
    using uni_consumer_sees [of "UniConsumerBarrier 0"] by (simp add: ex_handle_def multi_producer_new_def)
  show "mp_published ex_rear ex_shared"
    using ok ex_mp_facts(4) by (simp add: mp_published_def) (simp add: ex_mp_def)
qed

text \<open>
  C7. Claims are exclusive and safe under any interference. Whatever the other producers and the
  consumers do between the steps of \<open>next_sequences\<close>: if it returns \<open>s\<close>, then at one moment the
  cursor moved from \<open>s - n\<close> to \<open>s\<close>, so the claimed sequences belong to this handle alone, and \<open>s\<close> is
  less than a lap ahead of the slowest consumer; that move is a step the other threads may rely on.
  If it fails, the ring really lacks at least the reported slots.
\<close>

theorem mp_claim_exclusive:
  assumes "mp_env_ok rear I env" "n < 2 ^ 62" "I \<sigma>" "mp_handle_ok rear \<sigma> p"
    and "mp_sees get_after (consumer_barrier p) rear"
    and "mp_next_sequences get_after env t n p \<sigma> = Some (r, p', \<sigma>', t')"
  shows "case r of
      Inr s \<Rightarrow> claimed_sequence p' = s \<and> s \<le> rear (consumers \<sigma>') + mp_capacity \<sigma>'
        \<and> (\<exists>\<sigma>2. mp_rely rear \<sigma> \<sigma>2 \<and> mp_claimed \<sigma>2 = s - int n \<and> \<sigma>' = mp_moved s \<sigma>2 \<and> mp_rely rear \<sigma>2 \<sigma>')
    | Inl (EMissingFreeSlots k) \<Rightarrow> 0 < k \<and> mp_rely rear \<sigma> \<sigma>'
        \<and> rear (consumers \<sigma>') + mp_capacity \<sigma>' + int k \<le> mp_claimed \<sigma>' + int n"
  using mp_next_sequences_sound [OF assms]
  by (auto simp: mp_claim_done_def algebra_simps split: sum.splits missing_free_slots.splits)

text \<open>A rival that claims five sequences just before this handle's first compare-and-swap.\<close>

definition ex_rival :: "(int, cursors) interference" where
  "ex_rival t \<sigma> = (if t = 2 \<and> mp_claimed \<sigma> = -1 \<and> 64 \<le> mp_capacity \<sigma> then mp_moved 4 \<sigma> else \<sigma>)"

lemma ex_rival_ok: "mp_env_ok ex_rear (mp_ok ex_rear) ex_rival"
proof -
  have "mp_rely ex_rear \<sigma> (mp_moved 4 \<sigma>)"
    if "mp_claimed \<sigma> = -1" "mp_ok ex_rear \<sigma>" "64 \<le> mp_capacity \<sigma>" for \<sigma> :: "(int, cursors) mp_shared"
    using that by (intro mp_rely_moved) (auto simp: mp_ok_def)
  then show ?thesis by (auto simp: mp_env_ok_def ex_rival_def mp_rely_refl intro: mp_rely_ok)
qed

lemma ex_rival_run:
  "mp_next_sequences uni_consumer_get_after ex_rival 0 3 ex_handle ex_shared =
     Some (Inr 7, ex_handle\<lparr>claimed_sequence := 7\<rparr>, mp_moved 7 (mp_moved 4 ex_shared), 5)"
proof -
  have wraps: "i64 3 = 3" "i64 2 = 2" "i64 7 = 7" "i64 63 = 63"
    by (simp_all add: i64_id in_i64_iff)
  have clear: "sequence_clear_of_consumers ex_handle = 63"
    using wf_ex_mp_ring by (simp add: ex_handle_def multi_producer_new_def wraps)
  have rivals: "ex_rival 0 ex_shared = ex_shared" "ex_rival (Suc 0) ex_shared = ex_shared"
    "ex_rival (Suc (Suc 0)) ex_shared = mp_moved 4 ex_shared"
    "ex_rival 3 \<sigma> = \<sigma>" "ex_rival 4 \<sigma> = \<sigma>" for \<sigma>
    by (simp_all add: ex_rival_def)
  have swaps: "mp_compare_exchange (-1) 2 (producer_barrier (mp_moved 4 ex_shared))
      = (Inl 4, producer_barrier (mp_moved 4 ex_shared))"
    "mp_compare_exchange 4 7 (producer_barrier (mp_moved 4 ex_shared))
      = (Inr 4, producer_barrier (mp_moved 7 (mp_moved 4 ex_shared)))"
    by (simp_all add: mp_compare_exchange_Inl mp_compare_exchange_Inr) (simp add: mp_moved_def)
  have same: "mp_moved 4 ex_shared\<lparr>producer_barrier := producer_barrier (mp_moved 4 ex_shared)\<rparr>
      = mp_moved 4 ex_shared" by simp
  have "mp_claim_loop uni_consumer_get_after ex_rival (Suc 0) 3 (-1) ex_handle ex_shared
      = mp_claim_loop uni_consumer_get_after ex_rival 3 3 4 ex_handle (mp_moved 4 ex_shared)"
    by (simp add: mp_claim_loop.simps [of _ _ "Suc 0"] Let_def wraps rivals swaps same
        mp_check_room_def clear numeral_3_eq_3)
  also have "\<dots> = Some (Inr 7, ex_handle\<lparr>claimed_sequence := 7\<rparr>, mp_moved 7 (mp_moved 4 ex_shared), 5)"
    by (simp add: mp_claim_loop.simps [of _ _ 3] Let_def wraps rivals swaps mp_moved_barrier
        mp_check_room_def clear)
  finally show ?thesis
    by (simp add: mp_next_sequences_def Let_def wraps rivals)
qed

theorem mp_claim_exclusive_witness:
  "\<exists>\<sigma>2. mp_claimed \<sigma>2 = 4 \<and> mp_moved 7 (mp_moved 4 ex_shared) = mp_moved 7 \<sigma>2"
proof -
  have "(3::nat) < 2 ^ 62" by simp
  from mp_claim_exclusive [OF ex_rival_ok this ex_shared_facts(1,2,3) ex_rival_run] show ?thesis by auto
qed

text \<open>
  C29. Claiming is lock-free: \<open>next_sequences\<close> can fail to return only while other threads' claims
  keep succeeding. As soon as they stop moving the cursor it returns, with a claim or with an error.
\<close>

theorem mp_claim_lock_free:
  assumes "\<forall>t\<ge>T. \<forall>\<sigma>. mp_claimed (env t \<sigma>) = mp_claimed \<sigma>"
  shows "\<exists>r. mp_next_sequences get_after env t n p \<sigma> = Some r"
  using assms mp_next_sequences_ends [of env T get_after t n p \<sigma>] by (simp add: mp_settled_def)

theorem mp_claim_lock_free_witness:
  "\<exists>r. mp_next_sequences uni_consumer_get_after ex_rival 0 3 ex_handle ex_shared = Some r"
  by (rule mp_claim_lock_free [of 3]) (simp add: ex_rival_def)

text \<open>
  C34. Run alone, \<open>try_batch_publish\<close> refines a bounded queue of the events the slowest consumer has
  not passed, whatever the handle has cached: either all \<open>n\<close> events are appended in order, their
  bits are set and nothing else is published, or nothing changes and the error carries the exact
  number of missing slots.
\<close>

theorem mp_try_batch_publish_refines:
  assumes "mp_published rear \<sigma>" "mp_handle_ok rear \<sigma> p" "n < 2 ^ 62"
    and "mp_sees get_after (consumer_barrier p) rear"
  shows "case mp_try_batch_publish get_after (\<lambda>_ \<sigma>. \<sigma>) n updates p \<sigma> of
      None \<Rightarrow> False
    | Some (Inl (EMissingFreeSlots k), p', \<sigma>') \<Rightarrow> p' = p \<and> \<sigma>' = \<sigma>
        \<and> k = length (mp_pending rear \<sigma>) + n - length (slots (ring_buffer \<sigma>)) \<and> 0 < k
    | Some (Inr s, p', \<sigma>') \<Rightarrow> s = mp_claimed \<sigma> + int n \<and> mp_published rear \<sigma>' \<and> mp_claimed \<sigma>' = s
        \<and> bounded_offer (length (slots (ring_buffer \<sigma>))) (mp_pending rear \<sigma>)
            (batch_events (ring_buffer \<sigma>) (mp_claimed \<sigma> + 1) n updates) = Some (mp_pending rear \<sigma>')"
proof -
  have ok: "mp_ok rear \<sigma>" using assms(1) by (simp add: mp_published_def)
  show ?thesis
  proof (rule mp_next_sequences_quiet [OF ok assms(2,3,4), of 0], goal_cases)
    case (1 p1)
    from mp_apply_updates_quiet [OF assms(1) 1(3,2), of "0 + 3" updates]
    show ?case
      using 1(1,2) ok
      by (auto simp: mp_try_batch_publish_def mp_bounded_offer)
  next
    case 2
    have "nat (mp_claimed \<sigma> + int n - rear (consumers \<sigma>) - mp_capacity \<sigma>)
        = length (mp_pending rear \<sigma>) + n - length (slots (ring_buffer \<sigma>))"
      using length_mp_pending [OF ok] by linarith
    with 2 show ?case by (simp add: mp_try_batch_publish_def)
  qed
qed

theorem mp_try_batch_publish_refines_witness:
  "case mp_try_batch_publish uni_consumer_get_after (\<lambda>_ \<sigma>. \<sigma>) 3 [\<lambda>_. 7] ex_handle ex_shared of
      None \<Rightarrow> False
    | Some (Inl (EMissingFreeSlots k), p', \<sigma>') \<Rightarrow> p' = ex_handle \<and> \<sigma>' = ex_shared
        \<and> k = length (mp_pending ex_rear ex_shared) + 3 - length (slots (ring_buffer ex_shared)) \<and> 0 < k
    | Some (Inr s, p', \<sigma>') \<Rightarrow> s = mp_claimed ex_shared + int 3 \<and> mp_published ex_rear \<sigma>' \<and> mp_claimed \<sigma>' = s
        \<and> bounded_offer (length (slots (ring_buffer ex_shared))) (mp_pending ex_rear ex_shared)
            (batch_events (ring_buffer ex_shared) (mp_claimed ex_shared + 1) 3 [\<lambda>_. 7]) = Some (mp_pending ex_rear \<sigma>')"
  by (rule mp_try_batch_publish_refines [OF ex_shared_facts(4,2) _ ex_shared_facts(3)]) simp

text \<open>
  Run alone, \<open>try_publish\<close> refines the same queue: it fails with \<open>ERingBufferFull\<close>, changing
  nothing, exactly if the queue is full, and otherwise appends the event the closure made of the
  slot's old contents and returns its sequence.
\<close>

theorem mp_try_publish_refines:
  assumes "mp_published rear \<sigma>" "mp_handle_ok rear \<sigma> p"
    and "mp_sees get_after (consumer_barrier p) rear"
  shows "case mp_try_publish get_after (\<lambda>_ \<sigma>. \<sigma>) update p \<sigma> of
      None \<Rightarrow> False
    | Some (Inl ERingBufferFull, p', \<sigma>') \<Rightarrow> p' = p \<and> \<sigma>' = \<sigma>
        \<and> bounded_offer (length (slots (ring_buffer \<sigma>))) (mp_pending rear \<sigma>)
            [update (ring_read (ring_buffer \<sigma>) (mp_claimed \<sigma> + 1))] = None
    | Some (Inr s, p', \<sigma>') \<Rightarrow> s = mp_claimed \<sigma> + 1 \<and> mp_published rear \<sigma>' \<and> mp_claimed \<sigma>' = s
        \<and> bounded_offer (length (slots (ring_buffer \<sigma>))) (mp_pending rear \<sigma>)
            [update (ring_read (ring_buffer \<sigma>) (mp_claimed \<sigma> + 1))] = Some (mp_pending rear \<sigma>')"
proof -
  have ok: "mp_ok rear \<sigma>" using assms(1) by (simp add: mp_published_def)
  have one: "(1::nat) < 2 ^ 62" by simp
  show ?thesis
  proof (rule mp_next_sequences_quiet [OF ok assms(2) one assms(3), of 0], goal_cases)
    case (1 p1)
    have batch: "batch_events (ring_buffer \<sigma>) (mp_claimed \<sigma> + 1) 1 [update]
        = [update (ring_read (ring_buffer \<sigma>) (mp_claimed \<sigma> + 1))]" by (simp add: batch_events_def)
    from mp_apply_updates_quiet [OF assms(1) 1(3,2), of "0 + 3" "[update]"]
      mp_apply_update_batch [OF assms(1), of p1 "0 + 3" update]
    show ?case
      using 1(1-3) ok batch
      by (auto simp: mp_try_publish_def mp_bounded_offer)
  next
    case 2
    with ok show ?case by (simp add: mp_try_publish_def mp_bounded_offer)
  qed
qed

theorem mp_try_publish_refines_witness:
  "case mp_try_publish uni_consumer_get_after (\<lambda>_ \<sigma>. \<sigma>) (\<lambda>e. e + 7) ex_handle ex_shared of
      None \<Rightarrow> False
    | Some (Inl ERingBufferFull, p', \<sigma>') \<Rightarrow> p' = ex_handle \<and> \<sigma>' = ex_shared
        \<and> bounded_offer (length (slots (ring_buffer ex_shared))) (mp_pending ex_rear ex_shared)
            [ring_read (ring_buffer ex_shared) (mp_claimed ex_shared + 1) + 7] = None
    | Some (Inr s, p', \<sigma>') \<Rightarrow> s = mp_claimed ex_shared + 1 \<and> mp_published ex_rear \<sigma>' \<and> mp_claimed \<sigma>' = s
        \<and> bounded_offer (length (slots (ring_buffer ex_shared))) (mp_pending ex_rear ex_shared)
            [ring_read (ring_buffer ex_shared) (mp_claimed ex_shared + 1) + 7] = Some (mp_pending ex_rear \<sigma>')"
  by (rule mp_try_publish_refines [OF ex_shared_facts(4,2,3)])

text \<open>
  C36. \<open>batch_publish\<close> returns once the other threads leave room: if from some moment on the others
  stop claiming and the slowest consumer is far enough, the busy-wait ends, however often the claim
  failed or was overtaken before.
\<close>

theorem mp_batch_publish_returns:
  assumes "mp_env_ok rear I env" "n < 2 ^ 62" "I \<sigma>" "mp_handle_ok rear \<sigma> p"
    and "mp_sees get_after (consumer_barrier p) rear"
    and "\<forall>t\<ge>T. \<forall>\<sigma>. mp_claimed (env t \<sigma>) = mp_claimed \<sigma>"
    and "\<forall>t\<ge>T. \<forall>\<sigma>. I \<sigma> \<longrightarrow>
      mp_claimed (env t \<sigma>) + int n \<le> rear (consumers (env t \<sigma>)) + mp_capacity (env t \<sigma>)"
  shows "\<exists>p' \<sigma>'. mp_batch_publish get_after env n updates p \<sigma> = Some (p', \<sigma>')"
proof -
  have "mp_spin get_after env 0 n p \<sigma> \<noteq> None"
    by (rule mp_spin_returns [OF assms(1,2) _ _ assms(3-5), of T])
      (use assms(6,7) in \<open>simp_all add: mp_settled_def mp_room_from_def\<close>)
  then show ?thesis by (auto simp: mp_batch_publish_def)
qed

text \<open>The consumer catches up at time 5; the cursor stays where it is.\<close>

definition ex_full :: "(int, cursors) mp_shared" where
  "ex_full = mp_moved 63 ex_shared"

definition ex_catch_up :: "(int, cursors) interference" where
  "ex_catch_up t \<sigma> = (if 5 \<le> t then \<sigma>\<lparr>consumers := (\<lambda>_. cursor_new 63)\<rparr> else \<sigma>)"

theorem mp_batch_publish_returns_witness:
  "\<exists>p' \<sigma>'. mp_batch_publish uni_consumer_get_after ex_catch_up 3 [] ex_handle ex_full = Some (p', \<sigma>')"
proof (rule mp_batch_publish_returns)
  let ?I = "\<lambda>\<sigma>. \<sigma> = ex_full \<or> \<sigma> = ex_full\<lparr>consumers := (\<lambda>_. cursor_new 63)\<rparr>"
  have full: "mp_claimed ex_full = 63" "mp_capacity ex_full = 64" "ring_buffer ex_full = ex_mp_ring"
    "consumers ex_full = consumers ex_shared"
    by (simp_all add: ex_full_def)
  then show "mp_env_ok ex_rear ?I ex_catch_up"
    using wf_ex_mp_ring by (auto simp: mp_env_ok_def ex_catch_up_def mp_rely_def mp_ok_def)
  show "mp_handle_ok ex_rear ex_full ex_handle"
    using ex_shared_facts(2) full by (simp add: mp_handle_ok_def)
  show "\<forall>t\<ge>5. \<forall>\<sigma>. mp_claimed (ex_catch_up t \<sigma>) = mp_claimed \<sigma>"
    by (simp add: ex_catch_up_def)
  show "\<forall>t\<ge>5. \<forall>\<sigma>. ?I \<sigma> \<longrightarrow> mp_claimed (ex_catch_up t \<sigma>) + int 3
      \<le> ex_rear (consumers (ex_catch_up t \<sigma>)) + mp_capacity (ex_catch_up t \<sigma>)"
    using full by (auto simp: ex_catch_up_def)
qed (simp_all add: ex_shared_facts)

text \<open>
  A batch larger than the ring never gets published: whatever the other threads do,
  \<open>batch_publish\<close>, documented as never failing, does not return.
\<close>

theorem mp_batch_publish_oversized:
  assumes "mp_env_ok rear I env" "n < 2 ^ 62" "I \<sigma>" "mp_handle_ok rear \<sigma> p"
    and "mp_sees get_after (consumer_barrier p) rear" "length (slots (ring_buffer \<sigma>)) < n"
  shows "mp_batch_publish get_after env n updates p \<sigma> = None"
proof (rule ccontr)
  assume "mp_batch_publish get_after env n updates p \<sigma> \<noteq> None"
  then obtain r where "mp_spin get_after env 0 n p \<sigma> = Some r"
    by (cases "mp_spin get_after env 0 n p \<sigma>") (simp_all add: mp_batch_publish_def)
  from mp_spin_sound [OF assms(1,2) this assms(3-5)] assms(6) show False
    by (auto simp: mp_claim_done_def mp_rely_def mp_ok_def split: prod.splits)
qed

theorem mp_batch_publish_oversized_witness:
  "mp_batch_publish uni_consumer_get_after ex_rival 65 [] ex_handle ex_shared = None"
  by (rule mp_batch_publish_oversized [OF ex_rival_ok _ ex_shared_facts(1-3)]) simp_all

text \<open>
  Shutdown is counted: whatever the order in which handles are cloned and dropped between the
  claims, \<open>counter\<close> is the number of live handles, dropping one of several changes nothing else,
  and exactly the last drop stores the sequence after the last claimed one as the shutdown mark and
  joins every consumer.
\<close>

theorem mp_last_drop_shuts_down:
  assumes "live_after 1 ops = Some k" "live_count \<sigma> = 1" "length ops < 2 ^ 61"
    and "-1 \<le> mp_claimed \<sigma>" "mp_claimed \<sigma> < 2 ^ 62" "\<forall>s. Claimed s \<in> set ops \<longrightarrow> -1 \<le> s \<and> s < 2 ^ 62"
    and "\<forall>h\<in>set (consumer_handles \<sigma>). join_handle h \<noteq> Some Panicked"
  shows "\<exists>\<sigma>'. run_life p ops \<sigma> = Some (Inr \<sigma>') \<and> live_count \<sigma>' = int k
    \<and> shutdown_at_sequence \<sigma>' = (if k = 0 then mp_claimed \<sigma>' + 1 else shutdown_at_sequence \<sigma>)
    \<and> (\<forall>h\<in>set (consumer_handles \<sigma>'). k = 0 \<longrightarrow> join_handle h = None)"
proof -
  have "int 1 + int (length ops) < 2 ^ 62" using assms(3) by simp
  with assms run_life_result [of 1 ops k \<sigma> p] obtain r
    where "run_life p ops \<sigma> = Some r" "mp_life_result k \<sigma> r" by auto
  with assms(7) show ?thesis by (cases r) (auto simp: mp_life_result_def split: if_split_asm)
qed

theorem mp_last_drop_shuts_down_witness:
  "\<exists>\<sigma>'. run_life ex_handle [CloneHandle, DropHandle, Claimed 9, CloneHandle, DropHandle, DropHandle] ex_shared
      = Some (Inr \<sigma>') \<and> live_count \<sigma>' = 0 \<and> shutdown_at_sequence \<sigma>' = mp_claimed \<sigma>' + 1"
  using mp_last_drop_shuts_down [of "[CloneHandle, DropHandle, Claimed 9, CloneHandle, DropHandle, DropHandle]"
      0 ex_shared ex_handle]
  by (auto simp: consumer_handle_new_def)

text \<open>A batch of \<open>usize::MAX\<close> events, run alone, and the publication after it.\<close>

lemma mp_batch_of_usize_MAX_quiet:
  assumes "mp_ok rear \<sigma>" "0 \<le> mp_claimed \<sigma>" "mp_sees get_after (consumer_barrier p) rear"
  shows "\<exists>p'. mp_try_batch_publish get_after (\<lambda>_ \<sigma>. \<sigma>) (2 ^ 64 - 1) updates p \<sigma> =
    Some (Inr (mp_claimed \<sigma> - 1), p', mp_moved (mp_claimed \<sigma> - 1) \<sigma>)"
proof -
  let ?cur = "mp_claimed \<sigma>"
  have n: "i64 (int (2 ^ 64 - 1)) = -1" by (simp add: i64_as_mod)
  have wraps: "i64 (?cur - 1) = ?cur - 1" "i64 ?cur = ?cur" "i64 (?cur + 1) = ?cur + 1"
    "free_slots (ring_buffer \<sigma>) ?cur (rear (consumers \<sigma>)) = rear (consumers \<sigma>) - ?cur + mp_capacity \<sigma>"
    using assms(1,2) by (auto simp: mp_ok_def in_i64_iff no_wrap intro!: i64_id)
  have "get_after (consumer_barrier p) (consumers \<sigma>) ?cur = rear (consumers \<sigma>)"
    using assms(3) by (simp add: mp_sees_def)
  then obtain p1 where room: "mp_check_room get_after (-1) ?cur (?cur - 1) \<sigma> p = Inr p1"
    using wraps assms(1) by (cases "sequence_clear_of_consumers p < ?cur - 1")
      (auto simp: mp_check_room_def Let_def mp_ok_def)
  have swap: "mp_compare_exchange ?cur (?cur - 1) (producer_barrier \<sigma>)
      = (Inr ?cur, producer_barrier (mp_moved (?cur - 1) \<sigma>))"
    by (simp add: mp_compare_exchange_Inr) (simp add: mp_moved_def)
  have claim: "mp_next_sequences get_after (\<lambda>_ \<sigma>. \<sigma>) 0 (2 ^ 64 - 1) p \<sigma> =
      Some (Inr (?cur - 1), p1\<lparr>claimed_sequence := ?cur - 1\<rparr>, mp_moved (?cur - 1) \<sigma>, 3)"
    using room swap wraps
    by (simp only: mp_next_sequences_def n Let_def)
      (simp add: mp_claim_loop.simps [of get_after _ "Suc 0"] Let_def mp_moved_barrier)
  have upd: "run_updates updates rb (batch_iter_new (?cur + 1) (?cur - 1)) = (rb, batch_iter_new (?cur + 1) (?cur - 1))"
    for rb :: "'b ring_buffer" by (rule run_updates_empty) (simp add: batch_iter_new_def)
  have none: "publish_range_relaxed s (-1) b = b" for s b
    by (simp add: publish_range_relaxed_def split_def Let_def)
  have same: "(mp_moved s \<sigma>)\<lparr>ring_buffer := ring_buffer \<sigma>, producer_barrier := producer_barrier (mp_moved s \<sigma>)\<rparr>
      = mp_moved s \<sigma>" for s
    by (simp add: mp_moved_def)
  have "mp_apply_updates (\<lambda>_ \<sigma>. \<sigma>) t (2 ^ 64 - 1) updates (p1\<lparr>claimed_sequence := ?cur - 1\<rparr>) (mp_moved (?cur - 1) \<sigma>)
      = (?cur - 1, mp_moved (?cur - 1) \<sigma>)" for t
    by (simp only: mp_apply_updates_def n Let_def) (simp add: wraps upd none same)
  with claim show ?thesis by (simp add: mp_try_batch_publish_def)
qed

lemma mp_try_publish_again:
  assumes ok: "mp_ok rear \<sigma>" "0 \<le> mp_claimed \<sigma>" and sees: "mp_sees get_after (consumer_barrier q) rear"
  shows "\<exists>q' \<sigma>'. mp_try_publish get_after (\<lambda>_ \<sigma>. \<sigma>) update q (mp_moved (mp_claimed \<sigma> - 1) \<sigma>)
      = Some (Inr (mp_claimed \<sigma>), q', \<sigma>')
    \<and> ring_buffer \<sigma>' = update_at (ring_buffer \<sigma>) (ring_get (ring_buffer \<sigma>) (mp_claimed \<sigma>)) update
    \<and> producer_barrier \<sigma>' = mp_publish (mp_claimed \<sigma>) (producer_barrier (mp_moved (mp_claimed \<sigma>) \<sigma>))"
proof -
  let ?c = "mp_claimed \<sigma>"
  let ?re = "mp_moved (?c - 1) \<sigma>"
  have wraps: "i64 ?c = ?c" using ok by (intro i64_id) (auto simp: mp_ok_def in_i64_iff)
  have "mp_check_room get_after n cur nxt ?re q = mp_check_room get_after n cur nxt \<sigma> q" for n cur nxt
    by (simp add: mp_check_room_def)
  then obtain q1 where room: "mp_check_room get_after 1 (?c - 1) ?c ?re q = Inr q1"
    using mp_check_room_eq [OF ok(1), of "?c - 1" 1 get_after q] ok sees by (auto simp: mp_ok_def split: if_splits)
  have again: "mp_moved ?c ?re = mp_moved ?c \<sigma>" by (simp add: mp_moved_def cursor_store_def)
  have moved: "?re\<lparr>producer_barrier := producer_barrier (mp_moved ?c \<sigma>)\<rparr> = mp_moved ?c \<sigma>" by (simp add: mp_moved_def)
  have swap: "mp_compare_exchange (?c - 1) ?c (producer_barrier ?re) = (Inr (?c - 1), producer_barrier (mp_moved ?c ?re))"
    by (simp add: mp_compare_exchange_Inr) (simp add: mp_moved_def)
  have "mp_next_sequences get_after (\<lambda>_ \<sigma>. \<sigma>) 0 1 q ?re =
      Some (Inr ?c, q1\<lparr>claimed_sequence := ?c\<rparr>, mp_moved ?c \<sigma>, 3)"
    using room swap wraps
    by (simp add: mp_next_sequences_def mp_claim_loop.simps [of get_after _ "Suc 0"] Let_def moved again
        i64_id [of 1] in_i64_iff)
  then show ?thesis by (simp add: mp_try_publish_def mp_apply_update_def Let_def)
qed

lemma mp_available_cursor: "mp_available (b\<lparr>mp_cursor := c\<rparr>) s = mp_available b s"
  by (simp add: mp_available_def mp_shown_def slot_index_def calculate_availability_flag_def)

lemma mp_published_last:
  assumes pub: "mp_published rear \<sigma>" and some: "0 \<le> mp_claimed \<sigma>"
  shows "mp_available (producer_barrier \<sigma>) (mp_claimed \<sigma>)"
proof -
  let ?b = "producer_barrier \<sigma>" and ?c = "mp_claimed \<sigma>" and ?lo = "rear (consumers \<sigma>) + 1"
  have rep: "mp_represents ?b ?lo {0..?c}" and c: "?c \<le> ?lo - 1 + mp_size ?b" "?lo - 1 \<le> ?c"
    using pub by (simp_all add: mp_published_def mp_ok_def)
  then have wf: "wf_mp ?b" by (simp add: mp_represents_def)
  show ?thesis
  proof (cases "?lo \<le> ?c")
    case True
    with rep c some show ?thesis by (auto simp: mp_represents_def)
  next
    case False
    then have "?c = ?lo - 1" using c(2) by simp
    then have "\<not> mp_available ?b (?c + mp_size ?b)" using rep by (auto simp: mp_represents_def)
    with mp_available_lap [OF wf] show ?thesis by blast
  qed
qed

text \<open>The first handle has published one event.\<close>

definition ex_one :: "(int, cursors) mp_shared" where
  "ex_one = (case mp_try_publish uni_consumer_get_after (\<lambda>_ \<sigma>. \<sigma>) (\<lambda>_. 7) ex_handle ex_shared of Some (r, p, \<sigma>) \<Rightarrow> \<sigma>)"

lemma ex_one_facts: "mp_published ex_rear ex_one" "mp_claimed ex_one = 0"
proof -
  have "mp_ok ex_rear ex_shared" using ex_shared_facts(1) .
  note offer = mp_bounded_offer [OF this, of "[7]" 1]
  obtain r p \<sigma> where run: "mp_try_publish uni_consumer_get_after (\<lambda>_ \<sigma>. \<sigma>) (\<lambda>_. 7) ex_handle ex_shared = Some (r, p, \<sigma>)"
    using mp_try_publish_refines [OF ex_shared_facts(4,2,3), of "\<lambda>_. 7"] by (fastforce split: option.splits)
  have "mp_published ex_rear ex_one \<and> mp_claimed ex_one = 0"
    using mp_try_publish_refines [OF ex_shared_facts(4,2,3), of "\<lambda>_. 7"] offer run
    by (cases r) (auto simp: ex_one_def split: ring_buffer_full.splits)
  then show "mp_published ex_rear ex_one" "mp_claimed ex_one = 0" by simp_all
qed

text \<open>
  C40. \<open>n as i64\<close> wraps. Run alone, in any state in which everything claimed is published, \<open>try_batch_publish\<close>
  accepts a batch of \<open>usize::MAX\<close> events and moves the shared claim cursor one step back. The next
  publication, through any handle, then claims the last published sequence a second time: it overwrites
  that event and flips its availability bit back, so that it is no longer published.
\<close>

theorem mp_batch_of_usize_MAX_rewinds:
  assumes pub: "mp_published rear \<sigma>" and some: "0 \<le> mp_claimed \<sigma>"
    and sees: "mp_sees get_after (consumer_barrier p) rear" "mp_sees get_after (consumer_barrier q) rear"
  shows "\<exists>p' q' \<sigma>'. mp_try_batch_publish get_after (\<lambda>_ \<sigma>. \<sigma>) (2 ^ 64 - 1) updates p \<sigma>
      = Some (Inr (mp_claimed \<sigma> - 1), p', mp_moved (mp_claimed \<sigma> - 1) \<sigma>)
    \<and> mp_try_publish get_after (\<lambda>_ \<sigma>. \<sigma>) update q (mp_moved (mp_claimed \<sigma> - 1) \<sigma>) = Some (Inr (mp_claimed \<sigma>), q', \<sigma>')
    \<and> ring_read (ring_buffer \<sigma>') (mp_claimed \<sigma>) = update (ring_read (ring_buffer \<sigma>) (mp_claimed \<sigma>))
    \<and> mp_available (producer_barrier \<sigma>) (mp_claimed \<sigma>) \<and> \<not> mp_available (producer_barrier \<sigma>') (mp_claimed \<sigma>)"
proof -
  obtain p' where "mp_try_batch_publish get_after (\<lambda>_ \<sigma>. \<sigma>) (2 ^ 64 - 1) updates p \<sigma>
      = Some (Inr (mp_claimed \<sigma> - 1), p', mp_moved (mp_claimed \<sigma> - 1) \<sigma>)"
    using mp_batch_of_usize_MAX_quiet [OF _ some sees(1)] pub unfolding mp_published_def by blast
  moreover obtain q' \<sigma>' where "mp_try_publish get_after (\<lambda>_ \<sigma>. \<sigma>) update q (mp_moved (mp_claimed \<sigma> - 1) \<sigma>)
      = Some (Inr (mp_claimed \<sigma>), q', \<sigma>')"
    and "ring_buffer \<sigma>' = update_at (ring_buffer \<sigma>) (ring_get (ring_buffer \<sigma>) (mp_claimed \<sigma>)) update"
    and "producer_barrier \<sigma>' = mp_publish (mp_claimed \<sigma>) (producer_barrier (mp_moved (mp_claimed \<sigma>) \<sigma>))"
    using mp_try_publish_again [OF _ some sees(2)] pub unfolding mp_published_def by blast
  moreover have "mp_available (producer_barrier \<sigma>) (mp_claimed \<sigma>)" using mp_published_last [OF pub some] .
  moreover have "mp_available (mp_publish s (producer_barrier (mp_moved s \<sigma>))) s \<longleftrightarrow> \<not> mp_available (producer_barrier \<sigma>) s" for s
    using pub by (simp add: mp_published_def mp_represents_def mp_moved_def wf_mp_def mp_available_publish mp_available_cursor)
  moreover have "ring_read (update_at rb (ring_get rb s) update) s = update (ring_read rb s)" if "wf_ring rb" for rb s
    using ring_read_update [OF that, of s update s] by simp
  ultimately show ?thesis using pub unfolding mp_published_def mp_ok_def by fastforce
qed

theorem mp_batch_of_usize_MAX_rewinds_witness:
  "mp_claimed ex_one = 0 \<and> (\<exists>q' \<sigma>'. mp_try_publish uni_consumer_get_after (\<lambda>_ \<sigma>. \<sigma>) (\<lambda>_. 8) ex_handle (mp_moved (-1) ex_one)
      = Some (Inr 0, q', \<sigma>') \<and> ring_read (ring_buffer \<sigma>') 0 = 8)"
proof -
  have c: "mp_claimed ex_one = 0" by (simp add: ex_one_facts)
  from mp_batch_of_usize_MAX_rewinds [OF ex_one_facts(1) _ ex_shared_facts(3) ex_shared_facts(3), of "[]" "\<lambda>_. 8"]
  show ?thesis unfolding c by fastforce
qed

end
