(* ===== verification/Managed_Consumer.thy ===== *)
theory Managed_Consumer
  imports Ring_Buffer Barriers
begin

text \<open>
  The managed consumer thread (\<open>src/consumer/managed.rs\<close>) and its wait strategies
  (\<open>src/_periphery/wait_strategies.rs\<close>): the wait for events or shutdown, the inner loop over a batch,
  and the loop of the thread. The lemmas show when the wait ends and with what, that the handler is
  called once for every sequence, in order and with the end-of-batch mark on the last of each batch,
  and that the thread ends exactly with the shutdown mark, having handled everything before it.

  The thread reads memory that others write: \<open>ms t\<close>, \<open>sd t\<close> and \<open>rbs t\<close> are what its barrier, the
  shutdown mark and the ring hold at its \<open>t\<close>-th look at the barrier.
\<close>

section \<open>Wait strategies\<close>

datatype wait_strategy = BusySpin | BusySpinWithSpinLoopHint

fun wait_for :: "wait_strategy \<Rightarrow> sequence \<Rightarrow> unit" where
  "wait_for BusySpin s = ()"
| "wait_for BusySpinWithSpinLoopHint s = ()"

section \<open>The thread\<close>

text \<open>
  \<open>wait_for_events\<close>, with the number of looks it took. The outer \<open>None\<close> is a wait that never ends.
\<close>

partial_function (option) wait_for_events :: "('m \<Rightarrow> sequence \<Rightarrow> sequence) \<Rightarrow> (nat \<Rightarrow> 'm)
    \<Rightarrow> (nat \<Rightarrow> sequence) \<Rightarrow> wait_strategy \<Rightarrow> nat \<Rightarrow> sequence \<Rightarrow> (sequence option \<times> nat) option" where
  "wait_for_events get_after ms sd wait_strategy t sequence =
     (let available = get_after (ms t) sequence
      in if available < sequence
         then if sd t = sequence then Some (None, t)
              else (case wait_for wait_strategy sequence of () \<Rightarrow>
                wait_for_events get_after ms sd wait_strategy (Suc t) sequence)
         else Some (Some available, t))"

text \<open>
  An event handler is an \<open>FnMut(&E, Sequence, bool)\<close>: its captured state \<open>'h\<close>, or the state \<open>S\<close> of
  \<open>start_processor_with_state\<close>, is threaded through the calls.
\<close>

type_synonym ('h, 'e) handler = "'h \<Rightarrow> 'e \<Rightarrow> sequence \<Rightarrow> bool \<Rightarrow> 'h"

text \<open>\<open>while available >= sequence\<close>\<close>

partial_function (option) process_batch :: "('h, 'e) handler \<Rightarrow> 'e ring_buffer \<Rightarrow> sequence \<Rightarrow> sequence
    \<Rightarrow> 'h \<Rightarrow> (sequence \<times> 'h) option" where
  "process_batch event_handler rb available sequence h =
     (if available \<ge> sequence
      then let end_of_batch = (available = sequence);
               event = read_at rb (ring_get_ref rb sequence)
           in process_batch event_handler rb available (i64 (sequence + 1))
                (event_handler h event sequence end_of_batch)
      else Some (sequence, h))"

text \<open>The closure given to \<open>spawn\<close>, from its loop on; the result is the handler's and the cursor's state.\<close>

partial_function (option) processor_loop :: "('m \<Rightarrow> sequence \<Rightarrow> sequence) \<Rightarrow> (nat \<Rightarrow> 'm)
    \<Rightarrow> (nat \<Rightarrow> sequence) \<Rightarrow> (nat \<Rightarrow> 'e ring_buffer) \<Rightarrow> wait_strategy \<Rightarrow> ('h, 'e) handler
    \<Rightarrow> nat \<Rightarrow> sequence \<Rightarrow> 'h \<Rightarrow> cursor \<Rightarrow> ('h \<times> cursor) option" where
  "processor_loop get_after ms sd rbs wait_strategy event_handler t sequence h consumer_cursor =
     Option.bind (wait_for_events get_after ms sd wait_strategy t sequence)
       (\<lambda>(r, t'). case r of
          None \<Rightarrow> Some (h, consumer_cursor)
        | Some available \<Rightarrow>
            Option.bind (process_batch event_handler (rbs t') available sequence h)
              (\<lambda>(sequence', h'). processor_loop get_after ms sd rbs wait_strategy event_handler
                 (Suc t') sequence' h' (cursor_store (i64 (sequence' - 1)) consumer_cursor)))"

definition processor :: "('m \<Rightarrow> sequence \<Rightarrow> sequence) \<Rightarrow> (nat \<Rightarrow> 'm) \<Rightarrow> (nat \<Rightarrow> sequence)
    \<Rightarrow> (nat \<Rightarrow> 'e ring_buffer) \<Rightarrow> wait_strategy \<Rightarrow> ('h, 'e) handler \<Rightarrow> 'h \<Rightarrow> ('h \<times> cursor) option" where
  "processor get_after ms sd rbs wait_strategy event_handler h =
     processor_loop get_after ms sd rbs wait_strategy event_handler 0 0 h (cursor_new NONE)"

text \<open>\<open>start_processor_with_state\<close>: the state is made on the thread, before its loop.\<close>

definition processor_with_state :: "('m \<Rightarrow> sequence \<Rightarrow> sequence) \<Rightarrow> (nat \<Rightarrow> 'm) \<Rightarrow> (nat \<Rightarrow> sequence)
    \<Rightarrow> (nat \<Rightarrow> 'e ring_buffer) \<Rightarrow> wait_strategy \<Rightarrow> ('s, 'e) handler \<Rightarrow> (unit \<Rightarrow> 's) \<Rightarrow> ('s \<times> cursor) option" where
  "processor_with_state get_after ms sd rbs wait_strategy event_handler initialize_state =
     (let state = initialize_state ()
      in processor_loop get_after ms sd rbs wait_strategy event_handler 0 0 state (cursor_new (-1)))"

section \<open>A batch\<close>

text \<open>The calls of the handler for the sequences of a batch, as a list.\<close>

definition batch_calls :: "'e ring_buffer \<Rightarrow> sequence \<Rightarrow> sequence \<Rightarrow> ('e \<times> sequence \<times> bool) list" where
  "batch_calls rb sequence available =
     map (\<lambda>q. (ring_read rb q, q, q = available)) [sequence..available]"

definition run_calls :: "('h, 'e) handler \<Rightarrow> ('e \<times> sequence \<times> bool) list \<Rightarrow> 'h \<Rightarrow> 'h" where
  "run_calls event_handler calls h = fold (\<lambda>(e, q, eob) h. event_handler h e q eob) calls h"

lemma process_batch_eq:
  assumes "0 \<le> sequence" "available < 2 ^ 62" "sequence \<le> available + 1"
  shows "process_batch event_handler rb available sequence h =
    Some (available + 1, run_calls event_handler (batch_calls rb sequence available) h)"
  using assms
proof (induction "nat (available + 1 - sequence)" arbitrary: sequence h)
  case 0
  then show ?case
    by (simp add: process_batch.simps [of event_handler rb available sequence] run_calls_def batch_calls_def)
next
  case (Suc d)
  then have le: "sequence \<le> available" by simp
  have wrap: "i64 (sequence + 1) = sequence + 1"
    using Suc.prems le by (intro i64_id) (simp add: in_i64_iff)
  have "process_batch event_handler rb available (sequence + 1) h' =
      Some (available + 1, run_calls event_handler (batch_calls rb (sequence + 1) available) h')" for h'
    using Suc.hyps(2) Suc.prems le by (intro Suc.hyps(1)) auto
  then show ?case
    using le by (auto simp: process_batch.simps [of event_handler rb available sequence] wrap Let_def
        run_calls_def batch_calls_def upto_rec1 [of sequence available] ring_read_def
        eq_commute [of available sequence])
qed

section \<open>The wait\<close>

text \<open>A barrier as the thread waits on it.\<close>

locale waited_barrier = barrier
begin

lemma wait_ends:
  assumes "\<forall>t\<ge>t0. ready (ms t) sequence" "\<forall>t. t0 \<le> t \<and> t < t0 + d \<longrightarrow> \<not> available (ms t) sequence \<and> sd t \<noteq> sequence"
    and "available (ms (t0 + d)) sequence \<or> sd (t0 + d) = sequence"
  shows "wait_for_events get_after ms sd w t0 sequence =
    Some (if available (ms (t0 + d)) sequence then Some (get_after (ms (t0 + d)) sequence) else None, t0 + d)"
  using assms
proof (induction d arbitrary: t0)
  case 0
  then show ?case
    using none_iff [of "ms t0" sequence]
    by (auto simp: wait_for_events.simps [of get_after ms sd w t0] Let_def not_less)
next
  case (Suc d)
  then have "\<not> available (ms t0) sequence" "sd t0 \<noteq> sequence" by auto
  then have "wait_for_events get_after ms sd w t0 sequence = wait_for_events get_after ms sd w (Suc t0) sequence"
    using none_iff [of "ms t0" sequence] Suc.prems(1)
    by (simp add: wait_for_events.simps [of get_after ms sd w t0] Let_def split: unit.split)
  moreover have "wait_for_events get_after ms sd w (Suc t0) sequence =
      Some (if available (ms (Suc t0 + d)) sequence then Some (get_after (ms (Suc t0 + d)) sequence) else None, Suc t0 + d)"
    using Suc.prems by (intro Suc.IH) auto
  ultimately show ?case by simp
qed

lemma wait_diverges:
  assumes "\<forall>t\<ge>t0. ready (ms t) sequence" "\<forall>t\<ge>t0. \<not> available (ms t) sequence \<and> sd t \<noteq> sequence"
  shows "wait_for_events get_after ms sd w t0 sequence = None"
proof (rule ccontr)
  assume "wait_for_events get_after ms sd w t0 sequence \<noteq> None"
  then obtain r where run: "wait_for_events get_after ms sd w t0 sequence = Some r" by auto
  let ?P = "\<lambda>ga m s x t q r. ga = get_after \<and> m = ms \<and> s = sd \<and> q = sequence \<longrightarrow> \<not> t0 \<le> t"
  have "?P get_after ms sd w t0 sequence r"
  proof (rule wait_for_events.raw_induct [where P = ?P, OF _ run], goal_cases)
    case (1 loop ga m s x t q r)
    show ?case
    proof (intro impI notI, elim conjE)
      assume same: "ga = get_after" "m = ms" "s = sd" "q = sequence" and t: "t0 \<le> t"
      have "get_after (ms t) sequence < sequence" "sd t \<noteq> sequence"
        using assms t none_iff [of "ms t" sequence] by auto
      with 1(2) same have "loop ga m s x (Suc t) q = Some r" by (simp add: Let_def split: unit.splits)
      from 1(1) [OF this] same t show False by simp
    qed
  qed
  then show False by simp
qed

lemma wait_first:
  assumes ready: "\<forall>t\<ge>t0. ready (ms t) sequence" and some: "\<exists>t\<ge>t0. available (ms t) sequence \<or> sd t = sequence"
  obtains t where "t0 \<le> t" "available (ms t) sequence \<or> sd t = sequence"
    "wait_for_events get_after ms sd w t0 sequence =
      Some (if available (ms t) sequence then Some (get_after (ms t) sequence) else None, t)"
proof -
  let ?stop = "\<lambda>d. available (ms (t0 + d)) sequence \<or> sd (t0 + d) = sequence"
  from some obtain t where "t0 \<le> t" "available (ms t) sequence \<or> sd t = sequence" by blast
  then have "?stop (t - t0)" by simp
  then obtain d where d: "?stop d" "\<forall>e < d. \<not> ?stop e"
    using exists_least_iff [of ?stop] by blast
  have "\<forall>t. t0 \<le> t \<and> t < t0 + d \<longrightarrow> \<not> available (ms t) sequence \<and> sd t \<noteq> sequence"
  proof (intro allI impI)
    fix t assume "t0 \<le> t \<and> t < t0 + d"
    then have "t - t0 < d" "t = t0 + (t - t0)" by auto
    with d(2) show "\<not> available (ms t) sequence \<and> sd t \<noteq> sequence" by metis
  qed
  from wait_ends [OF ready this d(1), of w] d(1) that [of "t0 + d"] show thesis by simp
qed

text \<open>
  The wait returns exactly if at some look there is an event or the shutdown mark, and what it
  returned tells what is in memory at its last look.
\<close>

lemma wait_returns_iff:
  assumes ready: "\<forall>t\<ge>t0. ready (ms t) sequence"
  shows "(\<exists>r. wait_for_events get_after ms sd w t0 sequence = Some r) \<longleftrightarrow>
    (\<exists>t\<ge>t0. available (ms t) sequence \<or> sd t = sequence)"
proof
  assume ret: "\<exists>r. wait_for_events get_after ms sd w t0 sequence = Some r"
  show "\<exists>t\<ge>t0. available (ms t) sequence \<or> sd t = sequence"
  proof (rule ccontr)
    assume "\<not> ?thesis"
    then have "wait_for_events get_after ms sd w t0 sequence = None"
      by (intro wait_diverges [OF ready]) auto
    with ret show False by simp
  qed
next
  assume "\<exists>t\<ge>t0. available (ms t) sequence \<or> sd t = sequence"
  then show "\<exists>r. wait_for_events get_after ms sd w t0 sequence = Some r"
    by (rule wait_first [OF ready]) blast
qed

lemma wait_result:
  assumes ready: "\<forall>t\<ge>t0. ready (ms t) sequence" and run: "wait_for_events get_after ms sd w t0 sequence = Some (r, t)"
  shows "t0 \<le> t \<and> (case r of
      None \<Rightarrow> sd t = sequence \<and> \<not> available (ms t) sequence
    | Some a \<Rightarrow> a = get_after (ms t) sequence \<and> sequence \<le> a)"
proof -
  have "\<exists>t\<ge>t0. available (ms t) sequence \<or> sd t = sequence"
    using run wait_returns_iff [OF ready, of sd w] by blast
  then show ?thesis
    using run some_iff ready by (rule_tac wait_first [OF ready, of sd w]) auto
qed

section \<open>The thread\<close>

text \<open>
  A run of the thread as the batches it handled: the look at which each was found, its first and its
  last sequence.
\<close>

lemma processor_loop_ends:
  assumes keep: "\<forall>t q. ready (ms t) q \<longrightarrow> ready (ms (Suc t)) q"
    and move: "\<forall>t q. ready (ms t) q \<and> available (ms t) q \<longrightarrow> ready (ms (Suc t)) (get_after (ms t) q + 1)"
    and start: "ready (ms t) s" and N: "0 \<le> N" "N < 2 ^ 62"
    and marks: "\<forall>t. sd t = N \<or> sd t < 0" and below: "\<forall>t q. available (ms t) q \<longrightarrow> q < N"
    and final: "\<forall>t\<ge>T. sd t = N" "\<forall>t\<ge>T. \<forall>q<N. available (ms t) q"
    and s: "0 \<le> s" "s \<le> N"
  shows "\<exists>bs c'. processor_loop get_after ms sd rbs w handler t s h c =
      Some (run_calls handler (concat (map (\<lambda>(t, lo, hi). batch_calls (rbs t) lo hi) bs)) h, c')
    \<and> map (\<lambda>(e, q, eob). q) (concat (map (\<lambda>(t, lo, hi). batch_calls (rbs t) lo hi) bs)) = [s..N - 1]
    \<and> (\<forall>(t', lo, hi)\<in>set bs. t \<le> t' \<and> lo \<le> hi \<and> hi = get_after (ms t') lo)
    \<and> relaxed_value c' = (if s < N then N - 1 else relaxed_value c)"
  using s start
proof (induction "nat (N - s)" arbitrary: s t h c rule: less_induct)
  case less
  have ready: "ready (ms u) s" if "t \<le> u" for u
    using that by (induction rule: dec_induct) (use less.prems keep in auto)
  then have waits: "\<forall>u\<ge>t. ready (ms u) s" by blast
  show ?case
  proof (cases "s = N")
    case True
    have none: "\<not> available (ms t) s" for t using below True by auto
    moreover have "\<exists>t'\<ge>t. available (ms t') s \<or> sd t' = s"
      using final(1) True by (intro exI [of _ "max t T"]) simp
    then obtain t' where "wait_for_events get_after ms sd w t s = Some (None, t')"
      using none by (rule_tac wait_first [OF waits, of sd w]) auto
    then have "processor_loop get_after ms sd rbs w handler t s h c = Some (h, c)"
      by (simp add: processor_loop.simps [of get_after ms sd rbs w handler t])
    with True show ?thesis by (intro exI [of _ "[]"]) (simp add: run_calls_def)
  next
    case False
    with less.prems have lt: "s < N" by simp
    have "\<exists>t'\<ge>t. available (ms t') s \<or> sd t' = s"
      using final(2) lt by (intro exI [of _ "max t T"]) simp
    then obtain t' where t': "t \<le> t'" "available (ms t') s \<or> sd t' = s"
      "wait_for_events get_after ms sd w t s =
        Some (if available (ms t') s then Some (get_after (ms t') s) else None, t')"
      by (rule_tac wait_first [OF waits, of sd w]) auto
    have "sd t' \<noteq> s" using marks [rule_format, of t'] lt less.prems by auto
    with t' have av: "available (ms t') s" by simp
    let ?a = "get_after (ms t') s"
    have le: "s \<le> ?a" using av some_iff ready t'(1) by blast
    have "available (ms t') ?a" using sound [of "ms t'" s ?a] ready [OF t'(1)] le by simp
    with below have a: "?a < N" by blast
    let ?h = "run_calls handler (batch_calls (rbs t') s ?a) h"
    have "process_batch handler (rbs t') ?a s h = Some (?a + 1, ?h)"
      using less.prems le a N by (intro process_batch_eq) auto
    then have step: "processor_loop get_after ms sd rbs w handler t s h c
        = processor_loop get_after ms sd rbs w handler (Suc t') (?a + 1) ?h (cursor_store ?a c)"
      using t'(3) av le a less.prems N
      by (simp add: processor_loop.simps [of get_after ms sd rbs w handler t] i64_id in_i64_iff)
    have "nat (N - (?a + 1)) < nat (N - s)" using le a by simp
    moreover have "ready (ms (Suc t')) (?a + 1)" using move ready [OF t'(1)] av by blast
    moreover note less.hyps [of "?a + 1" "Suc t'" ?h "cursor_store ?a c"] le a less.prems(1)
    ultimately
    obtain bs c' where IH: "processor_loop get_after ms sd rbs w handler (Suc t') (?a + 1) ?h (cursor_store ?a c) =
        Some (run_calls handler (concat (map (\<lambda>(t, lo, hi). batch_calls (rbs t) lo hi) bs)) ?h, c')"
      "map (\<lambda>(e, q, eob). q) (concat (map (\<lambda>(t, lo, hi). batch_calls (rbs t) lo hi) bs)) = [?a + 1..N - 1]"
      "\<forall>(u, lo, hi)\<in>set bs. Suc t' \<le> u \<and> lo \<le> hi \<and> hi = get_after (ms u) lo"
      "relaxed_value c' = (if ?a + 1 < N then N - 1 else ?a)" by auto
    have "map (\<lambda>(e, q, eob). q) (batch_calls (rbs t') s ?a) = [s..?a]"
      by (simp add: batch_calls_def comp_def)
    moreover have "[s..N - 1] = [s..?a] @ [?a + 1..N - 1]"
      using le a upto_append [of s "?a + 1" "N - 1"] by simp
    ultimately show ?thesis
      using IH step le a t'(1) lt
      by (intro exI [of _ "(t', s, ?a) # bs"] exI [of _ c']) (auto simp: run_calls_def)
  qed
qed

end

end
