(* ===== verification/Consumer_Threads.thy ===== *)
theory Consumer_Threads
  imports Uni_Producer Multi_Producer Managed_Consumer
begin

text \<open>
  The managed consumer thread of \<open>Managed_Consumer\<close> behind each kind of barrier: what its loop returns
  behind a single producer and behind a group of consumers, and that it never ends behind a multi
  producer that leaves a claimed sequence unpublished.
\<close>

section \<open>Behind a single producer\<close>

interpretation uni_wait: waited_barrier uni_barrier_get_after "\<lambda>b s. s \<le> relaxed_value b" "\<lambda>_ _. True"
  by unfold_locales

text \<open>The handler's calls of a run given by its batches: the look, the first and the last sequence.\<close>

definition calls_of :: "(nat \<Rightarrow> 'e ring_buffer) \<Rightarrow> (nat \<times> sequence \<times> sequence) list \<Rightarrow> ('e \<times> sequence \<times> bool) list" where
  "calls_of rbs bs = concat (map (\<lambda>(t, lo, hi). batch_calls (rbs t) lo hi) bs)"

text \<open>
  C26. A consumer thread behind a single producer returns, under any stale loads, once the published
  cursor and the shutdown mark have become visible: its handler has then been called for every
  sequence below the mark, exactly once and in order, in batches that reach as far as the cursor
  it saw and whose last call alone carries the end-of-batch flag, and its own cursor stands at the
  last sequence.
\<close>

theorem processor_handles_all:
  assumes N: "0 \<le> N" "N < 2 ^ 62" and marks: "\<forall>t. sd t = N \<or> sd t < 0"
    and below: "\<forall>t. relaxed_value (ms t) < N" and final: "\<forall>t\<ge>T. sd t = N \<and> relaxed_value (ms t) = N - 1"
  shows "\<exists>bs c'. processor uni_barrier_get_after ms sd rbs w handler h = Some (run_calls handler (calls_of rbs bs) h, c')
    \<and> map (\<lambda>(e, q, eob). q) (calls_of rbs bs) = [0..N - 1]
    \<and> (\<forall>(t, lo, hi)\<in>set bs. lo \<le> hi \<and> hi = relaxed_value (ms t))
    \<and> relaxed_value c' = N - 1"
proof -
  have "\<exists>bs c'. processor_loop uni_barrier_get_after ms sd rbs w handler 0 0 h (cursor_new NONE) =
      Some (run_calls handler (concat (map (\<lambda>(t, lo, hi). batch_calls (rbs t) lo hi) bs)) h, c')
    \<and> map (\<lambda>(e, q, eob). q) (concat (map (\<lambda>(t, lo, hi). batch_calls (rbs t) lo hi) bs)) = [0..N - 1]
    \<and> (\<forall>(t', lo, hi)\<in>set bs. 0 \<le> t' \<and> lo \<le> hi \<and> hi = uni_barrier_get_after (ms t') lo)
    \<and> relaxed_value c' = (if 0 < N then N - 1 else relaxed_value (cursor_new NONE))"
    by (rule uni_wait.processor_loop_ends [where T = T])
      (use assms in \<open>auto intro: le_less_trans\<close>)
  then show ?thesis
    using N by (fastforce simp: processor_def calls_of_def uni_barrier_get_after_def cursor_new_def
        relaxed_value_def NONE_def split: if_splits)
qed


text \<open>Two looks at the cursor before the producer is done with four events.\<close>

definition ex_looks :: "nat \<Rightarrow> cursor" where
  "ex_looks t = cursor_new (if t = 0 then -1 else if t = 1 then 1 else 3)"

definition ex_marks :: "nat \<Rightarrow> sequence" where
  "ex_marks t = (if t < 3 then -1 else 4)"

theorem processor_handles_all_witness:
  "\<exists>bs c'. processor uni_barrier_get_after ex_looks ex_marks (\<lambda>_. ex_ring) BusySpin
      (\<lambda>h e q eob. h @ [(q, e)]) [] = Some (run_calls (\<lambda>h e q eob. h @ [(q, e)]) (calls_of (\<lambda>_. ex_ring) bs) [], c')
    \<and> map (\<lambda>(e, q, eob). q) (calls_of (\<lambda>_. ex_ring) bs) = [0..3] \<and> relaxed_value c' = 3"
  using processor_handles_all [of 4 ex_marks ex_looks 3 "\<lambda>_. ex_ring" BusySpin "\<lambda>h e q eob. h @ [(q, e)]" "[]"]
  by (fastforce simp: ex_marks_def ex_looks_def cursor_new_def relaxed_value_def)

section \<open>Behind a group of consumers\<close>

interpretation group_wait: waited_barrier "multi_consumer_get_after b" "passed (mc_cursors b)"
  "\<lambda>cs _. group_ready (mc_cursors b) cs" for b
  by unfold_locales

text \<open>
  A stateful consumer thread behind a group of consumers, whose cursors it may see at any earlier
  value, likewise returns once all of them have ended: its state, made on the thread, has been
  passed through one call for every sequence, in order, and no call ran ahead of a consumer of the
  group as the thread saw it.
\<close>

theorem stateful_processor_handles_all:
  assumes N: "0 \<le> N" "N < 2 ^ 62" and group: "mc_cursors b \<noteq> []" and marks: "\<forall>t. sd t = N \<or> sd t < 0"
    and below: "\<forall>t. \<forall>a\<in>set (mc_cursors b). relaxed_value (ms t a) < N"
    and final: "\<forall>t\<ge>T. sd t = N \<and> (\<forall>a\<in>set (mc_cursors b). relaxed_value (ms t a) = N - 1)"
  shows "\<exists>bs c'. processor_with_state (multi_consumer_get_after b) ms sd rbs w handler initialize_state
      = Some (run_calls handler (calls_of rbs bs) (initialize_state ()), c')
    \<and> map (\<lambda>(e, q, eob). q) (calls_of rbs bs) = [0..N - 1]
    \<and> (\<forall>(t, lo, hi)\<in>set bs. lo \<le> hi \<and> (\<forall>a\<in>set (mc_cursors b). hi \<le> relaxed_value (ms t a)))
    \<and> relaxed_value c' = N - 1"
proof -
  have ready: "group_ready (mc_cursors b) (ms t)" for t
    unfolding group_ready_def
  proof (intro conjI ballI group)
    fix a assume "a \<in> set (mc_cursors b)"
    then have "relaxed_value (ms t a) < N" using below by blast
    with N show "relaxed_value (ms t a) \<le> i64_MAX" by (simp add: i64_MAX_def)
  qed
  have behind: "q < N" if "passed (mc_cursors b) (ms t) q" for t q
  proof -
    have "hd (mc_cursors b) \<in> set (mc_cursors b)" using group by simp
    moreover from this have "relaxed_value (ms t (hd (mc_cursors b))) < N" using below by blast
    ultimately show ?thesis using that unfolding passed_def by (meson order_le_less_trans)
  qed
  have "\<exists>bs c'. processor_loop (multi_consumer_get_after b) ms sd rbs w handler 0 0 (initialize_state ()) (cursor_new (-1)) =
      Some (run_calls handler (concat (map (\<lambda>(t, lo, hi). batch_calls (rbs t) lo hi) bs)) (initialize_state ()), c')
    \<and> map (\<lambda>(e, q, eob). q) (concat (map (\<lambda>(t, lo, hi). batch_calls (rbs t) lo hi) bs)) = [0..N - 1]
    \<and> (\<forall>(t', lo, hi)\<in>set bs. 0 \<le> t' \<and> lo \<le> hi \<and> hi = multi_consumer_get_after b (ms t') lo)
    \<and> relaxed_value c' = (if 0 < N then N - 1 else relaxed_value (cursor_new (-1)))"
    by (rule group_wait.processor_loop_ends [where T = T])
      (use ready behind N marks final in \<open>auto simp: passed_def\<close>)
  then obtain bs c' where run:
    "processor_loop (multi_consumer_get_after b) ms sd rbs w handler 0 0 (initialize_state ()) (cursor_new (-1)) =
      Some (run_calls handler (calls_of rbs bs) (initialize_state ()), c')"
    "map (\<lambda>(e, q, eob). q) (calls_of rbs bs) = [0..N - 1]"
    "\<forall>(t', lo, hi)\<in>set bs. 0 \<le> t' \<and> lo \<le> hi \<and> hi = multi_consumer_get_after b (ms t') lo"
    "relaxed_value c' = (if 0 < N then N - 1 else relaxed_value (cursor_new (-1)))"
    unfolding calls_of_def by blast
  have "\<forall>(t, lo, hi)\<in>set bs. lo \<le> hi \<and> (\<forall>a\<in>set (mc_cursors b). hi \<le> relaxed_value (ms t a))"
    using run(3) multi_consumer_get_after_le by fastforce
  moreover have "relaxed_value c' = N - 1"
    using run(4) N by (simp add: cursor_new_def relaxed_value_def split: if_splits)
  ultimately show ?thesis
    using run(1,2) by (intro exI [of _ bs] exI [of _ c']) (simp add: processor_with_state_def)
qed

theorem stateful_processor_handles_all_witness:
  "\<exists>bs c'. processor_with_state (multi_consumer_get_after (MultiConsumerBarrier [0, 1]))
      (\<lambda>t a. if a = 0 then cursor_new 3 else ex_looks t) ex_marks (\<lambda>_. ex_ring) BusySpinWithSpinLoopHint
      (\<lambda>h e q eob. h + e) (\<lambda>_. 5) = Some (run_calls (\<lambda>h e q eob. h + e) (calls_of (\<lambda>_. ex_ring) bs) 5, c')
    \<and> map (\<lambda>(e, q, eob). q) (calls_of (\<lambda>_. ex_ring) bs) = [0..3] \<and> relaxed_value c' = 3"
  using stateful_processor_handles_all [of 4 "MultiConsumerBarrier [0, 1]" ex_marks
      "\<lambda>t a. if a = 0 then cursor_new 3 else ex_looks t" 3 "\<lambda>_. ex_ring" BusySpinWithSpinLoopHint
      "\<lambda>h e q eob. h + e" "\<lambda>_. 5"]
  by (fastforce simp: ex_marks_def ex_looks_def cursor_new_def relaxed_value_def)

section \<open>Behind a multi producer\<close>

interpretation mp_wait: waited_barrier "\<lambda>b prev. the (mp_get_after b prev)" mp_available
  "\<lambda>b lo. wf_mp b \<and> -1 \<le> lo \<and> lo + mp_size b < 2 ^ 63"
  by unfold_locales

text \<open>
  A claimed sequence that is never published, as after a panic in the client's closure, blocks the
  consumers for good: the last drop stores a shutdown mark beyond it, so a consumer waiting for it
  sees neither the event nor its mark, its wait never ends, and the join in the drop cannot return.
\<close>

theorem unpublished_claim_blocks_consumers:
  assumes rep: "mp_represents (producer_barrier \<sigma>) s P" and hole: "s \<notin> P" "s \<le> mp_claimed \<sigma>"
    and bounds: "mp_claimed \<sigma> < 2 ^ 62" "s + mp_size (producer_barrier \<sigma>) < 2 ^ 63"
    and drop: "live_count \<sigma> = 1" "mp_drop \<sigma> = Inr \<sigma>'"
    and marks: "\<forall>t. sd t = NONE \<or> sd t = shutdown_at_sequence \<sigma>'"
  shows "shutdown_at_sequence \<sigma>' = mp_claimed \<sigma> + 1
    \<and> wait_for_events (\<lambda>b prev. the (mp_get_after b prev)) (\<lambda>_. producer_barrier \<sigma>') sd w 0 s = None"
proof -
  have s: "0 \<le> s" "wf_mp (producer_barrier \<sigma>)" "\<not> mp_available (producer_barrier \<sigma>) s"
    using rep hole by (auto simp: mp_represents_def)
  have "i64 (mp_claimed \<sigma> + 1) = mp_claimed \<sigma> + 1"
    using s hole bounds by (intro i64_id) (simp add: in_i64_iff)
  then have mark: "shutdown_at_sequence \<sigma>' = mp_claimed \<sigma> + 1" "producer_barrier \<sigma>' = producer_barrier \<sigma>"
    using drop by (auto simp: mp_drop_def Let_def split: sum.splits)
  moreover have never: "sd t \<noteq> s" for t
    using marks [rule_format, of t] mark(1) hole(2) s(1) by (auto simp: NONE_def)
  moreover have "wait_for_events (\<lambda>b prev. the (mp_get_after b prev)) (\<lambda>_. producer_barrier \<sigma>) sd w 0 s = None"
    by (rule mp_wait.wait_diverges)
      (use s bounds never in auto)
  ultimately show ?thesis by simp
qed

theorem unpublished_claim_blocks_consumers_witness:
  "\<exists>\<sigma>'. mp_drop (mp_moved 0 ex_shared) = Inr \<sigma>' \<and> shutdown_at_sequence \<sigma>' = 1
    \<and> wait_for_events (\<lambda>b prev. the (mp_get_after b prev)) (\<lambda>_. producer_barrier \<sigma>')
        (\<lambda>t. if t < 5 then NONE else shutdown_at_sequence \<sigma>') BusySpin 0 0 = None"
proof -
  let ?\<sigma> = "mp_moved 0 ex_shared"
  have rep: "mp_represents (producer_barrier ?\<sigma>) 0 {}"
    using ex_mp_facts(4) by (simp add: mp_moved_def ex_shared_def multi_producer_new_def)
  have live: "live_count ?\<sigma> = 1" "\<forall>h\<in>set (consumer_handles ?\<sigma>). join_handle h \<noteq> Some Panicked"
    by (simp_all add: mp_moved_def ex_shared_def multi_producer_new_def consumer_handle_new_def)
  then obtain \<sigma>' where drop: "mp_drop ?\<sigma> = Inr \<sigma>'"
    using join_all_Inr [of "consumer_handles ?\<sigma>"] by (simp add: mp_drop_def Let_def)
  have "mp_size (producer_barrier ?\<sigma>) = 64"
    by (simp add: mp_moved_def ex_shared_def multi_producer_new_def ex_mp_def)
  with unpublished_claim_blocks_consumers [OF rep _ _ _ _ live(1) drop,
      of "\<lambda>t. if t < 5 then NONE else shutdown_at_sequence \<sigma>'" BusySpin] drop
  show ?thesis by (intro exI [of _ \<sigma>']) simp
qed

end
