(* ===== verification/Event_Poller.thy ===== *)
theory Event_Poller
  imports Ring_Buffer Barriers
begin

text \<open>
  The unmanaged consumer (\<open>src/consumer/unmanaged.rs\<close>): polling, the guard as an iterator over the
  events it found, and the advance of the consumer's cursor when the guard is dropped. The lemmas
  show when a poll finds events, that the guard yields exactly those, and that a series of polls
  delivers every sequence once and in order, whatever the limits and however much of each guard
  the client reads.
\<close>

section \<open>The poller and its guard\<close>

record 'b event_poller =
  dependent_barrier :: 'b
  poller_cursor :: cursor

record event_guard =
  guard_sequence :: sequence
  guard_available :: sequence

definition event_poller_new :: "'b \<Rightarrow> cursor \<Rightarrow> 'b event_poller" where
  "event_poller_new b c = \<lparr>dependent_barrier = b, poller_cursor = c\<rparr>"

text \<open>\<open>m\<close> is the memory of the barrier and \<open>shutdown\<close> the mark the poll reads.\<close>

definition poll_take :: "('b \<Rightarrow> 'm \<Rightarrow> sequence \<Rightarrow> sequence) \<Rightarrow> 'm \<Rightarrow> sequence \<Rightarrow> nat
    \<Rightarrow> 'b event_poller \<Rightarrow> polling_error + event_guard" where
  "poll_take get_after m shutdown limit p =
     (let cursor_at = relaxed_value (poller_cursor p);
          s = i64 (cursor_at + 1)
      in if s = shutdown then Inl Shutdown
         else let found = get_after (dependent_barrier p) m s
              in if found < s then Inl NoEvents
                 else let max_sequence = saturating_add_unsigned cursor_at limit
                      in Inr \<lparr>guard_sequence = s, guard_available = min found max_sequence\<rparr>)"

definition poll :: "('b \<Rightarrow> 'm \<Rightarrow> sequence \<Rightarrow> sequence) \<Rightarrow> 'm \<Rightarrow> sequence
    \<Rightarrow> 'b event_poller \<Rightarrow> polling_error + event_guard" where
  "poll get_after m shutdown p = poll_take get_after m shutdown (2 ^ 64 - 1) p"

definition guard_next :: "'e ring_buffer \<Rightarrow> event_guard \<Rightarrow> 'e option \<times> event_guard" where
  "guard_next rb g =
     (if guard_sequence g > guard_available g then (None, g)
      else (Some (read_at rb (ring_get_ref rb (guard_sequence g))), g\<lparr>guard_sequence := i64 (guard_sequence g + 1)\<rparr>))"

definition guard_len :: "event_guard \<Rightarrow> nat" where
  "guard_len g = u64 (i64 (i64 (guard_available g - guard_sequence g) + 1))"

definition guard_drop :: "event_guard \<Rightarrow> 'b event_poller \<Rightarrow> 'b event_poller" where
  "guard_drop g p = p\<lparr>poller_cursor := cursor_store (guard_available g) (poller_cursor p)\<rparr>"

text \<open>A client that calls \<open>next\<close> up to \<open>k\<close> times and stops at the first \<open>None\<close>.\<close>

fun guard_take :: "nat \<Rightarrow> 'e ring_buffer \<Rightarrow> event_guard \<Rightarrow> 'e list \<times> event_guard" where
  "guard_take 0 rb g = ([], g)"
| "guard_take (Suc k) rb g =
     (case guard_next rb g of
        (None, g') \<Rightarrow> ([], g')
      | (Some e, g') \<Rightarrow> (let (es, g'') = guard_take k rb g' in (e # es, g'')))"

section \<open>Polling\<close>

definition poller_ok :: "'b event_poller \<Rightarrow> bool" where
  "poller_ok p \<longleftrightarrow> -1 \<le> relaxed_value (poller_cursor p) \<and> relaxed_value (poller_cursor p) < 2 ^ 62"

abbreviation poller_at :: "'b event_poller \<Rightarrow> sequence" where
  "poller_at p \<equiv> relaxed_value (poller_cursor p)"

lemma poll_take_eq:
  assumes "poller_ok p"
  shows "poll_take get_after m shutdown limit p =
    (if shutdown = poller_at p + 1 then Inl Shutdown
     else if get_after (dependent_barrier p) m (poller_at p + 1) < poller_at p + 1 then Inl NoEvents
     else Inr \<lparr>guard_sequence = poller_at p + 1,
       guard_available = min (get_after (dependent_barrier p) m (poller_at p + 1))
         (saturating_add_unsigned (poller_at p) limit)\<rparr>)"
proof -
  have "i64 (poller_at p + 1) = poller_at p + 1"
    using assms by (intro i64_id) (simp add: poller_ok_def in_i64_iff)
  then show ?thesis by (auto simp: poll_take_def Let_def)
qed

text \<open>A guard fits what a poll can return: its events are within reach of the cursor.\<close>

definition guard_ok :: "event_guard \<Rightarrow> bool" where
  "guard_ok g \<longleftrightarrow> 0 \<le> guard_sequence g \<and> guard_sequence g \<le> guard_available g + 1 \<and> guard_available g < 2 ^ 62"

definition guard_events :: "'e ring_buffer \<Rightarrow> event_guard \<Rightarrow> 'e list" where
  "guard_events rb g = map (ring_read rb) [guard_sequence g..guard_available g]"

lemma guard_len_eq: "guard_ok g \<Longrightarrow> guard_len g = length (guard_events rb g)"
proof -
  assume ok: "guard_ok g"
  then have "i64 (guard_available g - guard_sequence g) = guard_available g - guard_sequence g"
    "i64 (guard_available g - guard_sequence g + 1) = guard_available g - guard_sequence g + 1"
    by (auto simp: guard_ok_def in_i64_iff intro!: i64_id)
  with ok show ?thesis by (simp add: guard_len_def guard_events_def guard_ok_def u64_nonneg)
qed

lemma guard_next_eq:
  assumes "guard_ok g"
  shows "guard_next rb g = (if guard_events rb g = [] then (None, g)
    else (Some (hd (guard_events rb g)), g\<lparr>guard_sequence := guard_sequence g + 1\<rparr>))"
    and "guard_events rb g \<noteq> [] \<Longrightarrow> guard_ok (g\<lparr>guard_sequence := guard_sequence g + 1\<rparr>)
      \<and> guard_events rb (g\<lparr>guard_sequence := guard_sequence g + 1\<rparr>) = tl (guard_events rb g)"
proof -
  have "i64 (guard_sequence g + 1) = guard_sequence g + 1" if "guard_sequence g \<le> guard_available g"
    using assms that by (intro i64_id) (simp add: guard_ok_def in_i64_iff)
  then show "guard_next rb g = (if guard_events rb g = [] then (None, g)
    else (Some (hd (guard_events rb g)), g\<lparr>guard_sequence := guard_sequence g + 1\<rparr>))"
    by (simp add: guard_next_def guard_events_def upto_rec1 [of "guard_sequence g"] ring_read_def)
  show "guard_events rb g \<noteq> [] \<Longrightarrow> guard_ok (g\<lparr>guard_sequence := guard_sequence g + 1\<rparr>)
      \<and> guard_events rb (g\<lparr>guard_sequence := guard_sequence g + 1\<rparr>) = tl (guard_events rb g)"
    using assms by (auto simp: guard_events_def guard_ok_def upto_rec1 [of "guard_sequence g"])
qed

lemma guard_take_eq:
  "guard_ok g \<Longrightarrow> fst (guard_take k rb g) = take k (guard_events rb g)
   \<and> guard_ok (snd (guard_take k rb g)) \<and> guard_available (snd (guard_take k rb g)) = guard_available g
   \<and> guard_events rb (snd (guard_take k rb g)) = drop k (guard_events rb g)"
proof (induction k arbitrary: g)
  case (Suc k)
  show ?case
  proof (cases "guard_events rb g")
    case Nil
    with Suc.prems guard_next_eq(1) [of g rb] show ?thesis by simp
  next
    case (Cons e es)
    with guard_next_eq [OF Suc.prems, of rb] Suc.IH [of "g\<lparr>guard_sequence := guard_sequence g + 1\<rparr>"]
    show ?thesis by (auto simp: split_def Let_def)
  qed
qed simp

section \<open>A series of polls\<close>

text \<open>
  The client polls again and again: each time with a limit, reading up to \<open>k\<close> events of the guard and
  dropping it. A visit records the guard's sequences and the events read from it.
\<close>

record ('m, 'e) visit =
  seen_memory :: 'm
  seen_shutdown :: sequence
  seen_ring :: "'e ring_buffer"
  asked :: nat
  reads :: nat

fun run_polls :: "('b \<Rightarrow> 'm \<Rightarrow> sequence \<Rightarrow> sequence) \<Rightarrow> ('m, 'e) visit list \<Rightarrow> 'b event_poller
    \<Rightarrow> (sequence list \<times> 'e list) list \<times> 'b event_poller" where
  "run_polls get_after [] p = ([], p)"
| "run_polls get_after (v # vs) p =
     (case poll_take get_after (seen_memory v) (seen_shutdown v) (asked v) p of
        Inl e \<Rightarrow> run_polls get_after vs p
      | Inr g \<Rightarrow>
          (let got = fst (guard_take (reads v) (seen_ring v) g);
               (log, p') = run_polls get_after vs (guard_drop g p)
           in (([guard_sequence g..guard_available g], got) # log, p')))"

lemma poll_take_guard:
  assumes "poller_ok p" "get_after (dependent_barrier p) m (poller_at p + 1) < 2 ^ 62"
    and "poll_take get_after m shutdown limit p = Inr g"
  shows "guard_ok g \<and> guard_sequence g = poller_at p + 1 \<and> poller_at p \<le> guard_available g
    \<and> poller_ok (guard_drop g p) \<and> dependent_barrier (guard_drop g p) = dependent_barrier p
    \<and> poller_at (guard_drop g p) = guard_available g"
  using assms
  by (auto simp: poll_take_eq poller_ok_def guard_ok_def guard_drop_def saturating_add_unsigned_def
      i64_MAX_def split: if_split_asm)

lemma run_polls_exact:
  assumes "poller_ok p" "\<forall>v\<in>set vs. \<forall>s. get_after (dependent_barrier p) (seen_memory v) s < 2 ^ 62"
  shows "concat (map fst (fst (run_polls get_after vs p))) = [poller_at p + 1..poller_at (snd (run_polls get_after vs p))]
    \<and> poller_at p \<le> poller_at (snd (run_polls get_after vs p))
    \<and> (\<forall>(qs, es)\<in>set (fst (run_polls get_after vs p)).
        \<exists>v\<in>set vs. es = take (reads v) (map (ring_read (seen_ring v)) qs))"
  using assms
proof (induction vs arbitrary: p)
  case Nil
  then show ?case by simp
next
  case (Cons v vs)
  show ?case
  proof (cases "poll_take get_after (seen_memory v) (seen_shutdown v) (asked v) p")
    case (Inl e)
    with Cons.IH [of p] Cons.prems show ?thesis by auto
  next
    case (Inr g)
    have g: "guard_ok g" "guard_sequence g = poller_at p + 1" "poller_at p \<le> guard_available g"
      "poller_ok (guard_drop g p)" "dependent_barrier (guard_drop g p) = dependent_barrier p"
      "poller_at (guard_drop g p) = guard_available g"
      using poll_take_guard [OF Cons.prems(1) _ Inr] Cons.prems(2) by auto
    have IH: "concat (map fst (fst (run_polls get_after vs (guard_drop g p))))
          = [guard_available g + 1..poller_at (snd (run_polls get_after vs (guard_drop g p)))]"
        "guard_available g \<le> poller_at (snd (run_polls get_after vs (guard_drop g p)))"
        "\<forall>(qs, es)\<in>set (fst (run_polls get_after vs (guard_drop g p))).
          \<exists>v\<in>set vs. es = take (reads v) (map (ring_read (seen_ring v)) qs)"
      using Cons.IH [of "guard_drop g p"] Cons.prems(2) g by auto
    have "fst (guard_take (reads v) (seen_ring v) g)
        = take (reads v) (map (ring_read (seen_ring v)) [guard_sequence g..guard_available g])"
      using guard_take_eq [OF g(1), of "reads v" "seen_ring v"] by (simp add: guard_events_def)
    moreover have "[poller_at p + 1..poller_at (snd (run_polls get_after vs (guard_drop g p)))]
        = [poller_at p + 1..guard_available g] @ [guard_available g + 1..poller_at (snd (run_polls get_after vs (guard_drop g p)))]"
      using g(3) IH(2) upto_append [of "poller_at p + 1" "guard_available g + 1"
        "poller_at (snd (run_polls get_after vs (guard_drop g p)))"] by simp
    ultimately show ?thesis
      using Inr g(2,3) IH by (auto simp: split_def Let_def)
  qed
qed

context barrier
begin

text \<open>What a poll tells about the barrier.\<close>

lemma poll_outcome:
  assumes "poller_ok p" "ready m (poller_at p + 1)" "ga (dependent_barrier p) m = get_after m"
    and "poller_at p + int limit < 2 ^ 62"
  shows "case poll_take ga m shutdown limit p of
      Inl Shutdown \<Rightarrow> shutdown = poller_at p + 1
    | Inl NoEvents \<Rightarrow> shutdown \<noteq> poller_at p + 1 \<and> \<not> available m (poller_at p + 1)
    | Inr g \<Rightarrow> shutdown \<noteq> poller_at p + 1 \<and> guard_sequence g = poller_at p + 1
        \<and> (\<forall>q. guard_sequence g \<le> q \<and> q \<le> guard_available g \<longrightarrow> available m q)
        \<and> (guard_available g = poller_at p + int limit
           \<or> guard_available g < poller_at p + int limit \<and> \<not> available m (guard_available g + 1))"
proof -
  let ?s = "poller_at p + 1"
  have sat: "saturating_add_unsigned (poller_at p) limit = poller_at p + int limit"
    using assms(4) by (simp add: saturating_add_unsigned_def i64_MAX_def)
  have hole: "\<not> available m (max ?s (get_after m ?s + 1))" using assms(2) by (rule first_hole)
  have upto: "available m q" if "?s \<le> q" "q \<le> get_after m ?s" for q
    using assms(2) that by (rule sound)
  show ?thesis
    using none_iff [OF assms(2)] hole upto
    by (auto simp: poll_take_eq [OF assms(1)] assms(3) sat max_def min_def split: if_split_asm)
qed

end

section \<open>Properties\<close>

definition ex_poller :: "multi_consumer_barrier event_poller" where
  "ex_poller = event_poller_new (MultiConsumerBarrier [0, 1]) (cursor_new 1)"

definition ex_group :: cursors where
  "ex_group = (\<lambda>a. cursor_new (if a = 0 then 5 else 3))"

lemma ex_poller_ok: "poller_ok ex_poller" "poller_at ex_poller = 1"
  "dependent_barrier ex_poller = MultiConsumerBarrier [0, 1]"
  by (simp_all add: poller_ok_def ex_poller_def event_poller_new_def)

text \<open>
  A poll behind a group of consumers reports shutdown exactly at the mark, no events exactly if
  the next sequence is not passed by the whole group, and otherwise a guard that starts at the next
  sequence and holds only sequences the whole group has passed, as many as there are or the limit.
\<close>

theorem poll_behind_group:
  assumes "poller_ok p" "group_ready (mc_cursors (dependent_barrier p)) cs" "poller_at p + int limit < 2 ^ 62"
  shows "case poll_take multi_consumer_get_after cs shutdown limit p of
      Inl Shutdown \<Rightarrow> shutdown = poller_at p + 1
    | Inl NoEvents \<Rightarrow> shutdown \<noteq> poller_at p + 1
        \<and> \<not> passed (mc_cursors (dependent_barrier p)) cs (poller_at p + 1)
    | Inr g \<Rightarrow> shutdown \<noteq> poller_at p + 1 \<and> guard_sequence g = poller_at p + 1
        \<and> (\<forall>q. guard_sequence g \<le> q \<and> q \<le> guard_available g \<longrightarrow> passed (mc_cursors (dependent_barrier p)) cs q)
        \<and> (guard_available g = poller_at p + int limit
           \<or> guard_available g < poller_at p + int limit \<and> \<not> passed (mc_cursors (dependent_barrier p)) cs (guard_available g + 1))"
  using assms by (intro multi_cb.poll_outcome [where b = "dependent_barrier p"]) auto

theorem poll_behind_group_witness:
  "poll_take multi_consumer_get_after ex_group (-1) 9 ex_poller = Inr \<lparr>guard_sequence = 2, guard_available = 3\<rparr>
   \<and> passed [0, 1] ex_group 3 \<and> \<not> passed [0, 1] ex_group 4"
proof -
  have ready: "group_ready (mc_cursors (dependent_barrier ex_poller)) ex_group"
    by (simp add: group_ready_def ex_poller_ok ex_group_def i64_MAX_def)
  have "poll_take multi_consumer_get_after ex_group (-1) 9 ex_poller = Inr \<lparr>guard_sequence = 2, guard_available = 3\<rparr>"
    by (simp add: poll_take_eq [OF ex_poller_ok(1)] ex_poller_ok multi_consumer_get_after_def ex_group_def
        saturating_add_unsigned_def i64_MAX_def)
  with poll_behind_group [OF ex_poller_ok(1) ready, of 9 "-1"] show ?thesis
    by (simp add: ex_poller_ok)
qed

text \<open>
  A guard is an exact iterator: \<open>len\<close> is the number of events left, \<open>k\<close> calls of \<open>next\<close> yield the
  first \<open>k\<close> of them in sequence order and leave the rest, and whatever was read, dropping the guard
  moves the consumer to its last sequence.
\<close>

theorem guard_iterates:
  assumes "poller_ok p" "get_after (dependent_barrier p) m (poller_at p + 1) < 2 ^ 62"
    and "poll_take get_after m shutdown limit p = Inr g"
  shows "fst (guard_take k rb g) = take k (map (ring_read rb) [poller_at p + 1..guard_available g])
    \<and> guard_len (snd (guard_take k rb g)) = guard_len g - k
    \<and> int (guard_len g) = guard_available g - poller_at p
    \<and> poller_at (guard_drop (snd (guard_take k rb g)) p) = guard_available g"
proof -
  note g = poll_take_guard [OF assms]
  then have ok: "guard_ok g" by simp
  have "guard_len (snd (guard_take k rb g)) = guard_len g - k"
    using guard_take_eq [OF ok, of k rb] guard_len_eq [OF ok, of rb] guard_len_eq [of "snd (guard_take k rb g)" rb]
    by simp
  moreover have "int (guard_len g) = guard_available g - poller_at p"
    using guard_len_eq [OF ok, of rb] g by (simp add: guard_events_def)
  ultimately show ?thesis
    using guard_take_eq [OF ok, of k rb] g by (simp add: guard_events_def guard_drop_def)
qed

theorem guard_iterates_witness:
  "fst (guard_take 1 (ex_ring\<lparr>slots := [10, 20, 30, 40]\<rparr>) \<lparr>guard_sequence = 2, guard_available = 3\<rparr>) = [30]
   \<and> poller_at (guard_drop (snd (guard_take 1 (ex_ring\<lparr>slots := [10, 20, 30, 40]\<rparr>) \<lparr>guard_sequence = 2, guard_available = 3\<rparr>))
       ex_poller) = 3"
proof -
  let ?rb = "ex_ring\<lparr>slots := [10, 20, 30, 40]\<rparr>"
  have poll: "poll_take multi_consumer_get_after ex_group (-1) 9 ex_poller = Inr \<lparr>guard_sequence = 2, guard_available = 3\<rparr>"
    "multi_consumer_get_after (dependent_barrier ex_poller) ex_group (poller_at ex_poller + 1) < 2 ^ 62"
    by (simp_all add: poll_take_eq [OF ex_poller_ok(1)] ex_poller_ok multi_consumer_get_after_def ex_group_def
        saturating_add_unsigned_def i64_MAX_def)
  have "wf_ring ?rb" using wf_ex_ring by (simp add: wf_ring_def ex_ring_def)
  then have "ring_read ?rb 2 = 30"
    by (simp add: ring_read_def ring_get_ref_eq ring_get_mod read_at_def ex_ring_def)
  moreover have "[2..3] = [2, 3::int]" by (simp add: upto_rec1)
  ultimately show ?thesis
    using guard_iterates [OF ex_poller_ok(1) poll(2,1), of 1 ?rb] by (simp add: ex_poller_ok)
qed

text \<open>
  C23. Polling delivers every sequence exactly once and in order: over any series of polls, with any
  limits, any failed polls in between and any number of events read from each guard, the sequences
  of the guards follow each other without gap or overlap from the poller's old position to its new
  one, and the events read from a guard are the first of its own.
\<close>

theorem polls_deliver_in_order:
  assumes "poller_ok p" "\<forall>v\<in>set vs. \<forall>s. get_after (dependent_barrier p) (seen_memory v) s < 2 ^ 62"
  shows "concat (map fst (fst (run_polls get_after vs p))) = [poller_at p + 1..poller_at (snd (run_polls get_after vs p))]
    \<and> (\<forall>(qs, es)\<in>set (fst (run_polls get_after vs p)).
        \<exists>v\<in>set vs. es = take (reads v) (map (ring_read (seen_ring v)) qs))"
  using run_polls_exact [of p vs get_after, OF assms] by blast

theorem polls_deliver_in_order_witness:
  "concat (map fst (fst (run_polls multi_consumer_get_after
     [\<lparr>seen_memory = ex_group, seen_shutdown = -1, seen_ring = ex_ring, asked = 1, reads = 0\<rparr>,
      \<lparr>seen_memory = ex_group, seen_shutdown = -1, seen_ring = ex_ring, asked = 5, reads = 5\<rparr>] ex_poller))) = [2, 3]"
proof -
  let ?v = "\<lambda>n k. \<lparr>seen_memory = ex_group, seen_shutdown = -1, seen_ring = ex_ring, asked = n, reads = k\<rparr>"
  let ?run = "run_polls multi_consumer_get_after [?v 1 0, ?v 5 5] ex_poller"
  have least: "multi_consumer_get_after (MultiConsumerBarrier [0, Suc 0]) ex_group lb = 3" for lb
    by (simp add: multi_consumer_get_after_def ex_group_def i64_MAX_def)
  have "\<forall>v\<in>set [?v 1 0, ?v 5 5]. \<forall>s. multi_consumer_get_after (dependent_barrier ex_poller) (seen_memory v) s < 2 ^ 62"
    using least by (simp add: ex_poller_ok)
  from polls_deliver_in_order [of ex_poller _ multi_consumer_get_after, OF ex_poller_ok(1) this]
  have "concat (map fst (fst ?run)) = [2..poller_at (snd ?run)]" by (simp add: ex_poller_ok)
  moreover have "poller_at (snd ?run) = 3"
    by (simp add: poll_take_def guard_drop_def ex_poller_def event_poller_new_def least i64_id in_i64_iff
        saturating_add_unsigned_def i64_MAX_def Let_def split_def)
  moreover have "[2..3] = [2, 3::int]" by (simp add: upto_rec1)
  ultimately show ?thesis by simp
qed

text \<open>
  \<open>poll\<close> is \<open>poll_take\<close> without a bound: the saturating sum never cuts off an event.
\<close>

theorem poll_takes_all:
  assumes "poller_ok p" "get_after (dependent_barrier p) m (poller_at p + 1) \<le> i64_MAX"
  shows "poll get_after m shutdown p =
    (if shutdown = poller_at p + 1 then Inl Shutdown
     else if get_after (dependent_barrier p) m (poller_at p + 1) < poller_at p + 1 then Inl NoEvents
     else Inr \<lparr>guard_sequence = poller_at p + 1, guard_available = get_after (dependent_barrier p) m (poller_at p + 1)\<rparr>)"
  using assms by (simp add: poll_def poll_take_eq saturating_add_unsigned_def i64_MAX_def poller_ok_def)

theorem poll_takes_all_witness:
  "poll multi_consumer_get_after ex_group (-1) ex_poller = Inr \<lparr>guard_sequence = 2, guard_available = 3\<rparr>"
proof -
  have least: "multi_consumer_get_after (MultiConsumerBarrier [0, 1]) ex_group lb = 3" for lb
    by (simp add: multi_consumer_get_after_def ex_group_def i64_MAX_def)
  with poll_takes_all [OF ex_poller_ok(1), of multi_consumer_get_after ex_group "-1"] show ?thesis
    by (simp add: ex_poller_ok i64_MAX_def)
qed

end
