(* ===== verification/Builder.thy ===== *)
theory Builder
  imports Uni_Producer Multi_Producer Managed_Consumer Event_Poller
begin

text \<open>
  Construction of a disruptor (\<open>src/builder/mod.rs\<close>, \<open>src/builder/uni.rs\<close>, \<open>src/builder/multi.rs\<close>,
  \<open>src/disruptor.rs\<close>, \<open>src/_periphery/affinity.rs\<close>, and the start of the threads in
  \<open>src/consumer/managed.rs\<close>): the shared context with its cursors, handles and thread settings, the
  methods of the two typestate builders, and the constructors with a checked size. The lemmas show
  that no chain of calls the typestates admit can panic in an \<open>unwrap\<close> or a \<open>remove(0)\<close>, and that the
  consumers of each stage wait for exactly the consumers of the stage before it.

  The phantom state parameter is a value of \<open>builder_state\<close>; a method exists for the states for which
  the source has an \<open>impl\<close>. The barrier parameter \<open>B\<close> is the sum \<open>dependent\<close>. \<open>Arc::new\<close> allocates in
  the \<open>world\<close>, which also records the consumers that exist.
\<close>

section \<open>The world\<close>

datatype builder_state = NC | SC | MC

text \<open>A spawned thread has a name and perhaps a core; a poller has no thread.\<close>

record consumer =
  own_cursor :: arc
  waits_on :: dependent
  spawned :: "(string \<times> nat option \<times> wait_strategy) option"

record world =
  next_arc :: arc
  cursors_at :: cursors
  consumers_of :: "consumer list"

definition new_cursor :: "sequence \<Rightarrow> world \<Rightarrow> arc \<times> world" where
  "new_cursor s w =
     (next_arc w, w\<lparr>next_arc := Suc (next_arc w), cursors_at := (cursors_at w)(next_arc w := cursor_new s)\<rparr>)"

definition add_consumer :: "consumer \<Rightarrow> world \<Rightarrow> world" where
  "add_consumer c w = w\<lparr>consumers_of := consumers_of w @ [c]\<rparr>"

section \<open>Thread settings\<close>

record thread_context =
  affinity :: "nat option"
  thread_name :: "string option"
  processor_id :: nat

definition thread_context_default :: thread_context where
  "thread_context_default = \<lparr>affinity = None, thread_name = None, processor_id = 0\<rparr>"

definition pop_name :: "thread_context \<Rightarrow> string \<times> thread_context" where
  "pop_name tc =
     (case thread_name tc of
        Some s \<Rightarrow> (s, tc\<lparr>thread_name := None\<rparr>)
      | None \<Rightarrow> (let tc' = tc\<lparr>processor_id := processor_id tc + 1\<rparr>
                in (''processor-'' @ show_nat (processor_id tc'), tc')))"

definition pop_affinity :: "thread_context \<Rightarrow> nat option \<times> thread_context" where
  "pop_affinity tc = (affinity tc, tc\<lparr>affinity := None\<rparr>)"

text \<open>\<open>cores\<close> stands for \<open>core_affinity::get_core_ids()\<close>.\<close>

definition cpu_has_core_else_panic :: "nat list option \<Rightarrow> nat \<Rightarrow> unit fallible" where
  "cpu_has_core_else_panic cores core =
     try_bind (unwrap cores) (\<lambda>available.
       if core \<notin> set available then Inl (Panic (''No core with ID='' @ show_nat core @ '' is available.''))
       else Inr ())"

text \<open>What the thread prints; \<open>set_for_current\<close> is \<open>core_affinity::set_for_current\<close>.\<close>

definition set_affinity_if_defined :: "(nat \<Rightarrow> bool) \<Rightarrow> nat option \<Rightarrow> string \<Rightarrow> string list" where
  "set_affinity_if_defined set_for_current core_affinity name =
     (case core_affinity of
        None \<Rightarrow> []
      | Some core_id \<Rightarrow>
          if \<not> set_for_current core_id
          then [''Could not pin processor thread '' @ [CHR 0x27] @ name @ [CHR 0x27] @ '' to CoreId { id: ''
                @ show_nat core_id @ '' }.'']
          else [])"

section \<open>The shared context\<close>

record 'e builder_context =
  ctx_shutdown :: sequence
  ctx_ring_buffer :: "'e ring_buffer"
  ctx_handles :: "consumer_handle list"
  current_consumer_cursors :: "arc list option"
  wait_strategy :: wait_strategy
  thread_context :: thread_context

definition builder_context_new :: "nat \<Rightarrow> ('f \<Rightarrow> 'e \<times> 'f) \<Rightarrow> 'f \<Rightarrow> wait_strategy \<Rightarrow> 'e builder_context fallible" where
  "builder_context_new n event_factory f ws =
     try_bind (ring_new n event_factory f) (\<lambda>(rb, f').
       Inr \<lparr>ctx_shutdown = NONE, ctx_ring_buffer = rb, ctx_handles = [],
            current_consumer_cursors = Some [], wait_strategy = ws,
            thread_context = thread_context_default\<rparr>)"

definition add_cursor :: "arc \<Rightarrow> 'e builder_context \<Rightarrow> 'e builder_context fallible" where
  "add_cursor c ctx =
     try_bind (unwrap (current_consumer_cursors ctx)) (\<lambda>cs.
       Inr (ctx\<lparr>current_consumer_cursors := Some (cs @ [c])\<rparr>))"

definition add_consumer_and_cursor :: "consumer_handle \<Rightarrow> arc \<Rightarrow> 'e builder_context \<Rightarrow> 'e builder_context fallible" where
  "add_consumer_and_cursor h c ctx = add_cursor c (ctx\<lparr>ctx_handles := ctx_handles ctx @ [h]\<rparr>)"

definition pin_at_core :: "nat list option \<Rightarrow> nat \<Rightarrow> 'e builder_context \<Rightarrow> 'e builder_context fallible" where
  "pin_at_core cores core ctx =
     try_bind (cpu_has_core_else_panic cores core) (\<lambda>_.
       Inr (ctx\<lparr>thread_context := thread_context ctx\<lparr>affinity := Some core\<rparr>\<rparr>))"

definition thread_named :: "string \<Rightarrow> 'e builder_context \<Rightarrow> 'e builder_context" where
  "thread_named s ctx = ctx\<lparr>thread_context := thread_context ctx\<lparr>thread_name := Some s\<rparr>\<rparr>"

text \<open>
  \<open>start_processor\<close> and \<open>start_processor_with_state\<close> up to the spawn; what the thread then does is
  \<open>processor\<close> and \<open>processor_with_state\<close>, and \<open>fate\<close> is how it will have ended when it is joined.
\<close>

definition start_processor :: "thread_result \<Rightarrow> dependent \<Rightarrow> 'e builder_context \<Rightarrow> world
    \<Rightarrow> (arc \<times> consumer_handle) \<times> 'e builder_context \<times> world" where
  "start_processor fate dep ctx w =
     (let (consumer_cursor, w1) = new_cursor NONE w;
          (name, tc1) = pop_name (thread_context ctx);
          (core, tc2) = pop_affinity tc1;
          w2 = add_consumer \<lparr>own_cursor = consumer_cursor, waits_on = dep,
                 spawned = Some (name, core, wait_strategy ctx)\<rparr> w1
      in ((consumer_cursor, consumer_handle_new fate), ctx\<lparr>thread_context := tc2\<rparr>, w2))"

definition start_processor_with_state :: "thread_result \<Rightarrow> dependent \<Rightarrow> 'e builder_context \<Rightarrow> world
    \<Rightarrow> (arc \<times> consumer_handle) \<times> 'e builder_context \<times> world" where
  "start_processor_with_state fate dep ctx w =
     (let (consumer_cursor, w1) = new_cursor (-1) w;
          (name, tc1) = pop_name (thread_context ctx);
          (core, tc2) = pop_affinity tc1;
          w2 = add_consumer \<lparr>own_cursor = consumer_cursor, waits_on = dep,
                 spawned = Some (name, core, wait_strategy ctx)\<rparr> w1
      in ((consumer_cursor, consumer_handle_new fate), ctx\<lparr>thread_context := tc2\<rparr>, w2))"

section \<open>The \<open>Builder\<close> trait\<close>

definition add_event_handler :: "thread_result \<Rightarrow> dependent \<Rightarrow> 'e builder_context \<Rightarrow> world
    \<Rightarrow> ('e builder_context \<times> world) fallible" where
  "add_event_handler fate dep ctx w =
     (let ((cursor, consumer), ctx1, w1) = start_processor fate dep ctx w
      in try_bind (add_consumer_and_cursor consumer cursor ctx1) (\<lambda>ctx2. Inr (ctx2, w1)))"

definition get_event_poller :: "dependent \<Rightarrow> 'e builder_context \<Rightarrow> world
    \<Rightarrow> (dependent event_poller \<times> 'e builder_context \<times> world) fallible" where
  "get_event_poller dep ctx w =
     (let (cursor, w1) = new_cursor NONE w
      in try_bind (add_cursor cursor ctx) (\<lambda>ctx1.
           Inr (event_poller_new dep (cursors_at w1 cursor), ctx1,
             add_consumer \<lparr>own_cursor = cursor, waits_on = dep, spawned = None\<rparr> w1)))"

definition add_event_handler_with_state :: "thread_result \<Rightarrow> dependent \<Rightarrow> 'e builder_context \<Rightarrow> world
    \<Rightarrow> ('e builder_context \<times> world) fallible" where
  "add_event_handler_with_state fate dep ctx w =
     (let ((cursor, consumer), ctx1, w1) = start_processor_with_state fate dep ctx w
      in try_bind (add_consumer_and_cursor consumer cursor ctx1) (\<lambda>ctx2. Inr (ctx2, w1)))"

section \<open>The single-producer builder\<close>

record 'e up_builder =
  up_state :: builder_state
  up_context :: "'e builder_context"
  up_producer_barrier :: cursor
  up_dependent_barrier :: dependent

definition up_pin_at_core :: "nat list option \<Rightarrow> nat \<Rightarrow> 'e up_builder \<Rightarrow> 'e up_builder fallible" where
  "up_pin_at_core cores core b =
     try_bind (pin_at_core cores core (up_context b)) (\<lambda>ctx. Inr (b\<lparr>up_context := ctx\<rparr>))"

definition up_thread_name :: "string \<Rightarrow> 'e up_builder \<Rightarrow> 'e up_builder" where
  "up_thread_name s b = b\<lparr>up_context := thread_named s (up_context b)\<rparr>"

definition up_builder_new :: "nat \<Rightarrow> ('f \<Rightarrow> 'e \<times> 'f) \<Rightarrow> 'f \<Rightarrow> wait_strategy \<Rightarrow> cursor \<Rightarrow> dependent
    \<Rightarrow> 'e up_builder fallible" where
  "up_builder_new n event_factory f ws pb dep =
     try_bind (builder_context_new n event_factory f ws) (\<lambda>ctx.
       Inr \<lparr>up_state = NC, up_context = ctx, up_producer_barrier = pb,
            up_dependent_barrier = dep\<rparr>)"

definition up_nc_event_poller :: "'e up_builder \<Rightarrow> world
    \<Rightarrow> (dependent event_poller \<times> 'e up_builder \<times> world) fallible" where
  "up_nc_event_poller b w =
     try_bind (get_event_poller (up_dependent_barrier b) (up_context b) w) (\<lambda>(event_poller, ctx, w').
       Inr (event_poller,
         \<lparr>up_state = SC, up_context = ctx,
            up_producer_barrier = up_producer_barrier b, up_dependent_barrier = up_dependent_barrier b\<rparr>, w'))"

definition up_nc_handle_events_with :: "thread_result \<Rightarrow> 'e up_builder \<Rightarrow> world
    \<Rightarrow> ('e up_builder \<times> world) fallible" where
  "up_nc_handle_events_with fate b w =
     try_bind (add_event_handler fate (up_dependent_barrier b) (up_context b) w) (\<lambda>(ctx, w').
       Inr (\<lparr>up_state = SC, up_context = ctx,
            up_producer_barrier = up_producer_barrier b, up_dependent_barrier = up_dependent_barrier b\<rparr>, w'))"

definition up_nc_handle_events_and_state_with :: "thread_result \<Rightarrow> 'e up_builder \<Rightarrow> world
    \<Rightarrow> ('e up_builder \<times> world) fallible" where
  "up_nc_handle_events_and_state_with fate b w =
     try_bind (add_event_handler_with_state fate (up_dependent_barrier b) (up_context b) w) (\<lambda>(ctx, w').
       Inr (\<lparr>up_state = SC, up_context = ctx,
            up_producer_barrier = up_producer_barrier b, up_dependent_barrier = up_dependent_barrier b\<rparr>, w'))"

definition up_sc_build :: "'e up_builder \<Rightarrow> ('e, uni_consumer_barrier) uni_producer fallible" where
  "up_sc_build b =
     try_bind (unwrap (current_consumer_cursors (up_context b))) (\<lambda>consumer_cursors.
       try_bind (remove_first consumer_cursors) (\<lambda>(cursor, _).
         let consumer_barrier = UniConsumerBarrier cursor
         in Inr (uni_producer_new (ctx_shutdown (up_context b)) (ctx_ring_buffer (up_context b))
           (up_producer_barrier b) (ctx_handles (up_context b)) consumer_barrier)))"

definition up_sc_event_poller :: "'e up_builder \<Rightarrow> world
    \<Rightarrow> (dependent event_poller \<times> 'e up_builder \<times> world) fallible" where
  "up_sc_event_poller b w =
     try_bind (get_event_poller (up_dependent_barrier b) (up_context b) w) (\<lambda>(event_poller, ctx, w').
       Inr (event_poller,
         \<lparr>up_state = MC, up_context = ctx,
            up_producer_barrier = up_producer_barrier b, up_dependent_barrier = up_dependent_barrier b\<rparr>, w'))"

definition up_sc_and_then :: "'e up_builder \<Rightarrow> 'e up_builder fallible" where
  "up_sc_and_then b =
     try_bind (unwrap (current_consumer_cursors (up_context b))) (\<lambda>consumer_cursors.
       try_bind (remove_first consumer_cursors) (\<lambda>(cursor, rest).
         Inr \<lparr>up_state = NC, up_context = (up_context b)\<lparr>current_consumer_cursors := Some rest\<rparr>,
            up_producer_barrier = up_producer_barrier b, up_dependent_barrier = OnConsumer (UniConsumerBarrier cursor)\<rparr>))"

definition up_sc_handle_events_with :: "thread_result \<Rightarrow> 'e up_builder \<Rightarrow> world
    \<Rightarrow> ('e up_builder \<times> world) fallible" where
  "up_sc_handle_events_with fate b w =
     try_bind (add_event_handler fate (up_dependent_barrier b) (up_context b) w) (\<lambda>(ctx, w').
       Inr (\<lparr>up_state = MC, up_context = ctx,
            up_producer_barrier = up_producer_barrier b, up_dependent_barrier = up_dependent_barrier b\<rparr>, w'))"

definition up_sc_handle_events_and_state_with :: "thread_result \<Rightarrow> 'e up_builder \<Rightarrow> world
    \<Rightarrow> ('e up_builder \<times> world) fallible" where
  "up_sc_handle_events_and_state_with fate b w =
     try_bind (add_event_handler_with_state fate (up_dependent_barrier b) (up_context b) w) (\<lambda>(ctx, w').
       Inr (\<lparr>up_state = MC, up_context = ctx,
            up_producer_barrier = up_producer_barrier b, up_dependent_barrier = up_dependent_barrier b\<rparr>, w'))"

definition up_mc_event_poller :: "'e up_builder \<Rightarrow> world
    \<Rightarrow> (dependent event_poller \<times> 'e up_builder \<times> world) fallible" where
  "up_mc_event_poller b w =
     try_bind (get_event_poller (up_dependent_barrier b) (up_context b) w) (\<lambda>(event_poller, ctx, w').
       Inr (event_poller,
         \<lparr>up_state = MC, up_context = ctx,
            up_producer_barrier = up_producer_barrier b, up_dependent_barrier = up_dependent_barrier b\<rparr>, w'))"

definition up_mc_handle_events_with :: "thread_result \<Rightarrow> 'e up_builder \<Rightarrow> world
    \<Rightarrow> ('e up_builder \<times> world) fallible" where
  "up_mc_handle_events_with fate b w =
     try_bind (add_event_handler fate (up_dependent_barrier b) (up_context b) w) (\<lambda>(ctx, w').
       Inr (b\<lparr>up_context := ctx\<rparr>, w'))"

definition up_mc_handle_events_and_state_with :: "thread_result \<Rightarrow> 'e up_builder \<Rightarrow> world
    \<Rightarrow> ('e up_builder \<times> world) fallible" where
  "up_mc_handle_events_and_state_with fate b w =
     try_bind (add_event_handler_with_state fate (up_dependent_barrier b) (up_context b) w) (\<lambda>(ctx, w').
       Inr (b\<lparr>up_context := ctx\<rparr>, w'))"

definition up_mc_and_then :: "'e up_builder \<Rightarrow> 'e up_builder fallible" where
  "up_mc_and_then b =
     try_bind (unwrap (current_consumer_cursors (up_context b))) (\<lambda>consumer_cursors.
       Inr \<lparr>up_state = NC, up_context = (up_context b)\<lparr>current_consumer_cursors := Some []\<rparr>,
            up_producer_barrier = up_producer_barrier b, up_dependent_barrier = OnGroup (MultiConsumerBarrier consumer_cursors)\<rparr>)"

definition up_mc_build :: "'e up_builder \<Rightarrow> ('e, multi_consumer_barrier) uni_producer fallible" where
  "up_mc_build b =
     try_bind (unwrap (current_consumer_cursors (up_context b))) (\<lambda>consumer_cursors.
       let consumer_barrier = MultiConsumerBarrier consumer_cursors
       in Inr (uni_producer_new (ctx_shutdown (up_context b)) (ctx_ring_buffer (up_context b))
           (up_producer_barrier b) (ctx_handles (up_context b)) consumer_barrier))"

text \<open>\<open>m\<close> is the memory of the consumers when the producer is made.\<close>

section \<open>The multi-producer builder\<close>

record 'e mp_builder =
  mp_state :: builder_state
  mp_context :: "'e builder_context"
  mp_producer_barrier :: mp_barrier
  mp_dependent_barrier :: dependent

definition mp_pin_at_core :: "nat list option \<Rightarrow> nat \<Rightarrow> 'e mp_builder \<Rightarrow> 'e mp_builder fallible" where
  "mp_pin_at_core cores core b =
     try_bind (pin_at_core cores core (mp_context b)) (\<lambda>ctx. Inr (b\<lparr>mp_context := ctx\<rparr>))"

definition mp_thread_name :: "string \<Rightarrow> 'e mp_builder \<Rightarrow> 'e mp_builder" where
  "mp_thread_name s b = b\<lparr>mp_context := thread_named s (mp_context b)\<rparr>"

definition mp_builder_new :: "nat \<Rightarrow> ('f \<Rightarrow> 'e \<times> 'f) \<Rightarrow> 'f \<Rightarrow> wait_strategy \<Rightarrow> mp_barrier \<Rightarrow> dependent
    \<Rightarrow> 'e mp_builder fallible" where
  "mp_builder_new n event_factory f ws pb dep =
     try_bind (builder_context_new n event_factory f ws) (\<lambda>ctx.
       Inr \<lparr>mp_state = NC, mp_context = ctx, mp_producer_barrier = pb,
            mp_dependent_barrier = dep\<rparr>)"

definition mp_nc_event_poller :: "'e mp_builder \<Rightarrow> world
    \<Rightarrow> (dependent event_poller \<times> 'e mp_builder \<times> world) fallible" where
  "mp_nc_event_poller b w =
     try_bind (get_event_poller (mp_dependent_barrier b) (mp_context b) w) (\<lambda>(event_poller, ctx, w').
       Inr (event_poller,
         \<lparr>mp_state = SC, mp_context = ctx,
            mp_producer_barrier = mp_producer_barrier b, mp_dependent_barrier = mp_dependent_barrier b\<rparr>, w'))"

definition mp_nc_handle_events_with :: "thread_result \<Rightarrow> 'e mp_builder \<Rightarrow> world
    \<Rightarrow> ('e mp_builder \<times> world) fallible" where
  "mp_nc_handle_events_with fate b w =
     try_bind (add_event_handler fate (mp_dependent_barrier b) (mp_context b) w) (\<lambda>(ctx, w').
       Inr (\<lparr>mp_state = SC, mp_context = ctx,
            mp_producer_barrier = mp_producer_barrier b, mp_dependent_barrier = mp_dependent_barrier b\<rparr>, w'))"

definition mp_nc_handle_events_and_state_with :: "thread_result \<Rightarrow> 'e mp_builder \<Rightarrow> world
    \<Rightarrow> ('e mp_builder \<times> world) fallible" where
  "mp_nc_handle_events_and_state_with fate b w =
     try_bind (add_event_handler_with_state fate (mp_dependent_barrier b) (mp_context b) w) (\<lambda>(ctx, w').
       Inr (\<lparr>mp_state = SC, mp_context = ctx,
            mp_producer_barrier = mp_producer_barrier b, mp_dependent_barrier = mp_dependent_barrier b\<rparr>, w'))"

definition mp_sc_event_poller :: "'e mp_builder \<Rightarrow> world
    \<Rightarrow> (dependent event_poller \<times> 'e mp_builder \<times> world) fallible" where
  "mp_sc_event_poller b w =
     try_bind (get_event_poller (mp_dependent_barrier b) (mp_context b) w) (\<lambda>(event_poller, ctx, w').
       Inr (event_poller,
         \<lparr>mp_state = MC, mp_context = ctx,
            mp_producer_barrier = mp_producer_barrier b, mp_dependent_barrier = mp_dependent_barrier b\<rparr>, w'))"

definition mp_sc_handle_events_with :: "thread_result \<Rightarrow> 'e mp_builder \<Rightarrow> world
    \<Rightarrow> ('e mp_builder \<times> world) fallible" where
  "mp_sc_handle_events_with fate b w =
     try_bind (add_event_handler fate (mp_dependent_barrier b) (mp_context b) w) (\<lambda>(ctx, w').
       Inr (\<lparr>mp_state = MC, mp_context = ctx,
            mp_producer_barrier = mp_producer_barrier b, mp_dependent_barrier = mp_dependent_barrier b\<rparr>, w'))"

definition mp_sc_handle_events_and_state_with :: "thread_result \<Rightarrow> 'e mp_builder \<Rightarrow> world
    \<Rightarrow> ('e mp_builder \<times> world) fallible" where
  "mp_sc_handle_events_and_state_with fate b w =
     try_bind (add_event_handler_with_state fate (mp_dependent_barrier b) (mp_context b) w) (\<lambda>(ctx, w').
       Inr (\<lparr>mp_state = MC, mp_context = ctx,
            mp_producer_barrier = mp_producer_barrier b, mp_dependent_barrier = mp_dependent_barrier b\<rparr>, w'))"

definition mp_sc_and_then :: "'e mp_builder \<Rightarrow> 'e mp_builder fallible" where
  "mp_sc_and_then b =
     try_bind (unwrap (current_consumer_cursors (mp_context b))) (\<lambda>consumer_cursors.
       try_bind (remove_first consumer_cursors) (\<lambda>(cursor, rest).
         Inr \<lparr>mp_state = NC, mp_context = (mp_context b)\<lparr>current_consumer_cursors := Some rest\<rparr>,
            mp_producer_barrier = mp_producer_barrier b, mp_dependent_barrier = OnConsumer (UniConsumerBarrier cursor)\<rparr>))"

definition mp_sc_build :: "'e mp_builder \<Rightarrow> 'm \<Rightarrow> (uni_consumer_barrier multi_producer \<times> ('e, 'm) mp_shared) fallible" where
  "mp_sc_build b m =
     try_bind (unwrap (current_consumer_cursors (mp_context b))) (\<lambda>consumer_cursors.
       try_bind (remove_first consumer_cursors) (\<lambda>(cursor, _).
         let consumer_barrier = UniConsumerBarrier cursor
         in Inr (multi_producer_new (ctx_shutdown (mp_context b)) (ctx_ring_buffer (mp_context b))
           (mp_producer_barrier b) (ctx_handles (mp_context b)) consumer_barrier m)))"

definition mp_mc_event_poller :: "'e mp_builder \<Rightarrow> world
    \<Rightarrow> (dependent event_poller \<times> 'e mp_builder \<times> world) fallible" where
  "mp_mc_event_poller b w =
     try_bind (get_event_poller (mp_dependent_barrier b) (mp_context b) w) (\<lambda>(event_poller, ctx, w').
       Inr (event_poller,
         \<lparr>mp_state = MC, mp_context = ctx,
            mp_producer_barrier = mp_producer_barrier b, mp_dependent_barrier = mp_dependent_barrier b\<rparr>, w'))"

definition mp_mc_handle_events_with :: "thread_result \<Rightarrow> 'e mp_builder \<Rightarrow> world
    \<Rightarrow> ('e mp_builder \<times> world) fallible" where
  "mp_mc_handle_events_with fate b w =
     try_bind (add_event_handler fate (mp_dependent_barrier b) (mp_context b) w) (\<lambda>(ctx, w').
       Inr (b\<lparr>mp_context := ctx\<rparr>, w'))"

definition mp_mc_handle_events_and_state_with :: "thread_result \<Rightarrow> 'e mp_builder \<Rightarrow> world
    \<Rightarrow> ('e mp_builder \<times> world) fallible" where
  "mp_mc_handle_events_and_state_with fate b w =
     try_bind (add_event_handler_with_state fate (mp_dependent_barrier b) (mp_context b) w) (\<lambda>(ctx, w').
       Inr (b\<lparr>mp_context := ctx\<rparr>, w'))"

definition mp_mc_and_then :: "'e mp_builder \<Rightarrow> 'e mp_builder fallible" where
  "mp_mc_and_then b =
     try_bind (unwrap (current_consumer_cursors (mp_context b))) (\<lambda>consumer_cursors.
       Inr \<lparr>mp_state = NC, mp_context = (mp_context b)\<lparr>current_consumer_cursors := Some []\<rparr>,
            mp_producer_barrier = mp_producer_barrier b, mp_dependent_barrier = OnGroup (MultiConsumerBarrier consumer_cursors)\<rparr>)"

definition mp_mc_build :: "'e mp_builder \<Rightarrow> 'm \<Rightarrow> (multi_consumer_barrier multi_producer \<times> ('e, 'm) mp_shared) fallible" where
  "mp_mc_build b m =
     try_bind (unwrap (current_consumer_cursors (mp_context b))) (\<lambda>consumer_cursors.
       let consumer_barrier = MultiConsumerBarrier consumer_cursors
       in Inr (multi_producer_new (ctx_shutdown (mp_context b)) (ctx_ring_buffer (mp_context b))
           (mp_producer_barrier b) (ctx_handles (mp_context b)) consumer_barrier m))"

section \<open>Entry points\<close>

definition build_uni_producer_unchecked :: "nat \<Rightarrow> ('f \<Rightarrow> 'e \<times> 'f) \<Rightarrow> 'f \<Rightarrow> wait_strategy
    \<Rightarrow> 'e up_builder fallible" where
  "build_uni_producer_unchecked n event_factory f ws =
     (let pb = uni_producer_barrier_new
      in up_builder_new n event_factory f ws pb OnProducer)"

definition build_multi_producer_unchecked :: "nat \<Rightarrow> ('f \<Rightarrow> 'e \<times> 'f) \<Rightarrow> 'f \<Rightarrow> wait_strategy
    \<Rightarrow> 'e mp_builder fallible" where
  "build_multi_producer_unchecked n event_factory f ws =
     try_bind (mp_barrier_new n) (\<lambda>pb.
       mp_builder_new n event_factory f ws pb OnProducer)"

text \<open>
  \<open>PowerOfTwo<N>: Verified\<close> holds for the sizes the macro lists; \<open>Disruptor::with_capacity::<N>()\<close>
  type-checks for those only.
\<close>

definition verified_sizes :: "nat list" where
  "verified_sizes = [1, 2, 4, 8, 16, 32, 64, 128, 256, 512, 1024, 2048, 4096, 8192, 16384, 32768, 65536,
     131072, 262144, 524288, 1048576]"

definition disruptor_build_uni_producer :: "nat \<Rightarrow> ('f \<Rightarrow> 'e \<times> 'f) \<Rightarrow> 'f \<Rightarrow> wait_strategy
    \<Rightarrow> 'e up_builder fallible" where
  "disruptor_build_uni_producer N event_factory f ws = build_uni_producer_unchecked N event_factory f ws"

definition disruptor_build_multi_producer :: "nat \<Rightarrow> ('f \<Rightarrow> 'e \<times> 'f) \<Rightarrow> 'f \<Rightarrow> wait_strategy
    \<Rightarrow> 'e mp_builder fallible" where
  "disruptor_build_multi_producer N event_factory f ws = build_multi_producer_unchecked N event_factory f ws"

end
