(* ===== verification/Builder_Wiring.thy ===== *)
theory Builder_Wiring
  imports Builder
begin

text \<open>
  Chains of builder calls (\<open>src/builder/uni.rs\<close>, \<open>src/builder/multi.rs\<close>): which calls the typestates
  admit, what a chain of them does, and the invariant that every call keeps. Its consequences are
  the wiring of the finished disruptor: no admitted chain panics, every consumer waits for all
  consumers of the stage before its own, and the producer is gated by all consumers of the last.
\<close>

section \<open>Chains\<close>

datatype builder_call =
    HandleEventsWith thread_result
  | HandleEventsAndStateWith thread_result
  | AddPoller
  | AndThen
  | PinAtCore nat
  | ThreadName string

text \<open>The typestates: \<open>None\<close> is a call that does not type-check.\<close>

fun call_state :: "builder_call \<Rightarrow> builder_state \<Rightarrow> builder_state option" where
  "call_state AndThen NC = None"
| "call_state AndThen st = Some NC"
| "call_state (PinAtCore core) st = Some st"
| "call_state (ThreadName s) st = Some st"
| "call_state c NC = Some SC"
| "call_state c st = Some MC"

fun chain_state :: "builder_call list \<Rightarrow> builder_state \<Rightarrow> builder_state option" where
  "chain_state [] st = Some st"
| "chain_state (c # cs) st = Option.bind (call_state c st) (chain_state cs)"

fun up_call :: "nat list option \<Rightarrow> builder_call \<Rightarrow> 'e up_builder \<Rightarrow> world
    \<Rightarrow> ('e up_builder \<times> world) fallible option" where
  "up_call cores (HandleEventsWith fate) b w =
     Some (case up_state b of
         NC \<Rightarrow> up_nc_handle_events_with fate b w
       | SC \<Rightarrow> up_sc_handle_events_with fate b w
       | MC \<Rightarrow> up_mc_handle_events_with fate b w)"
| "up_call cores (HandleEventsAndStateWith fate) b w =
     Some (case up_state b of
         NC \<Rightarrow> up_nc_handle_events_and_state_with fate b w
       | SC \<Rightarrow> up_sc_handle_events_and_state_with fate b w
       | MC \<Rightarrow> up_mc_handle_events_and_state_with fate b w)"
| "up_call cores AddPoller b w =
     Some (try_bind (case up_state b of
         NC \<Rightarrow> up_nc_event_poller b w
       | SC \<Rightarrow> up_sc_event_poller b w
       | MC \<Rightarrow> up_mc_event_poller b w) (\<lambda>(poller, r). Inr r))"
| "up_call cores AndThen b w =
     (case up_state b of
         NC \<Rightarrow> None
       | SC \<Rightarrow> Some (try_bind (up_sc_and_then b) (\<lambda>b'. Inr (b', w)))
       | MC \<Rightarrow> Some (try_bind (up_mc_and_then b) (\<lambda>b'. Inr (b', w))))"
| "up_call cores (PinAtCore core) b w = Some (try_bind (up_pin_at_core cores core b) (\<lambda>b'. Inr (b', w)))"
| "up_call cores (ThreadName s) b w = Some (Inr (up_thread_name s b, w))"

fun up_chain :: "nat list option \<Rightarrow> builder_call list \<Rightarrow> 'e up_builder \<Rightarrow> world
    \<Rightarrow> ('e up_builder \<times> world) fallible option" where
  "up_chain cores [] b w = Some (Inr (b, w))"
| "up_chain cores (c # cs) b w =
     (case up_call cores c b w of
        None \<Rightarrow> None
      | Some (Inl panic) \<Rightarrow> Some (Inl panic)
      | Some (Inr (b', w')) \<Rightarrow> up_chain cores cs b' w')"

fun mp_call :: "nat list option \<Rightarrow> builder_call \<Rightarrow> 'e mp_builder \<Rightarrow> world
    \<Rightarrow> ('e mp_builder \<times> world) fallible option" where
  "mp_call cores (HandleEventsWith fate) b w =
     Some (case mp_state b of
         NC \<Rightarrow> mp_nc_handle_events_with fate b w
       | SC \<Rightarrow> mp_sc_handle_events_with fate b w
       | MC \<Rightarrow> mp_mc_handle_events_with fate b w)"
| "mp_call cores (HandleEventsAndStateWith fate) b w =
     Some (case mp_state b of
         NC \<Rightarrow> mp_nc_handle_events_and_state_with fate b w
       | SC \<Rightarrow> mp_sc_handle_events_and_state_with fate b w
       | MC \<Rightarrow> mp_mc_handle_events_and_state_with fate b w)"
| "mp_call cores AddPoller b w =
     Some (try_bind (case mp_state b of
         NC \<Rightarrow> mp_nc_event_poller b w
       | SC \<Rightarrow> mp_sc_event_poller b w
       | MC \<Rightarrow> mp_mc_event_poller b w) (\<lambda>(poller, r). Inr r))"
| "mp_call cores AndThen b w =
     (case mp_state b of
         NC \<Rightarrow> None
       | SC \<Rightarrow> Some (try_bind (mp_sc_and_then b) (\<lambda>b'. Inr (b', w)))
       | MC \<Rightarrow> Some (try_bind (mp_mc_and_then b) (\<lambda>b'. Inr (b', w))))"
| "mp_call cores (PinAtCore core) b w = Some (try_bind (mp_pin_at_core cores core b) (\<lambda>b'. Inr (b', w)))"
| "mp_call cores (ThreadName s) b w = Some (Inr (mp_thread_name s b, w))"

fun mp_chain :: "nat list option \<Rightarrow> builder_call list \<Rightarrow> 'e mp_builder \<Rightarrow> world
    \<Rightarrow> ('e mp_builder \<times> world) fallible option" where
  "mp_chain cores [] b w = Some (Inr (b, w))"
| "mp_chain cores (c # cs) b w =
     (case mp_call cores c b w of
        None \<Rightarrow> None
      | Some (Inl panic) \<Rightarrow> Some (Inl panic)
      | Some (Inr (b', w')) \<Rightarrow> mp_chain cores cs b' w')"

section \<open>The invariant\<close>

text \<open>
  The consumers as a list of stages of cursors: the finished stages and the current one. \<open>wiring\<close>
  pairs every consumer with those it waits for.
\<close>

fun wiring :: "arc list \<Rightarrow> arc list list \<Rightarrow> (arc \<times> arc list) list" where
  "wiring previous [] = []"
| "wiring previous (st # sts) = map (\<lambda>a. (a, previous)) st @ wiring st sts"

lemma wiring_snoc: "wiring previous (sts @ [st]) = wiring previous sts @ map (\<lambda>a. (a, last (previous # sts))) st"
  by (induction sts arbitrary: previous) auto

lemma wiring_new: "wiring previous (sts @ [st, []]) = wiring previous (sts @ [st])"
  by (induction sts arbitrary: previous) auto

fun state_of_stage :: "arc list \<Rightarrow> builder_state" where
  "state_of_stage [] = NC"
| "state_of_stage [a] = SC"
| "state_of_stage (a # b # as) = MC"

definition builder_inv :: "builder_state \<Rightarrow> 'e builder_context \<Rightarrow> dependent \<Rightarrow> world
    \<Rightarrow> arc list list \<Rightarrow> arc list \<Rightarrow> bool" where
  "builder_inv st ctx dep w fin stage \<longleftrightarrow>
     st = state_of_stage stage \<and> current_consumer_cursors ctx = Some stage
     \<and> (\<forall>s\<in>set fin. s \<noteq> []) \<and> dependent_arcs dep = last ([] # fin) \<and> (dep = OnProducer \<longleftrightarrow> fin = [])
     \<and> concat fin @ stage = [0..<next_arc w]
     \<and> map (\<lambda>c. (own_cursor c, dependent_arcs (waits_on c))) (consumers_of w) = wiring [] (fin @ [stage])
     \<and> (\<forall>c\<in>set (consumers_of w). waits_on c = OnProducer \<longleftrightarrow> dependent_arcs (waits_on c) = [])
     \<and> (\<forall>a < next_arc w. relaxed_value (cursors_at w a) = NONE)
     \<and> length (ctx_handles ctx) = length (filter (\<lambda>c. spawned c \<noteq> None) (consumers_of w))"


lemma builder_inv_add:
  assumes "builder_inv st ctx dep w fin stage"
    and "current_consumer_cursors ctx' = Some (stage @ [next_arc w])"
    and "length (ctx_handles ctx') = length (ctx_handles ctx) + (if spawned c = None then 0 else 1)"
    and "own_cursor c = next_arc w" "waits_on c = dep"
    and "next_arc w' = Suc (next_arc w)" "cursors_at w' = (cursors_at w)(next_arc w := cursor_new NONE)"
    and "consumers_of w' = consumers_of w @ [c]"
  shows "builder_inv (state_of_stage (stage @ [next_arc w])) ctx' dep w' fin (stage @ [next_arc w])"
proof -
  have "fin = [] \<longleftrightarrow> dependent_arcs dep = []"
  proof
    assume "fin = []"
    with assms(1) show "dependent_arcs dep = []" by (simp add: builder_inv_def)
  next
    assume none: "dependent_arcs dep = []"
    show "fin = []"
    proof (rule ccontr)
      assume "fin \<noteq> []"
      then have "last fin \<in> set fin" by simp
      with assms(1) have "last fin \<noteq> []" by (auto simp: builder_inv_def)
      with assms(1) none \<open>fin \<noteq> []\<close> show False by (simp add: builder_inv_def)
    qed
  qed
  with assms show ?thesis
    by (auto simp: builder_inv_def wiring_snoc less_Suc_eq)
qed

lemma add_event_handler_inv:
  assumes "builder_inv st ctx dep w fin stage"
  shows "\<exists>ctx' w'. add_event_handler fate dep ctx w = Inr (ctx', w')
    \<and> builder_inv (state_of_stage (stage @ [next_arc w])) ctx' dep w' fin (stage @ [next_arc w])
    \<and> ctx_ring_buffer ctx' = ctx_ring_buffer ctx"
proof -
  obtain ctx' w' x where run: "add_event_handler fate dep ctx w = Inr (ctx', w')"
    "current_consumer_cursors ctx' = Some (stage @ [next_arc w])"
    "length (ctx_handles ctx') = length (ctx_handles ctx) + 1" "ctx_ring_buffer ctx' = ctx_ring_buffer ctx"
    "next_arc w' = Suc (next_arc w)" "cursors_at w' = (cursors_at w)(next_arc w := cursor_new NONE)"
    "consumers_of w' = consumers_of w @ [\<lparr>own_cursor = next_arc w, waits_on = dep, spawned = Some x\<rparr>]"
    using assms
    by (auto simp: builder_inv_def add_event_handler_def start_processor_def new_cursor_def add_consumer_def
        add_consumer_and_cursor_def add_cursor_def split_def Let_def)
  then show ?thesis
    using builder_inv_add [OF assms run(2), of "\<lparr>own_cursor = next_arc w, waits_on = dep, spawned = Some x\<rparr>" w']
    by auto
qed

lemma add_event_handler_with_state_eq:
  "add_event_handler_with_state fate dep ctx w = add_event_handler fate dep ctx w"
  by (simp add: add_event_handler_with_state_def add_event_handler_def start_processor_with_state_def
      start_processor_def NONE_def)

lemma get_event_poller_inv:
  assumes "builder_inv st ctx dep w fin stage"
  shows "\<exists>poller ctx' w'. get_event_poller dep ctx w = Inr (poller, ctx', w')
    \<and> builder_inv (state_of_stage (stage @ [next_arc w])) ctx' dep w' fin (stage @ [next_arc w])
    \<and> ctx_ring_buffer ctx' = ctx_ring_buffer ctx"
proof -
  let ?c = "\<lparr>own_cursor = next_arc w, waits_on = dep, spawned = None\<rparr>"
  let ?w = "add_consumer ?c (snd (new_cursor NONE w))"
  let ?ctx = "ctx\<lparr>current_consumer_cursors := Some (stage @ [next_arc w])\<rparr>"
  have "get_event_poller dep ctx w = Inr (event_poller_new dep (cursor_new NONE), ?ctx, ?w)"
    using assms by (simp add: builder_inv_def get_event_poller_def new_cursor_def add_cursor_def)
  moreover have "builder_inv (state_of_stage (stage @ [next_arc w])) ?ctx dep ?w fin (stage @ [next_arc w])"
    by (rule builder_inv_add [OF assms, of _ ?c]) (simp_all add: new_cursor_def add_consumer_def)
  ultimately show ?thesis by simp
qed

lemma builder_inv_and_then:
  assumes "builder_inv st ctx dep w fin stage" "stage \<noteq> []" "dependent_arcs dep' = stage"
  shows "builder_inv NC (ctx\<lparr>current_consumer_cursors := Some []\<rparr>) dep' w (fin @ [stage]) []"
proof -
  have "dep' \<noteq> OnProducer" using assms(2,3) by auto
  with assms show ?thesis
    by (auto simp: builder_inv_def wiring_new)
qed

lemma builder_inv_settings:
  "builder_inv st (ctx\<lparr>thread_context := tc\<rparr>) dep w fin stage = builder_inv st ctx dep w fin stage"
  by (simp add: builder_inv_def)

lemma state_of_stage_SC: "state_of_stage stage = SC \<longleftrightarrow> (\<exists>a. stage = [a])"
  by (cases stage rule: state_of_stage.cases) auto

lemma state_of_stage_MC: "state_of_stage stage = MC \<longleftrightarrow> 2 \<le> length stage"
  by (cases stage rule: state_of_stage.cases) auto

lemma state_of_stage_snoc: "state_of_stage (stage @ [a]) = (if stage = [] then SC else MC)"
  by (cases stage rule: state_of_stage.cases) auto

section \<open>Every admitted call keeps the invariant\<close>

text \<open>A pinned core must exist, or \<open>pin_at_core\<close> panics by design.\<close>

definition cores_exist :: "nat list option \<Rightarrow> builder_call list \<Rightarrow> bool" where
  "cores_exist cores calls \<longleftrightarrow>
     (\<forall>core. PinAtCore core \<in> set calls \<longrightarrow> (case cores of None \<Rightarrow> False | Some cs \<Rightarrow> core \<in> set cs))"

lemma pin_at_core_eq:
  "cores_exist cores [PinAtCore core] \<Longrightarrow>
   pin_at_core cores core ctx = Inr (ctx\<lparr>thread_context := thread_context ctx\<lparr>affinity := Some core\<rparr>\<rparr>)"
  by (auto simp: cores_exist_def pin_at_core_def cpu_has_core_else_panic_def split: option.splits)

lemma up_call_inv:
  assumes inv: "builder_inv (up_state b) (up_context b) (up_dependent_barrier b) w fin stage"
    and typed: "call_state c (up_state b) = Some st'" and cores: "cores_exist cores [c]"
  shows "\<exists>b' w' fin' stage'. up_call cores c b w = Some (Inr (b', w')) \<and> up_state b' = st'
    \<and> builder_inv st' (up_context b') (up_dependent_barrier b') w' fin' stage'
    \<and> up_producer_barrier b' = up_producer_barrier b
    \<and> ctx_ring_buffer (up_context b') = ctx_ring_buffer (up_context b)"
proof -
  note handler = add_event_handler_inv [OF inv] and poller = get_event_poller_inv [OF inv]
  have st: "up_state b = state_of_stage stage"
    and cs: "current_consumer_cursors (up_context b) = Some stage"
    using inv by (auto simp: builder_inv_def)
  show ?thesis
  proof (cases c)
    case (HandleEventsWith fate)
    with handler [of fate] st typed show ?thesis
      by (cases stage rule: state_of_stage.cases)
        (force simp: up_nc_handle_events_with_def up_sc_handle_events_with_def up_mc_handle_events_with_def)+
  next
    case (HandleEventsAndStateWith fate)
    with handler [of fate] st typed show ?thesis
      by (cases stage rule: state_of_stage.cases)
        (force simp: up_nc_handle_events_and_state_with_def up_sc_handle_events_and_state_with_def
          up_mc_handle_events_and_state_with_def add_event_handler_with_state_eq)+
  next
    case AddPoller
    with poller st typed show ?thesis
      by (cases stage rule: state_of_stage.cases)
        (force simp: up_nc_event_poller_def up_sc_event_poller_def up_mc_event_poller_def)+
  next
    case AndThen
    show ?thesis
    proof (cases stage rule: state_of_stage.cases)
      case 1
      with AndThen st typed show ?thesis by simp
    next
      case (2 a)
      have "builder_inv NC ((up_context b)\<lparr>current_consumer_cursors := Some []\<rparr>)
          (OnConsumer (UniConsumerBarrier a)) w (fin @ [stage]) []"
        using inv 2 by (intro builder_inv_and_then) auto
      with AndThen st typed cs 2 show ?thesis by (auto simp: up_sc_and_then_def)
    next
      case (3 a a' as)
      have "builder_inv NC ((up_context b)\<lparr>current_consumer_cursors := Some []\<rparr>)
          (OnGroup (MultiConsumerBarrier stage)) w (fin @ [stage]) []"
        using inv 3 by (intro builder_inv_and_then) auto
      with AndThen st typed cs 3 show ?thesis by (auto simp: up_mc_and_then_def)
    qed
  next
    case (PinAtCore core)
    let ?ctx = "up_context b\<lparr>thread_context := thread_context (up_context b)\<lparr>affinity := Some core\<rparr>\<rparr>"
    have "builder_inv (up_state b) ?ctx (up_dependent_barrier b) w fin stage"
      using inv by (simp only: builder_inv_settings)
    with PinAtCore pin_at_core_eq [of cores core "up_context b"] cores typed show ?thesis
      by (simp add: up_pin_at_core_def) blast
  next
    case (ThreadName s)
    let ?ctx = "up_context b\<lparr>thread_context := thread_context (up_context b)\<lparr>thread_name := Some s\<rparr>\<rparr>"
    have "builder_inv (up_state b) ?ctx (up_dependent_barrier b) w fin stage"
      using inv by (simp only: builder_inv_settings)
    with ThreadName typed show ?thesis
      by (simp add: up_thread_name_def thread_named_def) blast
  qed
qed

lemma up_chain_inv:
  assumes "builder_inv (up_state b) (up_context b) (up_dependent_barrier b) w fin stage"
    and "chain_state calls (up_state b) = Some st'" "cores_exist cores calls"
  shows "\<exists>b' w' fin' stage'. up_chain cores calls b w = Some (Inr (b', w')) \<and> up_state b' = st'
    \<and> builder_inv st' (up_context b') (up_dependent_barrier b') w' fin' stage'
    \<and> up_producer_barrier b' = up_producer_barrier b
    \<and> ctx_ring_buffer (up_context b') = ctx_ring_buffer (up_context b)"
  using assms
proof (induction calls arbitrary: b w fin stage)
  case Nil
  then show ?case by auto
next
  case (Cons c cs)
  then obtain st1 where st1: "call_state c (up_state b) = Some st1" "chain_state cs st1 = Some st'"
    by (auto simp: bind_eq_Some_conv)
  have "cores_exist cores [c]" "cores_exist cores cs" using Cons.prems(3) by (auto simp: cores_exist_def)
  from up_call_inv [OF Cons.prems(1) st1(1) this(1)] obtain b1 w1 fin1 stage1
    where one: "up_call cores c b w = Some (Inr (b1, w1))" "up_state b1 = st1"
      "builder_inv st1 (up_context b1) (up_dependent_barrier b1) w1 fin1 stage1"
      "up_producer_barrier b1 = up_producer_barrier b"
      "ctx_ring_buffer (up_context b1) = ctx_ring_buffer (up_context b)" by blast
  from Cons.IH [of b1 w1 fin1 stage1] one st1(2) \<open>cores_exist cores cs\<close> show ?case by auto
qed

lemma mp_call_inv:
  assumes inv: "builder_inv (mp_state b) (mp_context b) (mp_dependent_barrier b) w fin stage"
    and typed: "call_state c (mp_state b) = Some st'" and cores: "cores_exist cores [c]"
  shows "\<exists>b' w' fin' stage'. mp_call cores c b w = Some (Inr (b', w')) \<and> mp_state b' = st'
    \<and> builder_inv st' (mp_context b') (mp_dependent_barrier b') w' fin' stage'
    \<and> mp_producer_barrier b' = mp_producer_barrier b
    \<and> ctx_ring_buffer (mp_context b') = ctx_ring_buffer (mp_context b)"
proof -
  note handler = add_event_handler_inv [OF inv] and poller = get_event_poller_inv [OF inv]
  have st: "mp_state b = state_of_stage stage"
    and cs: "current_consumer_cursors (mp_context b) = Some stage"
    using inv by (auto simp: builder_inv_def)
  show ?thesis
  proof (cases c)
    case (HandleEventsWith fate)
    with handler [of fate] st typed show ?thesis
      by (cases stage rule: state_of_stage.cases)
        (force simp: mp_nc_handle_events_with_def mp_sc_handle_events_with_def mp_mc_handle_events_with_def)+
  next
    case (HandleEventsAndStateWith fate)
    with handler [of fate] st typed show ?thesis
      by (cases stage rule: state_of_stage.cases)
        (force simp: mp_nc_handle_events_and_state_with_def mp_sc_handle_events_and_state_with_def
          mp_mc_handle_events_and_state_with_def add_event_handler_with_state_eq)+
  next
    case AddPoller
    with poller st typed show ?thesis
      by (cases stage rule: state_of_stage.cases)
        (force simp: mp_nc_event_poller_def mp_sc_event_poller_def mp_mc_event_poller_def)+
  next
    case AndThen
    show ?thesis
    proof (cases stage rule: state_of_stage.cases)
      case 1
      with AndThen st typed show ?thesis by simp
    next
      case (2 a)
      have "builder_inv NC ((mp_context b)\<lparr>current_consumer_cursors := Some []\<rparr>)
          (OnConsumer (UniConsumerBarrier a)) w (fin @ [stage]) []"
        using inv 2 by (intro builder_inv_and_then) auto
      with AndThen st typed cs 2 show ?thesis by (auto simp: mp_sc_and_then_def)
    next
      case (3 a a' as)
      have "builder_inv NC ((mp_context b)\<lparr>current_consumer_cursors := Some []\<rparr>)
          (OnGroup (MultiConsumerBarrier stage)) w (fin @ [stage]) []"
        using inv 3 by (intro builder_inv_and_then) auto
      with AndThen st typed cs 3 show ?thesis by (auto simp: mp_mc_and_then_def)
    qed
  next
    case (PinAtCore core)
    let ?ctx = "mp_context b\<lparr>thread_context := thread_context (mp_context b)\<lparr>affinity := Some core\<rparr>\<rparr>"
    have "builder_inv (mp_state b) ?ctx (mp_dependent_barrier b) w fin stage"
      using inv by (simp only: builder_inv_settings)
    with PinAtCore pin_at_core_eq [of cores core "mp_context b"] cores typed show ?thesis
      by (simp add: mp_pin_at_core_def) blast
  next
    case (ThreadName s)
    let ?ctx = "mp_context b\<lparr>thread_context := thread_context (mp_context b)\<lparr>thread_name := Some s\<rparr>\<rparr>"
    have "builder_inv (mp_state b) ?ctx (mp_dependent_barrier b) w fin stage"
      using inv by (simp only: builder_inv_settings)
    with ThreadName typed show ?thesis
      by (simp add: mp_thread_name_def thread_named_def) blast
  qed
qed

lemma mp_chain_inv:
  assumes "builder_inv (mp_state b) (mp_context b) (mp_dependent_barrier b) w fin stage"
    and "chain_state calls (mp_state b) = Some st'" "cores_exist cores calls"
  shows "\<exists>b' w' fin' stage'. mp_chain cores calls b w = Some (Inr (b', w')) \<and> mp_state b' = st'
    \<and> builder_inv st' (mp_context b') (mp_dependent_barrier b') w' fin' stage'
    \<and> mp_producer_barrier b' = mp_producer_barrier b
    \<and> ctx_ring_buffer (mp_context b') = ctx_ring_buffer (mp_context b)"
  using assms
proof (induction calls arbitrary: b w fin stage)
  case Nil
  then show ?case by auto
next
  case (Cons c cs)
  then obtain st1 where st1: "call_state c (mp_state b) = Some st1" "chain_state cs st1 = Some st'"
    by (auto simp: bind_eq_Some_conv)
  have "cores_exist cores [c]" "cores_exist cores cs" using Cons.prems(3) by (auto simp: cores_exist_def)
  from mp_call_inv [OF Cons.prems(1) st1(1) this(1)] obtain b1 w1 fin1 stage1
    where one: "mp_call cores c b w = Some (Inr (b1, w1))" "mp_state b1 = st1"
      "builder_inv st1 (mp_context b1) (mp_dependent_barrier b1) w1 fin1 stage1"
      "mp_producer_barrier b1 = mp_producer_barrier b"
      "ctx_ring_buffer (mp_context b1) = ctx_ring_buffer (mp_context b)" by blast
  from Cons.IH [of b1 w1 fin1 stage1] one st1(2) \<open>cores_exist cores cs\<close> show ?case by auto
qed

section \<open>From the start\<close>

definition world_new :: world where
  "world_new = \<lparr>next_arc = 0, cursors_at = (\<lambda>_. cursor_new NONE), consumers_of = []\<rparr>"

lemma builder_context_new_inv:
  assumes "builder_context_new n event_source f ws = Inr ctx"
  shows "builder_inv NC ctx OnProducer world_new [] []"
  using assms
  by (auto simp: builder_context_new_def try_bind_Inr builder_inv_def world_new_def)

lemma builder_context_new_ok:
  assumes "is_power_of_two n"
  shows "\<exists>ctx rb f'. ring_new n event_source f = Inr (rb, f') \<and>
    builder_context_new n event_source f ws = Inr ctx \<and> ctx_ring_buffer ctx = rb"
  using assms by (auto simp: builder_context_new_def ring_new_def split_def Let_def)

lemma fresh_rear:
  assumes "\<forall>a\<in>set stage. relaxed_value (cs a) = NONE" "stage \<noteq> []"
  shows "multi_consumer_get_after (MultiConsumerBarrier stage) cs lb = -1"
proof -
  have "group_ready (mc_cursors (MultiConsumerBarrier stage)) cs"
    using assms by (simp add: group_ready_def NONE_def i64_MAX_def)
  from multi_consumer_get_after_least [OF this, of lb] assms(1) show ?thesis
    by (auto simp: NONE_def)
qed

section \<open>Properties\<close>

text \<open>What a finished chain has wired: the stages, and who waits for whom.\<close>

definition wired :: "world \<Rightarrow> arc list list \<Rightarrow> bool" where
  "wired w stages \<longleftrightarrow> stages \<noteq> [] \<and> concat stages = [0..<next_arc w] \<and> (\<forall>st\<in>set (butlast stages). st \<noteq> [])
     \<and> map (\<lambda>c. (own_cursor c, dependent_arcs (waits_on c))) (consumers_of w) = wiring [] stages
     \<and> (\<forall>a < next_arc w. relaxed_value (cursors_at w a) = NONE)"

lemma mp_new_published:
  assumes "mp_barrier_new n = Inr mb" "is_power_of_two n" "n < 2 ^ 61" "wf_ring rb" "length (slots rb) = n"
    and "rear m = -1"
  shows "mp_published rear (snd (multi_producer_new sd rb mb hs cb m))"
    and "mp_handle_ok rear (snd (multi_producer_new sd rb mb hs cb m)) (fst (multi_producer_new sd rb mb hs cb m))"
proof -
  have n: "n < 2 ^ 63" using assms(3) by simp
  note new = mp_barrier_new_wf [OF assms(1,2) n] mp_barrier_new_represents [OF assms(1,2) n]
  have cap: "0 < n" "int n < 2 ^ 61" using assms(2,3) by (auto simp: is_power_of_two_def)
  then have "i64 (int n - 1) = int n - 1" by (intro i64_id) (simp add: in_i64_iff)
  with new cap assms(4-6) show "mp_published rear (snd (multi_producer_new sd rb mb hs cb m))"
    "mp_handle_ok rear (snd (multi_producer_new sd rb mb hs cb m)) (fst (multi_producer_new sd rb mb hs cb m))"
    by (simp_all add: mp_published_def mp_ok_def multi_producer_new_def mp_handle_ok_def NONE_def)
qed

lemma uni_producer_new_barrier: "uni_producer.consumer_barrier (uni_producer_new sd rb b hs cb) = cb"
  by (simp add: uni_producer_new_def)

lemma multi_producer_new_barrier:
  "multi_producer_new sd rb mb hs cb m = (p, \<sigma>) \<Longrightarrow> multi_producer.consumer_barrier p = cb"
  by (auto simp: multi_producer_new_def)

lemma builder_inv_wired: "builder_inv st ctx dep w fin stage \<Longrightarrow> wired w (fin @ [stage])"
  by (simp add: builder_inv_def wired_def)

lemma builder_inv_stage_fresh:
  assumes "builder_inv st ctx dep w fin stage"
  shows "\<forall>a\<in>set stage. relaxed_value (cursors_at w a) = NONE"
proof
  fix a assume "a \<in> set stage"
  then have "a \<in> set (concat fin @ stage)" by simp
  also have "\<dots> = {0..<next_arc w}" using assms by (simp add: builder_inv_def atLeastLessThan_upt [symmetric] del: set_append)
  finally show "relaxed_value (cursors_at w a) = NONE" using assms by (simp add: builder_inv_def)
qed

text \<open>What a chain on the single-producer builder leaves, in full.\<close>

lemma up_chain_builds:
  assumes "n = 2 ^ k" "n < 2 ^ 63" "chain_state calls NC = Some st" "cores_exist cores calls"
  shows "\<exists>b0 b w fin stage rb. build_uni_producer_unchecked n event_source f ws = Inr b0
    \<and> up_chain cores calls b0 world_new = Some (Inr (b, w)) \<and> st = state_of_stage stage
    \<and> builder_inv st (up_context b) (up_dependent_barrier b) w fin stage
    \<and> wf_ring rb \<and> length (slots rb) = n
    \<and> (case stage of
        [] \<Rightarrow> True
      | [a] \<Rightarrow> up_sc_build b = Inr (uni_producer_new (ctx_shutdown (up_context b)) rb uni_producer_barrier_new
          (ctx_handles (up_context b)) (UniConsumerBarrier a))
      | _ \<Rightarrow> up_mc_build b = Inr (uni_producer_new (ctx_shutdown (up_context b)) rb uni_producer_barrier_new
          (ctx_handles (up_context b)) (MultiConsumerBarrier stage)))"
proof -
  have "is_power_of_two n" using assms(1) by (auto simp: is_power_of_two_iff)
  then obtain ctx rb f' where ctx: "ring_new n event_source f = Inr (rb, f')"
    "builder_context_new n event_source f ws = Inr ctx" "ctx_ring_buffer ctx = rb"
    using builder_context_new_ok [of n event_source f ws] by blast
  have wf: "wf_ring rb" "length (slots rb) = n" using ring_new_wf [OF ctx(1) assms(2)] by simp_all
  let ?b0 = "\<lparr>up_state = NC, up_context = ctx, up_producer_barrier = uni_producer_barrier_new,
    up_dependent_barrier = OnProducer\<rparr>"
  have new: "build_uni_producer_unchecked n event_source f ws = Inr ?b0"
    by (simp add: build_uni_producer_unchecked_def up_builder_new_def ctx(2))
  from up_chain_inv [of ?b0 world_new "[]" "[]" calls st cores] builder_context_new_inv [OF ctx(2)] assms(3,4)
  obtain b w fin stage where b: "up_chain cores calls ?b0 world_new = Some (Inr (b, w))"
    "builder_inv st (up_context b) (up_dependent_barrier b) w fin stage"
    "up_producer_barrier b = uni_producer_barrier_new" "ctx_ring_buffer (up_context b) = rb"
    using ctx(3) by auto
  have cs: "current_consumer_cursors (up_context b) = Some stage" "st = state_of_stage stage"
    using b(2) by (simp_all add: builder_inv_def)
  have "case stage of
        [] \<Rightarrow> True
      | [a] \<Rightarrow> up_sc_build b = Inr (uni_producer_new (ctx_shutdown (up_context b)) rb uni_producer_barrier_new
          (ctx_handles (up_context b)) (UniConsumerBarrier a))
      | _ \<Rightarrow> up_mc_build b = Inr (uni_producer_new (ctx_shutdown (up_context b)) rb uni_producer_barrier_new
          (ctx_handles (up_context b)) (MultiConsumerBarrier stage))"
    using cs(1) b(3,4) by (auto simp: up_sc_build_def up_mc_build_def Let_def split: list.split)
  with new b(1,2) cs(2) wf show ?thesis by blast
qed

text \<open>The same on the multi-producer builder.\<close>

lemma mp_chain_builds:
  assumes "n = 2 ^ k" "64 \<le> n" "n < 2 ^ 63" "chain_state calls NC = Some st" "cores_exist cores calls"
  shows "\<exists>b0 b w fin stage rb mb. build_multi_producer_unchecked n event_source f ws = Inr b0
    \<and> mp_chain cores calls b0 world_new = Some (Inr (b, w)) \<and> st = state_of_stage stage
    \<and> builder_inv st (mp_context b) (mp_dependent_barrier b) w fin stage
    \<and> wf_ring rb \<and> length (slots rb) = n \<and> mp_barrier_new n = Inr mb
    \<and> (case stage of
        [] \<Rightarrow> True
      | [a] \<Rightarrow> mp_sc_build b (cursors_at w) = Inr (multi_producer_new (ctx_shutdown (mp_context b)) rb mb
          (ctx_handles (mp_context b)) (UniConsumerBarrier a) (cursors_at w))
      | _ \<Rightarrow> mp_mc_build b (cursors_at w) = Inr (multi_producer_new (ctx_shutdown (mp_context b)) rb mb
          (ctx_handles (mp_context b)) (MultiConsumerBarrier stage) (cursors_at w)))"
proof -
  have "is_power_of_two n" using assms(1) by (auto simp: is_power_of_two_iff)
  then obtain ctx rb f' where ctx: "ring_new n event_source f = Inr (rb, f')"
    "builder_context_new n event_source f ws = Inr ctx" "ctx_ring_buffer ctx = rb"
    using builder_context_new_ok [of n event_source f ws] by blast
  have wf: "wf_ring rb" "length (slots rb) = n" using ring_new_wf [OF ctx(1) assms(3)] by simp_all
  obtain mb where mb: "mp_barrier_new n = Inr mb" using assms(2) by (auto simp: mp_barrier_new_def Let_def)
  let ?b0 = "\<lparr>mp_state = NC, mp_context = ctx, mp_producer_barrier = mb, mp_dependent_barrier = OnProducer\<rparr>"
  have new: "build_multi_producer_unchecked n event_source f ws = Inr ?b0"
    by (simp add: build_multi_producer_unchecked_def mp_builder_new_def mb ctx(2))
  from mp_chain_inv [of ?b0 world_new "[]" "[]" calls st cores] builder_context_new_inv [OF ctx(2)] assms(4,5)
  obtain b w fin stage where b: "mp_chain cores calls ?b0 world_new = Some (Inr (b, w))"
    "builder_inv st (mp_context b) (mp_dependent_barrier b) w fin stage"
    "mp_producer_barrier b = mb" "ctx_ring_buffer (mp_context b) = rb"
    using ctx(3) by auto
  have cs: "current_consumer_cursors (mp_context b) = Some stage" "st = state_of_stage stage"
    using b(2) by (simp_all add: builder_inv_def)
  have "case stage of
        [] \<Rightarrow> True
      | [a] \<Rightarrow> mp_sc_build b (cursors_at w) = Inr (multi_producer_new (ctx_shutdown (mp_context b)) rb mb
          (ctx_handles (mp_context b)) (UniConsumerBarrier a) (cursors_at w))
      | _ \<Rightarrow> mp_mc_build b (cursors_at w) = Inr (multi_producer_new (ctx_shutdown (mp_context b)) rb mb
          (ctx_handles (mp_context b)) (MultiConsumerBarrier stage) (cursors_at w))"
    using cs(1) b(3,4) by (auto simp: mp_sc_build_def mp_mc_build_def Let_def split: list.split)
  with new b(1,2) cs(2) wf mb show ?thesis by blast
qed

text \<open>
  C32. No chain of calls that type-checks on the single-producer builder can panic, for any power of
  two as size and any existing cores: all cursors are there to be unwrapped and removed. The chain
  wires every consumer to exactly the consumers of the stage before its own, and the finished
  producer is gated by all consumers of the last stage and starts in its invariant.
\<close>

theorem up_chain_wires:
  assumes "n = 2 ^ k" "n < 2 ^ 63" "chain_state calls NC = Some st" "cores_exist cores calls"
  shows "\<exists>b0 b w stages. build_uni_producer_unchecked n event_source f ws = Inr b0
    \<and> up_chain cores calls b0 world_new = Some (Inr (b, w)) \<and> wired w stages
    \<and> (case st of
        NC \<Rightarrow> last stages = []
      | SC \<Rightarrow> \<exists>a p. last stages = [a] \<and> up_sc_build b = Inr p \<and> uni_inv (-1) p
          \<and> uni_producer.consumer_barrier p = UniConsumerBarrier a
      | MC \<Rightarrow> \<exists>p. 2 \<le> length (last stages) \<and> up_mc_build b = Inr p \<and> uni_inv (-1) p
          \<and> uni_producer.consumer_barrier p = MultiConsumerBarrier (last stages))"
proof -
  from up_chain_builds [OF assms, of event_source f ws] obtain b0 b w fin stage rb where
    chain: "build_uni_producer_unchecked n event_source f ws = Inr b0"
      "up_chain cores calls b0 world_new = Some (Inr (b, w))" "st = state_of_stage stage"
      "builder_inv st (up_context b) (up_dependent_barrier b) w fin stage"
    and wf: "wf_ring rb"
    and build: "case stage of
        [] \<Rightarrow> True
      | [a] \<Rightarrow> up_sc_build b = Inr (uni_producer_new (ctx_shutdown (up_context b)) rb uni_producer_barrier_new
          (ctx_handles (up_context b)) (UniConsumerBarrier a))
      | _ \<Rightarrow> up_mc_build b = Inr (uni_producer_new (ctx_shutdown (up_context b)) rb uni_producer_barrier_new
          (ctx_handles (up_context b)) (MultiConsumerBarrier stage))" by blast
  note inv = uni_inv_new [OF wf]
  have "case st of
        NC \<Rightarrow> last (fin @ [stage]) = []
      | SC \<Rightarrow> \<exists>a p. last (fin @ [stage]) = [a] \<and> up_sc_build b = Inr p \<and> uni_inv (-1) p
          \<and> uni_producer.consumer_barrier p = UniConsumerBarrier a
      | MC \<Rightarrow> \<exists>p. 2 \<le> length (last (fin @ [stage])) \<and> up_mc_build b = Inr p \<and> uni_inv (-1) p
          \<and> uni_producer.consumer_barrier p = MultiConsumerBarrier (last (fin @ [stage]))"
    using build chain(3) by (cases stage rule: state_of_stage.cases) (auto simp: uni_producer_new_barrier inv)
  with chain(1,2) builder_inv_wired [OF chain(4)] show ?thesis by blast
qed

theorem up_chain_wires_witness:
  "\<exists>b0 b w stages. build_uni_producer_unchecked 8 (\<lambda>u. (0::int, u)) () BusySpin = Inr b0
    \<and> up_chain (Some [0, 1]) [HandleEventsWith Finished, PinAtCore 1, AddPoller, AndThen, HandleEventsWith Finished]
        b0 world_new = Some (Inr (b, w)) \<and> wired w stages
    \<and> (\<exists>a p. last stages = [a] \<and> up_sc_build b = Inr p \<and> uni_inv (-1) p
          \<and> uni_producer.consumer_barrier p = UniConsumerBarrier a)"
  using up_chain_wires [of 8 3 "[HandleEventsWith Finished, PinAtCore 1, AddPoller, AndThen, HandleEventsWith Finished]"
      SC "Some [0, 1]" "\<lambda>u. (0::int, u)" "()" BusySpin]
  by (simp add: cores_exist_def)

text \<open>
  C33. The same for the multi-producer builder, for every power of two from 64 on: no admitted chain
  panics, the stages are wired in the same way, and the finished producer starts gated by the last
  stage, with nothing published and no consumer past anything.
\<close>

theorem mp_chain_wires:
  assumes "n = 2 ^ k" "64 \<le> n" "n < 2 ^ 61" "chain_state calls NC = Some st" "cores_exist cores calls"
  shows "\<exists>b0 b w stages. build_multi_producer_unchecked n event_source f ws = Inr b0
    \<and> mp_chain cores calls b0 world_new = Some (Inr (b, w)) \<and> wired w stages
    \<and> (case st of
        NC \<Rightarrow> last stages = []
      | SC \<Rightarrow> \<exists>a p \<sigma>. last stages = [a] \<and> mp_sc_build b (cursors_at w) = Inr (p, \<sigma>)
          \<and> multi_producer.consumer_barrier p = UniConsumerBarrier a
          \<and> mp_published (\<lambda>cs. relaxed_value (cs a)) \<sigma> \<and> mp_handle_ok (\<lambda>cs. relaxed_value (cs a)) \<sigma> p
      | MC \<Rightarrow> \<exists>p \<sigma>. 2 \<le> length (last stages) \<and> mp_mc_build b (cursors_at w) = Inr (p, \<sigma>)
          \<and> multi_producer.consumer_barrier p = MultiConsumerBarrier (last stages)
          \<and> mp_published (\<lambda>cs. multi_consumer_get_after (MultiConsumerBarrier (last stages)) cs 0) \<sigma>
          \<and> mp_handle_ok (\<lambda>cs. multi_consumer_get_after (MultiConsumerBarrier (last stages)) cs 0) \<sigma> p)"
proof -
  from mp_chain_builds [OF assms(1,2) _ assms(4,5), of event_source f ws] assms(3)
  obtain b0 b w fin stage rb mb where
    chain: "build_multi_producer_unchecked n event_source f ws = Inr b0"
      "mp_chain cores calls b0 world_new = Some (Inr (b, w))" "st = state_of_stage stage"
      "builder_inv st (mp_context b) (mp_dependent_barrier b) w fin stage"
    and rb: "wf_ring rb" "length (slots rb) = n" and mb: "mp_barrier_new n = Inr mb"
    and build: "case stage of
        [] \<Rightarrow> True
      | [a] \<Rightarrow> mp_sc_build b (cursors_at w) = Inr (multi_producer_new (ctx_shutdown (mp_context b)) rb mb
          (ctx_handles (mp_context b)) (UniConsumerBarrier a) (cursors_at w))
      | _ \<Rightarrow> mp_mc_build b (cursors_at w) = Inr (multi_producer_new (ctx_shutdown (mp_context b)) rb mb
          (ctx_handles (mp_context b)) (MultiConsumerBarrier stage) (cursors_at w))"
    by auto
  note fresh = builder_inv_stage_fresh [OF chain(4)]
  have pow: "is_power_of_two n" using assms(1) by (auto simp: is_power_of_two_iff)
  have start: "\<exists>p \<sigma>. multi_producer_new sd rb mb hs cb (cursors_at w) = (p, \<sigma>) \<and> multi_producer.consumer_barrier p = cb
      \<and> mp_published rear \<sigma> \<and> mp_handle_ok rear \<sigma> p" if "rear (cursors_at w) = -1" for rear sd hs cb
    using mp_new_published [OF mb pow assms(3) rb, of rear "cursors_at w" sd hs cb] that
    by (auto simp: multi_producer_new_def)
  have "case st of
        NC \<Rightarrow> last (fin @ [stage]) = []
      | SC \<Rightarrow> \<exists>a p \<sigma>. last (fin @ [stage]) = [a] \<and> mp_sc_build b (cursors_at w) = Inr (p, \<sigma>)
          \<and> multi_producer.consumer_barrier p = UniConsumerBarrier a
          \<and> mp_published (\<lambda>cs. relaxed_value (cs a)) \<sigma> \<and> mp_handle_ok (\<lambda>cs. relaxed_value (cs a)) \<sigma> p
      | MC \<Rightarrow> \<exists>p \<sigma>. 2 \<le> length (last (fin @ [stage])) \<and> mp_mc_build b (cursors_at w) = Inr (p, \<sigma>)
          \<and> multi_producer.consumer_barrier p = MultiConsumerBarrier (last (fin @ [stage]))
          \<and> mp_published (\<lambda>cs. multi_consumer_get_after (MultiConsumerBarrier (last (fin @ [stage]))) cs 0) \<sigma>
          \<and> mp_handle_ok (\<lambda>cs. multi_consumer_get_after (MultiConsumerBarrier (last (fin @ [stage]))) cs 0) \<sigma> p"
  proof (cases stage rule: state_of_stage.cases)
    case 1
    with chain(3) show ?thesis by simp
  next
    case (2 a)
    have "relaxed_value (cursors_at w a) = -1" using fresh 2 by (simp add: NONE_def)
    from start [of "\<lambda>cs. relaxed_value (cs a)" "ctx_shutdown (mp_context b)" "ctx_handles (mp_context b)"
        "UniConsumerBarrier a", OF this]
    obtain p \<sigma> where "multi_producer_new (ctx_shutdown (mp_context b)) rb mb (ctx_handles (mp_context b))
        (UniConsumerBarrier a) (cursors_at w) = (p, \<sigma>)" "multi_producer.consumer_barrier p = UniConsumerBarrier a"
      "mp_published (\<lambda>cs. relaxed_value (cs a)) \<sigma>" "mp_handle_ok (\<lambda>cs. relaxed_value (cs a)) \<sigma> p"
      by (elim exE conjE)
    moreover from this(1) have "mp_sc_build b (cursors_at w) = Inr (p, \<sigma>)" using build unfolding 2 by simp
    moreover have "st = SC" "stage = [a]" using 2 chain(3) by simp_all
    ultimately show ?thesis unfolding last_snoc by (simp only: builder_state.case) blast
  next
    case (3 a a' as)
    have "multi_consumer_get_after (MultiConsumerBarrier stage) (cursors_at w) 0 = -1"
      using 3 by (intro fresh_rear [OF fresh]) simp
    from start [of "\<lambda>cs. multi_consumer_get_after (MultiConsumerBarrier stage) cs 0" "ctx_shutdown (mp_context b)"
        "ctx_handles (mp_context b)" "MultiConsumerBarrier stage", OF this]
    obtain p \<sigma> where "multi_producer_new (ctx_shutdown (mp_context b)) rb mb (ctx_handles (mp_context b))
        (MultiConsumerBarrier stage) (cursors_at w) = (p, \<sigma>)"
      "multi_producer.consumer_barrier p = MultiConsumerBarrier stage"
      "mp_published (\<lambda>cs. multi_consumer_get_after (MultiConsumerBarrier stage) cs 0) \<sigma>"
      "mp_handle_ok (\<lambda>cs. multi_consumer_get_after (MultiConsumerBarrier stage) cs 0) \<sigma> p" by (elim exE conjE)
    moreover from this(1) have "mp_mc_build b (cursors_at w) = Inr (p, \<sigma>)" using build unfolding 3 by simp
    moreover have "st = MC" "2 \<le> length stage" using 3 chain(3) by simp_all
    ultimately show ?thesis unfolding last_snoc by (simp only: builder_state.case) blast
  qed
  with chain(1,2) builder_inv_wired [OF chain(4)] show ?thesis by blast
qed

theorem mp_chain_wires_witness:
  "\<exists>b0 b w stages. build_multi_producer_unchecked 64 (\<lambda>u. (0::int, u)) () BusySpin = Inr b0
    \<and> mp_chain None [AddPoller, HandleEventsWith Finished] b0 world_new = Some (Inr (b, w)) \<and> wired w stages
    \<and> (\<exists>p \<sigma>. 2 \<le> length (last stages) \<and> mp_mc_build b (cursors_at w) = Inr (p, \<sigma>)
          \<and> multi_producer.consumer_barrier p = MultiConsumerBarrier (last stages))"
  using mp_chain_wires [of 64 6 "[AddPoller, HandleEventsWith Finished]" MC None "\<lambda>u. (0::int, u)" "()" BusySpin]
  by (simp add: cores_exist_def) blast

text \<open>
  C38. The sizes \<open>Disruptor::with_capacity\<close> admits are powers of two, so the single-producer builder never
  panics for them; the multi-producer builder still panics at run time for those below 64, which
  type-check just as well.
\<close>

theorem verified_sizes_panic_iff:
  assumes "N \<in> set verified_sizes"
  shows "(\<exists>b. disruptor_build_uni_producer N event_source f ws = Inr b)
    \<and> ((\<exists>p. disruptor_build_multi_producer N event_source f ws = Inl p) \<longleftrightarrow> N < 64)"
proof -
  have "verified_sizes = map (\<lambda>k. 2 ^ k) [0..<21]"
    by (simp add: verified_sizes_def upt_rec)
  then have "N \<in> set (map (\<lambda>k. 2 ^ k) [0..<21])" using assms by (simp only:)
  then have "is_power_of_two N" by (auto simp: is_power_of_two_iff)
  then obtain ctx where "builder_context_new N event_source f ws = Inr ctx"
    using builder_context_new_ok [of N event_source f ws] by blast
  then show ?thesis
    by (auto simp: disruptor_build_uni_producer_def build_uni_producer_unchecked_def up_builder_new_def
        disruptor_build_multi_producer_def build_multi_producer_unchecked_def mp_builder_new_def
        mp_barrier_new_def Let_def)
qed

theorem verified_sizes_panic_iff_witness:
  "(\<exists>b. disruptor_build_uni_producer 32 (\<lambda>u. (0::int, u)) () BusySpin = Inr b)
   \<and> (\<exists>p. disruptor_build_multi_producer 32 (\<lambda>u. (0::int, u)) () BusySpin = Inl p)"
  using verified_sizes_panic_iff [of 32 "\<lambda>u. (0::int, u)" "()" BusySpin] by (simp add: verified_sizes_def)

text \<open>
  The names of a series of managed consumers; before each, \<open>thread_name\<close> was called with the given
  name or not at all.
\<close>

fun thread_names :: "string option list \<Rightarrow> 'e builder_context \<Rightarrow> string list" where
  "thread_names [] ctx = []"
| "thread_names (r # rs) ctx =
     (let ctx1 = (case r of None \<Rightarrow> ctx | Some s \<Rightarrow> thread_named s ctx);
          (name, tc) = pop_name (thread_context ctx1)
      in name # thread_names rs (ctx1\<lparr>thread_context := tc\<rparr>))"

lemma length_thread_names [simp]: "length (thread_names rs ctx) = length rs"
  by (induction rs arbitrary: ctx) (auto simp: split_def Let_def)

lemma thread_names_nth:
  assumes "thread_name (thread_context ctx) = None" "i < length rs"
  shows "thread_names rs ctx ! i = (case rs ! i of
      Some s \<Rightarrow> s
    | None \<Rightarrow> ''processor-'' @ show_nat (processor_id (thread_context ctx)
        + length (filter (\<lambda>r. r = None) (take (Suc i) rs))))"
  using assms
proof (induction rs arbitrary: ctx i)
  case (Cons r rs)
  show ?case
  proof (cases r)
    case None
    with Cons.prems Cons.IH [of "ctx\<lparr>thread_context := snd (pop_name (thread_context ctx))\<rparr>" "i - 1"] show ?thesis
      by (cases i) (auto simp: pop_name_def Let_def split: option.splits)
  next
    case (Some s)
    with Cons.prems Cons.IH [of "ctx\<lparr>thread_context := thread_context ctx\<lparr>thread_name := None\<rparr>\<rparr>" "i - 1"] show ?thesis
      by (cases i) (auto simp: pop_name_def thread_named_def Let_def split: option.splits)
  qed
qed simp

text \<open>
  A name given with \<open>thread_name\<close> goes to the next managed consumer and to no other, and the
  names made up for the others are pairwise different.
\<close>

theorem thread_names_apply_once:
  assumes "thread_name (thread_context ctx) = None"
  shows "(\<forall>i < length rs. \<forall>s. rs ! i = Some s \<longrightarrow> thread_names rs ctx ! i = s)
    \<and> (\<forall>i < length rs. \<forall>j < length rs. i \<noteq> j \<and> rs ! i = None \<and> rs ! j = None \<longrightarrow>
        thread_names rs ctx ! i \<noteq> thread_names rs ctx ! j)"
proof -
  have less: "thread_names rs ctx ! i \<noteq> thread_names rs ctx ! j"
    if "i < j" "j < length rs" "rs ! i = None" "rs ! j = None" for i j
  proof -
    let ?count = "\<lambda>k. length (filter (\<lambda>r. r = None) (take (Suc k) rs))"
    have "?count i \<le> length (filter (\<lambda>r. r = None) (take j rs))"
    proof -
      have "take j rs = take (Suc i) rs @ take (j - Suc i) (drop (Suc i) rs)"
        using that(1) by (metis Suc_leI le_add_diff_inverse take_add)
      then show ?thesis by simp
    qed
    also have "\<dots> < ?count j" using that by (simp add: take_Suc_conv_app_nth)
    finally show ?thesis
      using thread_names_nth [OF assms, of i rs] thread_names_nth [OF assms, of j rs] that
      by (auto dest: show_nat_inj)
  qed
  have "thread_names rs ctx ! i \<noteq> thread_names rs ctx ! j"
    if "i < length rs" "j < length rs" "i \<noteq> j" "rs ! i = None" "rs ! j = None" for i j
    using less [of i j] less [of j i] that by (cases "i < j") (auto simp: not_less)
  then show ?thesis using thread_names_nth [OF assms] by simp
qed

definition ex_ctx :: "int builder_context" where
  "ex_ctx = \<lparr>ctx_shutdown = NONE, ctx_ring_buffer = ex_ring, ctx_handles = [],
     current_consumer_cursors = Some [], wait_strategy = BusySpin, thread_context = thread_context_default\<rparr>"

theorem thread_names_apply_once_witness:
  "thread_names [None, Some ''tap'', None] ex_ctx ! 1 = ''tap''
   \<and> thread_names [None, Some ''tap'', None] ex_ctx ! 0 \<noteq> thread_names [None, Some ''tap'', None] ex_ctx ! 2"
proof -
  have "thread_name (thread_context ex_ctx) = None" by (simp add: ex_ctx_def thread_context_default_def)
  note names = thread_names_apply_once [OF this, of "[None, Some ''tap'', None]"]
  show ?thesis
    using names [THEN conjunct1, rule_format, of 1 "''tap''"] names [THEN conjunct2, rule_format, of 0 2] by simp
qed

end
