(* ===== verification/Consumer_Steps.thy ===== *)
theory Consumer_Steps
  imports Ring_Buffer Barriers
begin

text \<open>
  The consumers of a running disruptor, managed threads (\<open>src/consumer/managed.rs\<close>) and pollers
  (\<open>src/consumer/unmanaged.rs\<close>), as an interleaving of their atomic steps and of their reads of slots,
  behind any kind of producer. What they rely on of the producer's side, that a look at its barrier
  finds published events only and makes their writes visible, is the locale \<open>source\<close>; the lemmas are
  proved in it once.

  Memory is weaker than an interleaving: an atomic location is the list of all values ever stored
  to it, each with the accesses its \<open>Release\<close> makes visible, and a \<open>Relaxed\<close> load of a cursor may
  return any of them, however old. A thread's view is the set of slot accesses that happen before
  its next step; an \<open>Acquire\<close> fence adds what came with the values loaded before it.
\<close>

section \<open>State\<close>

datatype access = Wr sequence | Rd arc sequence

type_synonym message = "sequence \<times> access set"

datatype cons_phase = Waiting | Handling sequence | Ended | Crashed

text \<open>
  \<open>next_seq\<close> is a thread's \<open>sequence\<close>, or the \<open>sequence\<close> of a poller's guard; \<open>c_history\<close> is the cursor;
  \<open>c_seen\<close> is how far the thread has read the producer's locations; \<open>c_log\<close> only records the events
  handed to the client.
\<close>

record ('e, 'x) consumer_state =
  next_seq :: sequence
  c_phase :: cons_phase
  c_seen :: 'x
  c_history :: "message list"
  c_view :: "access set"
  c_log :: "(sequence \<times> 'e \<times> bool) list"

text \<open>Who waits for whom, as the builder wired it, and who is a poller.\<close>

record config =
  stages :: "arc list list"
  waits :: "arc \<Rightarrow> dependent"
  is_poller :: "arc \<Rightarrow> bool"

abbreviation all_consumers :: "config \<Rightarrow> arc list" where
  "all_consumers cfg \<equiv> concat (stages cfg)"

definition wf_config :: "config \<Rightarrow> dependent \<Rightarrow> bool" where
  "wf_config cfg gate \<longleftrightarrow> stages cfg \<noteq> [] \<and> distinct (all_consumers cfg) \<and> [] \<notin> set (stages cfg)
     \<and> gate \<noteq> OnProducer \<and> dependent_arcs gate = last (stages cfg)
     \<and> (\<forall>j < length (stages cfg). \<forall>i \<in> set (stages cfg ! j).
          if j = 0 then waits cfg i = OnProducer
          else waits cfg i \<noteq> OnProducer \<and> dependent_arcs (waits cfg i) = stages cfg ! (j - 1))"

section \<open>Steps\<close>

text \<open>\<open>get_after\<close> of a barrier on consumers; the sum replaces the static dispatch.\<close>

fun consumers_get_after :: "dependent \<Rightarrow> (cursors \<Rightarrow> sequence \<Rightarrow> sequence) option" where
  "consumers_get_after OnProducer = None"
| "consumers_get_after (OnConsumer b) = Some (uni_consumer_get_after b)"
| "consumers_get_after (OnGroup b) = Some (multi_consumer_get_after b)"

definition gate_get_after :: "dependent \<Rightarrow> cursors \<Rightarrow> sequence \<Rightarrow> sequence" where
  "gate_get_after gate = the (consumers_get_after gate)"

text \<open>
  Relaxed loads of the cursors a barrier reads return any message of each: the values, and what an
  \<open>Acquire\<close> fence makes visible after them.
\<close>

definition may_load :: "(arc \<Rightarrow> ('e, 'x) consumer_state) \<Rightarrow> dependent \<Rightarrow> (arc \<Rightarrow> message) \<Rightarrow> bool" where
  "may_load cs dep msgs \<longleftrightarrow> (\<forall>a\<in>set (dependent_arcs dep). msgs a \<in> set (c_history (cs a)))"

definition loaded :: "(arc \<Rightarrow> message) \<Rightarrow> cursors" where
  "loaded msgs = (\<lambda>a. cursor_new (fst (msgs a)))"

definition acquired :: "dependent \<Rightarrow> (arc \<Rightarrow> message) \<Rightarrow> access set" where
  "acquired dep msgs = (\<Union>a\<in>set (dependent_arcs dep). snd (msgs a))"

text \<open>
  \<open>source q x found V x'\<close>: \<open>get_after(q)\<close> on the producer's barrier may return \<open>found\<close> to a thread that
  has read up to \<open>x\<close>; the fence adds \<open>V\<close>, and it has then read up to \<open>x'\<close>. \<open>looks\<close> is the same for the
  barrier of consumer \<open>i\<close>.
\<close>

type_synonym 'x source = "sequence \<Rightarrow> 'x \<Rightarrow> sequence \<Rightarrow> access set \<Rightarrow> 'x \<Rightarrow> bool"

definition looks :: "config \<Rightarrow> 'x source \<Rightarrow> (arc \<Rightarrow> ('e, 'x) consumer_state) \<Rightarrow> arc
    \<Rightarrow> sequence \<Rightarrow> access set \<Rightarrow> 'x \<Rightarrow> bool" where
  "looks cfg source cs i found V x =
     (case consumers_get_after (waits cfg i) of
        None \<Rightarrow> source (next_seq (cs i)) (c_seen (cs i)) found V x
      | Some get_after \<Rightarrow> x = c_seen (cs i) \<and> (\<exists>msgs. may_load cs (waits cfg i) msgs
          \<and> found = get_after (loaded msgs) (next_seq (cs i)) \<and> V = acquired (waits cfg i) msgs))"

text \<open>
  A managed thread: \<open>Look\<close> is a wait that finds events, with its fence, \<open>GiveUp\<close> one that finds the
  shutdown mark, \<open>Handle\<close> one turn of the inner loop, \<open>Crash\<close> a turn whose handler panics, which unwinds
  the thread without a store to its cursor, and \<open>Advance\<close> that store. The rest of the client's code can
  panic as well: \<open>initialize_state\<close>, before the thread has found its first events (\<open>CrashStart\<close>), and the wait
  strategy, after a look that found none (\<open>CrashWait\<close>). A poller:
  \<open>Poll\<close> is a \<open>poll_take\<close> that returns a guard, \<open>Read\<close> a \<open>next\<close> on it, and \<open>DropGuard\<close> its drop. \<open>marks\<close>
  is what was stored as shutdown mark. A look that finds nothing and a poll that fails change
  nothing.
\<close>

inductive cons_step :: "config \<Rightarrow> 'x source \<Rightarrow> sequence list \<Rightarrow> 'e ring_buffer
    \<Rightarrow> (arc \<Rightarrow> ('e, 'x) consumer_state) \<times> access set \<Rightarrow> (arc \<Rightarrow> ('e, 'x) consumer_state) \<times> access set \<Rightarrow> bool"
  for cfg :: config and source :: "'x source" and marks :: "sequence list" and rb :: "'e ring_buffer" where
  Look: "i \<in> set (all_consumers cfg) \<Longrightarrow> \<not> is_poller cfg i \<Longrightarrow> c = cs i \<Longrightarrow> c_phase c = Waiting \<Longrightarrow>
    looks cfg source cs i found V x \<Longrightarrow> \<not> found < next_seq c \<Longrightarrow>
    cons_step cfg source marks rb (cs, P)
      (cs(i := c\<lparr>c_phase := Handling found, c_seen := x, c_view := c_view c \<union> V\<rparr>), P)"
| GiveUp: "i \<in> set (all_consumers cfg) \<Longrightarrow> \<not> is_poller cfg i \<Longrightarrow> c = cs i \<Longrightarrow> c_phase c = Waiting \<Longrightarrow>
    looks cfg source cs i found V x \<Longrightarrow> found < next_seq c \<Longrightarrow> next_seq c \<in> set marks \<Longrightarrow>
    cons_step cfg source marks rb (cs, P) (cs(i := c\<lparr>c_phase := Ended\<rparr>), P)"
| Handle: "i \<in> set (all_consumers cfg) \<Longrightarrow> \<not> is_poller cfg i \<Longrightarrow> c = cs i \<Longrightarrow> c_phase c = Handling found \<Longrightarrow>
    found \<ge> next_seq c \<Longrightarrow>
    cons_step cfg source marks rb (cs, P)
      (cs(i := c\<lparr>next_seq := i64 (next_seq c + 1), c_view := insert (Rd i (next_seq c)) (c_view c),
         c_log := c_log c @ [(next_seq c, read_at rb (ring_get_ref rb (next_seq c)), found = next_seq c)]\<rparr>),
       insert (Rd i (next_seq c)) P)"
| Crash: "i \<in> set (all_consumers cfg) \<Longrightarrow> \<not> is_poller cfg i \<Longrightarrow> c = cs i \<Longrightarrow> c_phase c = Handling found \<Longrightarrow>
    found \<ge> next_seq c \<Longrightarrow>
    cons_step cfg source marks rb (cs, P)
      (cs(i := c\<lparr>next_seq := i64 (next_seq c + 1), c_view := insert (Rd i (next_seq c)) (c_view c),
         c_log := c_log c @ [(next_seq c, read_at rb (ring_get_ref rb (next_seq c)), found = next_seq c)],
         c_phase := Crashed\<rparr>),
       insert (Rd i (next_seq c)) P)"
| CrashStart: "i \<in> set (all_consumers cfg) \<Longrightarrow> \<not> is_poller cfg i \<Longrightarrow> c = cs i \<Longrightarrow> c_phase c = Waiting \<Longrightarrow>
    next_seq c = 0 \<Longrightarrow>
    cons_step cfg source marks rb (cs, P) (cs(i := c\<lparr>c_phase := Crashed\<rparr>), P)"
| CrashWait: "i \<in> set (all_consumers cfg) \<Longrightarrow> \<not> is_poller cfg i \<Longrightarrow> c = cs i \<Longrightarrow> c_phase c = Waiting \<Longrightarrow>
    looks cfg source cs i found V x \<Longrightarrow> found < next_seq c \<Longrightarrow>
    cons_step cfg source marks rb (cs, P) (cs(i := c\<lparr>c_phase := Crashed\<rparr>), P)"
| Advance: "i \<in> set (all_consumers cfg) \<Longrightarrow> \<not> is_poller cfg i \<Longrightarrow> c = cs i \<Longrightarrow> c_phase c = Handling found \<Longrightarrow>
    \<not> found \<ge> next_seq c \<Longrightarrow>
    cons_step cfg source marks rb (cs, P)
      (cs(i := c\<lparr>c_phase := Waiting, c_history := c_history c @ [(i64 (next_seq c - 1), c_view c)]\<rparr>), P)"
| Poll: "i \<in> set (all_consumers cfg) \<Longrightarrow> is_poller cfg i \<Longrightarrow> c = cs i \<Longrightarrow> c_phase c = Waiting \<Longrightarrow>
    mark \<in> set marks \<Longrightarrow> next_seq c \<noteq> mark \<Longrightarrow> looks cfg source cs i found V x \<Longrightarrow> \<not> found < next_seq c \<Longrightarrow>
    cons_step cfg source marks rb (cs, P)
      (cs(i := c\<lparr>c_phase := Handling (min found (saturating_add_unsigned (i64 (next_seq c - 1)) limit)),
         c_seen := x, c_view := c_view c \<union> V\<rparr>), P)"
| Read: "i \<in> set (all_consumers cfg) \<Longrightarrow> is_poller cfg i \<Longrightarrow> c = cs i \<Longrightarrow> c_phase c = Handling found \<Longrightarrow>
    \<not> next_seq c > found \<Longrightarrow>
    cons_step cfg source marks rb (cs, P)
      (cs(i := c\<lparr>next_seq := i64 (next_seq c + 1), c_view := insert (Rd i (next_seq c)) (c_view c),
         c_log := c_log c @ [(next_seq c, read_at rb (ring_get_ref rb (next_seq c)), False)]\<rparr>),
       insert (Rd i (next_seq c)) P)"
| DropGuard: "i \<in> set (all_consumers cfg) \<Longrightarrow> is_poller cfg i \<Longrightarrow> c = cs i \<Longrightarrow> c_phase c = Handling found \<Longrightarrow>
    cons_step cfg source marks rb (cs, P)
      (cs(i := c\<lparr>c_phase := Waiting, next_seq := i64 (found + 1), c_history := c_history c @ [(found, c_view c)]\<rparr>), P)"

text \<open>What the builder leaves: consumers that have seen nothing.\<close>

definition consumer_init :: "'x \<Rightarrow> ('e, 'x) consumer_state" where
  "consumer_init x = \<lparr>next_seq = 0, c_phase = Waiting, c_seen = x, c_history = [(NONE, {})], c_view = {}, c_log = []\<rparr>"


section \<open>The invariant\<close>

text \<open>Of the accesses \<open>P\<close>, the writes up to \<open>v\<close> and the reads up to \<open>v\<close> by the consumers \<open>A\<close>.\<close>

definition before :: "access set \<Rightarrow> arc set \<Rightarrow> sequence \<Rightarrow> access set" where
  "before P A v = {x\<in>P. case x of Wr q \<Rightarrow> q \<le> v | Rd a q \<Rightarrow> a \<in> A \<and> q \<le> v}"

definition upstream :: "config \<Rightarrow> nat \<Rightarrow> arc set" where
  "upstream cfg j = set (concat (take j (stages cfg)))"

text \<open>How far a consumer has told the others that it is, and how far it may read.\<close>

definition done_upto :: "('e, 'x) consumer_state \<Rightarrow> sequence" where
  "done_upto c = fst (last (c_history c))"

definition reach :: "('e, 'x) consumer_state \<Rightarrow> sequence" where
  "reach c = (case c_phase c of Handling a \<Rightarrow> a | _ \<Rightarrow> next_seq c - 1)"

text \<open>
  Consumer \<open>i\<close> of stage \<open>j\<close>, when everything below \<open>S\<close> is published, as \<open>ev\<close>, and \<open>fin\<close> says that nothing
  more will be.
\<close>

definition cons_inv :: "config \<Rightarrow> (arc \<Rightarrow> ('e, 'x) consumer_state) \<Rightarrow> access set \<Rightarrow> sequence
    \<Rightarrow> (sequence \<Rightarrow> 'e) \<Rightarrow> bool \<Rightarrow> nat \<Rightarrow> arc \<Rightarrow> bool" where
  "cons_inv cfg cs P S ev fin j i \<longleftrightarrow> (let c = cs i in
     0 \<le> next_seq c \<and> next_seq c - 1 \<le> reach c \<and> reach c < S
     \<and> c_history c \<noteq> [] \<and> -1 \<le> done_upto c \<and> done_upto c < next_seq c
     \<and> (\<forall>(v, V)\<in>set (c_history c). -1 \<le> v \<and> v \<le> done_upto c \<and> before P (insert i (upstream cfg j)) v \<subseteq> V)
     \<and> (c_phase c = Waiting \<or> c_phase c = Ended \<longrightarrow> done_upto c = next_seq c - 1)
     \<and> (c_phase c = Ended \<longrightarrow> fin \<and> next_seq c = S)
     \<and> (j > 0 \<longrightarrow> (\<forall>k\<in>set (stages cfg ! (j - 1)). reach c \<le> done_upto (cs k)))
     \<and> before P (upstream cfg j) (reach c) \<subseteq> c_view c
     \<and> before P (insert i (upstream cfg j)) (next_seq c - 1) \<subseteq> c_view c
     \<and> sorted_wrt (<) (map fst (c_log c))
     \<and> (\<forall>(q, e, b)\<in>set (c_log c). 0 \<le> q \<and> q < next_seq c \<and> e = ev q)
     \<and> (\<not> is_poller cfg i \<longrightarrow> map fst (c_log c) = [0..next_seq c - 1]))"

definition crew_inv :: "config \<Rightarrow> ('x \<Rightarrow> sequence \<Rightarrow> bool) \<Rightarrow> (arc \<Rightarrow> ('e, 'x) consumer_state) \<Rightarrow> access set
    \<Rightarrow> sequence \<Rightarrow> (sequence \<Rightarrow> 'e) \<Rightarrow> bool \<Rightarrow> bool" where
  "crew_inv cfg good cs P S ev fin \<longleftrightarrow>
     (\<forall>j < length (stages cfg). \<forall>i\<in>set (stages cfg ! j).
        cons_inv cfg cs P S ev fin j i \<and> (j = 0 \<longrightarrow> good (c_seen (cs i)) (reach (cs i))))
     \<and> (\<forall>i q. Rd i q \<in> P \<longrightarrow> i \<in> set (all_consumers cfg) \<and> 0 \<le> q \<and> q < next_seq (cs i))
     \<and> (\<forall>i\<in>set (all_consumers cfg). \<not> is_poller cfg i \<longrightarrow> (\<forall>q. 0 \<le> q \<and> q < next_seq (cs i) \<longrightarrow> Rd i q \<in> P))"

section \<open>Lemmas on loads and stages\<close>

lemma before_mono: "A \<subseteq> B \<Longrightarrow> v \<le> w \<Longrightarrow> before P A v \<subseteq> before P B w"
  by (auto simp: before_def split: access.splits)

lemma before_insert_Wr: "v < q \<Longrightarrow> before (insert (Wr q) P) A v = before P A v"
  by (auto simp: before_def)

lemma before_insert_Rd: "i \<in> A \<longrightarrow> v < q \<Longrightarrow> before (insert (Rd i q) P) A v = before P A v"
  by (auto simp: before_def)

lemma gate_le:
  "dep \<noteq> OnProducer \<Longrightarrow> a \<in> set (dependent_arcs dep) \<Longrightarrow> gate_get_after dep (loaded msgs) x \<le> fst (msgs a)"
  using multi_consumer_get_after_le [of a _ "loaded msgs" x]
  by (cases dep) (auto simp: loaded_def uni_consumer_get_after_def gate_get_after_def)

lemma gate_ge:
  "dep \<noteq> OnProducer \<Longrightarrow> v \<le> i64_MAX \<Longrightarrow> \<forall>a\<in>set (dependent_arcs dep). v \<le> fst (msgs a) \<Longrightarrow>
   v \<le> gate_get_after dep (loaded msgs) x"
  by (cases dep) (auto simp: loaded_def uni_consumer_get_after_def passed_def multi_consumer_get_after_iff
      gate_get_after_def)

lemma looks_first: "waits cfg i = OnProducer \<Longrightarrow>
  looks cfg source cs i found V x \<longleftrightarrow> source (next_seq (cs i)) (c_seen (cs i)) found V x"
  by (simp add: looks_def)

lemma looks_later: "waits cfg i \<noteq> OnProducer \<Longrightarrow>
  looks cfg source cs i found V x \<longleftrightarrow> x = c_seen (cs i) \<and> (\<exists>msgs. may_load cs (waits cfg i) msgs
    \<and> found = gate_get_after (waits cfg i) (loaded msgs) (next_seq (cs i)) \<and> V = acquired (waits cfg i) msgs)"
  by (cases "waits cfg i") (auto simp: looks_def gate_get_after_def)

lemma all_consumers_stage:
  "i \<in> set (all_consumers cfg) \<longleftrightarrow> (\<exists>j < length (stages cfg). i \<in> set (stages cfg ! j))"
  by (metis UN_iff in_set_conv_nth set_concat)

lemma upstream_Suc:
  "j < length (stages cfg) \<Longrightarrow> upstream cfg (Suc j) = upstream cfg j \<union> set (stages cfg ! j)"
  by (simp add: upstream_def take_Suc_conv_app_nth)

lemma upstream_0 [simp]: "upstream cfg 0 = {}"
  by (simp add: upstream_def)

lemma upstream_all: "upstream cfg (length (stages cfg)) = set (all_consumers cfg)"
  by (simp add: upstream_def)

lemma stage_nonempty: "wf_config cfg gate \<Longrightarrow> k < length (stages cfg) \<Longrightarrow> stages cfg ! k \<noteq> []"
  by (metis nth_mem wf_config_def)

text \<open>What the messages of a whole stage bring together.\<close>

lemma acquired_stage:
  assumes "j < length (stages cfg)" "stages cfg ! j \<noteq> []"
    and "\<forall>a\<in>set (stages cfg ! j). v \<le> fst (msgs a) \<and>
      before P (insert a (upstream cfg j)) (fst (msgs a)) \<subseteq> snd (msgs a)"
  shows "before P (upstream cfg (Suc j)) v \<subseteq> (\<Union>a\<in>set (stages cfg ! j). snd (msgs a))"
proof -
  have one: "before P (insert a (upstream cfg j)) v \<subseteq> snd (msgs a)" if "a \<in> set (stages cfg ! j)" for a
    using that assms(3) before_mono [of "insert a (upstream cfg j)" "insert a (upstream cfg j)" v "fst (msgs a)" P]
    by blast
  have "x \<in> (\<Union>a\<in>set (stages cfg ! j). snd (msgs a))" if "x \<in> before P (upstream cfg (Suc j)) v" for x
  proof -
    obtain a where a: "a \<in> set (stages cfg ! j)" "x \<in> before P (insert a (upstream cfg j)) v"
    proof (cases "\<exists>b q. x = Rd b q \<and> b \<in> set (stages cfg ! j)")
      case True
      then obtain b q where "x = Rd b q" "b \<in> set (stages cfg ! j)" by blast
      with \<open>x \<in> before P (upstream cfg (Suc j)) v\<close> show thesis
        by (intro that [of b]) (auto simp: before_def)
    next
      case False
      have "hd (stages cfg ! j) \<in> set (stages cfg ! j)" using assms(2) by simp
      moreover have "x \<in> before P (insert (hd (stages cfg ! j)) (upstream cfg j)) v"
        using False \<open>x \<in> before P (upstream cfg (Suc j)) v\<close> upstream_Suc [OF assms(1)]
        by (auto simp: before_def split: access.splits)
      ultimately show thesis by (rule that)
    qed
    with one show ?thesis by blast
  qed
  then show ?thesis by blast
qed

lemma not_upstream:
  assumes wf: "wf_config cfg gate" and i: "j < length (stages cfg)" "i \<in> set (stages cfg ! j)"
  shows "i \<notin> upstream cfg j"
proof -
  have "stages cfg = take j (stages cfg) @ stages cfg ! j # drop (Suc j) (stages cfg)"
    using i(1) by (rule id_take_nth_drop)
  then have "distinct (concat (take j (stages cfg) @ stages cfg ! j # drop (Suc j) (stages cfg)))"
    using wf by (simp add: wf_config_def)
  with i(2) show ?thesis by (auto simp: upstream_def)
qed

lemma upstream_stage: "i \<in> upstream cfg k \<Longrightarrow> \<exists>j < k. j < length (stages cfg) \<and> i \<in> set (stages cfg ! j)"
  by (auto simp: upstream_def in_set_conv_nth) (metis nth_mem)

lemma stage_upstream: "j < k \<Longrightarrow> j < length (stages cfg) \<Longrightarrow> i \<in> set (stages cfg ! j) \<Longrightarrow> i \<in> upstream cfg k"
  unfolding upstream_def set_concat by (rule UN_I [of "stages cfg ! j"]) (auto simp: in_set_conv_nth)


text \<open>A stage is never ahead of an earlier one.\<close>

lemma crew_inv_cons:
  "crew_inv cfg good cs P S ev fin \<Longrightarrow> j < length (stages cfg) \<Longrightarrow> i \<in> set (stages cfg ! j) \<Longrightarrow>
   cons_inv cfg cs P S ev fin j i"
  by (simp add: crew_inv_def)

lemma crew_invI:
  assumes "\<And>j i. j < length (stages cfg) \<Longrightarrow> i \<in> set (stages cfg ! j) \<Longrightarrow>
      cons_inv cfg cs P S ev fin j i \<and> (j = 0 \<longrightarrow> good (c_seen (cs i)) (reach (cs i)))"
    and "\<And>i q. Rd i q \<in> P \<Longrightarrow> i \<in> set (all_consumers cfg) \<and> 0 \<le> q \<and> q < next_seq (cs i)"
    and "\<And>i q. i \<in> set (all_consumers cfg) \<Longrightarrow> \<not> is_poller cfg i \<Longrightarrow> 0 \<le> q \<Longrightarrow> q < next_seq (cs i) \<Longrightarrow> Rd i q \<in> P"
  shows "crew_inv cfg good cs P S ev fin"
  using assms unfolding crew_inv_def by blast

lemma crew_inv_good:
  "crew_inv cfg good cs P S ev fin \<Longrightarrow> 0 < length (stages cfg) \<Longrightarrow> i \<in> set (stages cfg ! 0) \<Longrightarrow>
   good (c_seen (cs i)) (reach (cs i))"
  unfolding crew_inv_def by blast

lemma crew_inv_reads:
  "crew_inv cfg good cs P S ev fin \<Longrightarrow> Rd i q \<in> P \<Longrightarrow> i \<in> set (all_consumers cfg) \<and> 0 \<le> q \<and> q < next_seq (cs i)"
  unfolding crew_inv_def by blast

lemma crew_inv_all_read:
  "crew_inv cfg good cs P S ev fin \<Longrightarrow> i \<in> set (all_consumers cfg) \<Longrightarrow> \<not> is_poller cfg i \<Longrightarrow>
   0 \<le> q \<Longrightarrow> q < next_seq (cs i) \<Longrightarrow> Rd i q \<in> P"
  unfolding crew_inv_def by blast

lemma stage_order:
  assumes inv: "crew_inv cfg good cs P S ev fin" and wf: "wf_config cfg gate"
    and "j < k" "k < length (stages cfg)" "i \<in> set (stages cfg ! j)" "g \<in> set (stages cfg ! k)"
  shows "done_upto (cs g) \<le> done_upto (cs i)"
  using assms(3,4,6)
proof (induction k arbitrary: g)
  case 0
  then show ?case by simp
next
  case (Suc k)
  have own: "cons_inv cfg cs P S ev fin (Suc k) g" using crew_inv_cons [OF inv] Suc.prems by simp
  have le: "done_upto (cs g) \<le> done_upto (cs h)" if "h \<in> set (stages cfg ! k)" for h
    using own that by (force simp: cons_inv_def Let_def)
  show ?case
  proof (cases "j = k")
    case True
    with le assms(5) show ?thesis by simp
  next
    case False
    have "stages cfg ! k \<noteq> []" using stage_nonempty [OF wf] Suc.prems(2) by simp
    then have h: "hd (stages cfg ! k) \<in> set (stages cfg ! k)" by simp
    with False Suc.prems Suc.IH [of "hd (stages cfg ! k)"] le [OF h] show ?thesis by simp
  qed
qed

lemma upstream_reach:
  assumes inv: "crew_inv cfg good cs P S ev fin" and wf: "wf_config cfg gate"
    and k: "k < length (stages cfg)" "g \<in> set (stages cfg ! k)" and i: "i \<in> upstream cfg k"
  shows "reach (cs g) \<le> done_upto (cs i)" "reach (cs g) < next_seq (cs i)"
proof -
  obtain j where j: "j < k" "i \<in> set (stages cfg ! j)" using upstream_stage [OF i] by blast
  have g: "cons_inv cfg cs P S ev fin k g" and i': "cons_inv cfg cs P S ev fin j i"
    using crew_inv_cons [OF inv] j k by auto
  define h where "h = hd (stages cfg ! (k - 1))"
  have h: "h \<in> set (stages cfg ! (k - 1))"
    unfolding h_def using stage_nonempty [OF wf, of "k - 1"] k(1) by simp
  have le: "reach (cs g) \<le> done_upto (cs h)" if "h \<in> set (stages cfg ! (k - 1))" for h
    using g j(1) that by (auto simp: cons_inv_def Let_def)
  show "reach (cs g) \<le> done_upto (cs i)"
  proof (cases "j = k - 1")
    case True
    with le j show ?thesis by simp
  next
    case False
    then have "done_upto (cs h) \<le> done_upto (cs i)"
      using j k h by (intro stage_order [OF inv wf, of j "k - 1"]) auto
    with le [OF h] show ?thesis by simp
  qed
  with i' show "reach (cs g) < next_seq (cs i)" by (auto simp: cons_inv_def Let_def)
qed


section \<open>A step of one consumer\<close>

text \<open>It leaves the others' part of the invariant.\<close>

lemma cons_inv_other:
  assumes inv: "crew_inv cfg good cs P S ev fin" and wf: "wf_config cfg gate"
    and k: "k < length (stages cfg)" "g \<in> set (stages cfg ! k)" "g \<noteq> i"
    and c: "done_upto (cs i) \<le> done_upto c" and P: "P' = P \<or> P' = insert (Rd i (next_seq (cs i))) P"
  shows "cons_inv cfg (cs(i := c)) P' S ev fin k g"
proof -
  have own: "cons_inv cfg cs P S ev fin k g" using crew_inv_cons [OF inv k(1,2)] .
  then have le: "next_seq (cs g) - 1 \<le> reach (cs g)" "done_upto (cs g) \<le> next_seq (cs g) - 1"
    by (simp_all add: cons_inv_def Let_def)
  have same: "before P' A v = before P A v" if "v \<le> reach (cs g)" "A \<subseteq> insert g (upstream cfg k)" for A v
  proof -
    have "v < next_seq (cs i)" if "i \<in> A"
      using upstream_reach(2) [OF inv wf k(1,2), of i] that k(3) \<open>A \<subseteq> insert g (upstream cfg k)\<close> \<open>v \<le> reach (cs g)\<close>
      by auto
    with P show ?thesis using before_insert_Rd by blast
  qed
  have early: "before P' (insert g (upstream cfg k)) v = before P (insert g (upstream cfg k)) v"
    if "v \<le> done_upto (cs g)" for v
    using that le by (intro same) auto
  have hist: "(\<forall>(v, V)\<in>set (c_history (cs g)). -1 \<le> v \<and> v \<le> done_upto (cs g) \<and>
      before P' (insert g (upstream cfg k)) v \<subseteq> V) \<longleftrightarrow>
    (\<forall>(v, V)\<in>set (c_history (cs g)). -1 \<le> v \<and> v \<le> done_upto (cs g) \<and> before P (insert g (upstream cfg k)) v \<subseteq> V)"
    by (intro ball_cong refl) (simp add: early split: prod.split cong: conj_cong)
  have stage: "reach (cs g) \<le> done_upto ((cs(i := c)) h)" if "0 < k" "h \<in> set (stages cfg ! (k - 1))" for h
    using own that c by (force simp: cons_inv_def Let_def)
  have at: "(cs(i := c)) g = cs g" using k(3) by simp
  show ?thesis
    unfolding cons_inv_def Let_def at hist same [OF order_refl subset_insertI] same [OF le(1) order_refl]
    using own stage by (simp add: cons_inv_def Let_def)
qed

lemma crew_inv_update:
  assumes inv: "crew_inv cfg good cs P S ev fin" and wf: "wf_config cfg gate"
    and i: "j < length (stages cfg)" "i \<in> set (stages cfg ! j)"
    and c: "done_upto (cs i) \<le> done_upto c" "next_seq (cs i) \<le> next_seq c"
    and P: "P' = P \<and> (is_poller cfg i \<or> next_seq c = next_seq (cs i))
      \<or> P' = insert (Rd i (next_seq (cs i))) P \<and> next_seq c = next_seq (cs i) + 1"
    and own: "cons_inv cfg (cs(i := c)) P' S ev fin j i" and seen: "j = 0 \<Longrightarrow> good (c_seen c) (reach c)"
  shows "crew_inv cfg good (cs(i := c)) P' S ev fin"
proof -
  have ci: "cons_inv cfg cs P S ev fin j i" by (rule crew_inv_cons [OF inv i])
  have all: "i \<in> set (all_consumers cfg)" using all_consumers_stage i by blast
  show ?thesis
  proof (rule crew_invI)
    fix k g assume k: "k < length (stages cfg)" "g \<in> set (stages cfg ! k)"
    show "cons_inv cfg (cs(i := c)) P' S ev fin k g \<and>
      (k = 0 \<longrightarrow> good (c_seen ((cs(i := c)) g)) (reach ((cs(i := c)) g)))"
    proof (cases "g = i")
      case True
      with not_upstream [OF wf k] not_upstream [OF wf i] k i stage_upstream have "k = j"
        by (metis nat_neq_iff)
      with True own seen show ?thesis by simp
    next
      case False
      with P c have "cons_inv cfg (cs(i := c)) P' S ev fin k g"
        by (intro cons_inv_other [OF inv wf k]) auto
      with False crew_inv_good [OF inv, of g] k show ?thesis by auto
    qed
  next
    fix h q assume "Rd h q \<in> P'"
    then have "Rd h q \<in> P \<or> h = i \<and> q = next_seq (cs i) \<and> next_seq c = next_seq (cs i) + 1" using P by auto
    with crew_inv_reads [OF inv, of h q] c(2) all ci
    show "h \<in> set (all_consumers cfg) \<and> 0 \<le> q \<and> q < next_seq ((cs(i := c)) h)"
      by (cases "h = i") (auto simp: cons_inv_def Let_def)
  next
    fix h q assume h: "h \<in> set (all_consumers cfg)" "\<not> is_poller cfg h" "0 \<le> q" "q < next_seq ((cs(i := c)) h)"
    note old = crew_inv_all_read [OF inv h(1-3)]
    show "Rd h q \<in> P'"
    proof (cases "h = i")
      case True
      then have "q = next_seq (cs i) \<and> P' = insert (Rd i (next_seq (cs i))) P \<or> q < next_seq (cs i)"
        using P h(2,4) by auto
      with True old P show ?thesis by blast
    next
      case False
      with h(4) old P show ?thesis by auto
    qed
  qed
qed

text \<open>A step of the producers leaves everybody's: publication extends what is published.\<close>

lemma crew_inv_grow:
  assumes inv: "crew_inv cfg good cs P S ev fin" and "S \<le> S'" "fin \<Longrightarrow> fin' \<and> S' = S"
    and ev: "\<forall>q < S. 0 \<le> q \<longrightarrow> ev' q = ev q" and good: "\<forall>x v. good x v \<longrightarrow> good' x v"
    and P: "P' = P \<or> (\<exists>q \<ge> S. P' = insert (Wr q) P)"
  shows "crew_inv cfg good' cs P' S' ev' fin'"
proof -
  have "cons_inv cfg cs P' S' ev' fin' j i" if ci: "cons_inv cfg cs P S ev fin j i" for j i
  proof -
    have b: "next_seq (cs i) - 1 \<le> reach (cs i)" "reach (cs i) < S" "done_upto (cs i) \<le> next_seq (cs i) - 1"
      using ci by (simp_all add: cons_inv_def Let_def)
    have same: "before P' A v = before P A v" if "v \<le> S - 1" for A v
      using P that by (auto simp: before_insert_Wr)
    have early: "before P' A v = before P A v" if "v \<le> done_upto (cs i)" for A v
      using that b by (intro same) linarith
    have hist: "(\<forall>(v, V)\<in>set (c_history (cs i)). -1 \<le> v \<and> v \<le> done_upto (cs i) \<and> before P' A v \<subseteq> V) \<longleftrightarrow>
      (\<forall>(v, V)\<in>set (c_history (cs i)). -1 \<le> v \<and> v \<le> done_upto (cs i) \<and> before P A v \<subseteq> V)" for A
      by (intro ball_cong refl) (simp add: early split: prod.split cong: conj_cong)
    have "before P' A (reach (cs i)) = before P A (reach (cs i))"
      "before P' A (next_seq (cs i) - 1) = before P A (next_seq (cs i) - 1)" for A
      using b by (auto intro!: same)
    moreover have "\<forall>(q, e, b)\<in>set (c_log (cs i)). 0 \<le> q \<and> q < next_seq (cs i) \<and> e = ev' q"
    proof -
      have old: "\<forall>(q, e, b)\<in>set (c_log (cs i)). 0 \<le> q \<and> q < next_seq (cs i) \<and> e = ev q"
        using ci by (simp add: cons_inv_def Let_def)
      have "0 \<le> q \<and> q < next_seq (cs i) \<and> e = ev' q" if "(q, e, b) \<in> set (c_log (cs i))" for q e b
        using bspec [OF old that] ev b by simp
      then show ?thesis by blast
    qed
    ultimately show ?thesis
      using ci assms(2,3) unfolding cons_inv_def Let_def by (simp only: hist) auto
  qed
  note ci = this
  have reads: "Rd i q \<in> P' \<longleftrightarrow> Rd i q \<in> P" for i q using P by auto
  show ?thesis
    by (rule crew_invI, use ci crew_inv_cons [OF inv] crew_inv_good [OF inv] good in blast)
      (use reads crew_inv_reads [OF inv] crew_inv_all_read [OF inv] in blast)+
qed


section \<open>What consumers rely on\<close>

text \<open>
  The producers' side in a state \<open>s\<close>: \<open>look s\<close> are the results of a look at its barrier, \<open>good s x v\<close> says
  that a thread that has read up to \<open>x\<close> has seen everything up to \<open>v\<close> published, \<open>front s\<close> is the first
  unpublished sequence, and \<open>low s\<close> the last whose slot may be in use again.
\<close>

locale source =
  fixes ok :: "'s \<Rightarrow> bool" and look :: "'s \<Rightarrow> 'x source" and good :: "'s \<Rightarrow> 'x \<Rightarrow> sequence \<Rightarrow> bool"
    and front :: "'s \<Rightarrow> sequence" and low :: "'s \<Rightarrow> sequence" and accesses :: "'s \<Rightarrow> access set"
    and ring :: "'s \<Rightarrow> 'e ring_buffer" and event :: "'s \<Rightarrow> sequence \<Rightarrow> 'e"
    and marks :: "'s \<Rightarrow> sequence list" and final :: "'s \<Rightarrow> bool"
  assumes look_sound: "ok s \<Longrightarrow> 0 \<le> q \<Longrightarrow> low s < q \<Longrightarrow> good s x (q - 1) \<Longrightarrow> look s q x found V x' \<Longrightarrow>
      found < front s \<and> before (accesses s) {} found \<subseteq> before (accesses s) {} (q - 1) \<union> V
      \<and> (q \<le> found \<longrightarrow> good s x' found)"
    and good_mono: "good s x v \<Longrightarrow> w \<le> v \<Longrightarrow> good s x w"
    and kept: "ok s \<Longrightarrow> 0 \<le> q \<Longrightarrow> low s < q \<Longrightarrow> q < front s \<Longrightarrow> ring_read (ring s) q = event s q"
    and bounded: "ok s \<Longrightarrow> 0 \<le> front s \<and> front s < 2 ^ 62"
    and marked: "ok s \<Longrightarrow> m \<in> set (marks s) \<Longrightarrow> m = -1 \<or> front s \<le> m \<and> (m = front s \<longrightarrow> final s)"
begin

abbreviation crew :: "config \<Rightarrow> 's \<Rightarrow> (arc \<Rightarrow> ('e, 'x) consumer_state) \<Rightarrow> access set \<Rightarrow> bool" where
  "crew cfg s cs P \<equiv> crew_inv cfg (good s) cs P (front s) (event s) (final s)"

text \<open>A wait of stage \<open>j\<close>, on arbitrarily old loads, finds no more than its turn allows.\<close>

lemma look_result:
  assumes inv: "crew cfg s cs (accesses s)" and wf: "wf_config cfg gate" and ok: "ok s"
    and i: "j < length (stages cfg)" "i \<in> set (stages cfg ! j)" and lag: "low s \<le> done_upto (cs i)"
    and look: "looks cfg (look s) cs i found V x"
  shows "found < front s" "before (accesses s) (upstream cfg j) found \<subseteq> c_view (cs i) \<union> V"
    "0 < j \<longrightarrow> (\<forall>k\<in>set (stages cfg ! (j - 1)). found \<le> done_upto (cs k))"
    "j = 0 \<longrightarrow> next_seq (cs i) \<le> found \<longrightarrow> good s x found"
proof -
  let ?P = "accesses s"
  have own: "cons_inv cfg cs ?P (front s) (event s) (final s) j i" by (rule crew_inv_cons [OF inv i])
  have "found < front s \<and> before ?P (upstream cfg j) found \<subseteq> c_view (cs i) \<union> V \<and>
    (0 < j \<longrightarrow> (\<forall>k\<in>set (stages cfg ! (j - 1)). found \<le> done_upto (cs k))) \<and>
    (j = 0 \<longrightarrow> next_seq (cs i) \<le> found \<longrightarrow> good s x found)"
  proof (cases "j = 0")
    case True
    then have "waits cfg i = OnProducer" using wf i by (auto simp: wf_config_def)
    with look have look': "look s (next_seq (cs i)) (c_seen (cs i)) found V x" by (simp add: looks_first)
    have "good s (c_seen (cs i)) (next_seq (cs i) - 1)"
      using crew_inv_good [OF inv, of i] i True own by (auto simp: cons_inv_def Let_def intro: good_mono)
    moreover have "0 \<le> next_seq (cs i)" "low s < next_seq (cs i)"
      using own lag by (auto simp: cons_inv_def Let_def)
    ultimately have "found < front s \<and> before ?P {} found \<subseteq> before ?P {} (next_seq (cs i) - 1) \<union> V
      \<and> (next_seq (cs i) \<le> found \<longrightarrow> good s x found)"
      using look_sound [OF ok _ _ _ look'] by blast
    moreover have "before ?P {} (next_seq (cs i) - 1) \<subseteq> c_view (cs i)"
      using own True before_mono [of "{}" "{i}" "next_seq (cs i) - 1" "next_seq (cs i) - 1" ?P]
      by (auto simp: cons_inv_def Let_def)
    ultimately show ?thesis using True by auto
  next
    case False
    then have dep: "waits cfg i \<noteq> OnProducer" "dependent_arcs (waits cfg i) = stages cfg ! (j - 1)"
      using wf i by (auto simp: wf_config_def)
    obtain msgs where msgs: "may_load cs (waits cfg i) msgs" "V = acquired (waits cfg i) msgs"
      "found = gate_get_after (waits cfg i) (loaded msgs) (next_seq (cs i))"
      using look unfolding looks_later [OF dep(1)] by blast
    have j: "j - 1 < length (stages cfg)" "Suc (j - 1) = j" using i False by auto
    have hist: "found \<le> fst (msgs a) \<and> fst (msgs a) \<le> done_upto (cs a) \<and> done_upto (cs a) < front s
        \<and> before ?P (insert a (upstream cfg (j - 1))) (fst (msgs a)) \<subseteq> snd (msgs a)"
      if a: "a \<in> set (stages cfg ! (j - 1))" for a
    proof -
      have "cons_inv cfg cs ?P (front s) (event s) (final s) (j - 1) a" by (rule crew_inv_cons [OF inv j(1) a])
      moreover have "msgs a \<in> set (c_history (cs a))" "found \<le> fst (msgs a)"
        using msgs a dep gate_le [OF dep(1), of a] by (auto simp: may_load_def)
      ultimately show ?thesis by (auto simp: cons_inv_def Let_def split_beta)
    qed
    have ne: "stages cfg ! (j - 1) \<noteq> []" using stage_nonempty [OF wf j(1)] .
    have "before ?P (upstream cfg (Suc (j - 1))) found \<subseteq> (\<Union>a\<in>set (stages cfg ! (j - 1)). snd (msgs a))"
      by (rule acquired_stage [OF j(1) ne]) (use hist in blast)
    then have "before ?P (upstream cfg j) found \<subseteq> V" by (simp only: msgs(2) acquired_def dep(2) j(2))
    moreover have "found < front s" using hist [of "hd (stages cfg ! (j - 1))"] ne by simp
    moreover have "found \<le> done_upto (cs k)" if "k \<in> set (stages cfg ! (j - 1))" for k
      using hist [OF that] by simp
    ultimately show ?thesis using False by blast
  qed
  then show "found < front s" "before (accesses s) (upstream cfg j) found \<subseteq> c_view (cs i) \<union> V"
    "0 < j \<longrightarrow> (\<forall>k\<in>set (stages cfg ! (j - 1)). found \<le> done_upto (cs k))"
    "j = 0 \<longrightarrow> next_seq (cs i) \<le> found \<longrightarrow> good s x found" by auto
qed

text \<open>The updates that the steps make.\<close>

lemma crew_take:
  assumes inv: "crew cfg s cs (accesses s)" and wf: "wf_config cfg gate" and ok: "ok s"
    and i: "i \<in> set (all_consumers cfg)" and lag: "low s \<le> done_upto (cs i)"
    and phase: "c_phase (cs i) = Waiting" and look: "looks cfg (look s) cs i found V x"
    and a: "next_seq (cs i) - 1 \<le> a" "a \<le> found" "next_seq (cs i) \<le> found"
  shows "crew cfg s (cs(i := (cs i)\<lparr>c_phase := Handling a, c_seen := x, c_view := c_view (cs i) \<union> V\<rparr>)) (accesses s)"
    (is "crew cfg s (cs(i := ?c)) _")
proof -
  obtain j where j: "j < length (stages cfg)" "i \<in> set (stages cfg ! j)" using i all_consumers_stage by blast
  have own: "cons_inv cfg cs (accesses s) (front s) (event s) (final s) j i" by (rule crew_inv_cons [OF inv j])
  note found = look_result [OF inv wf ok j lag look]
  have "before (accesses s) (upstream cfg j) a \<subseteq> c_view (cs i) \<union> V"
    using found(2) before_mono [OF order_refl a(2)] by blast
  moreover have "0 < j \<longrightarrow> i \<notin> set (stages cfg ! (j - 1))"
    using not_upstream [OF wf j] stage_upstream [of "j - 1" j cfg i] j(1) by auto
  ultimately have "cons_inv cfg (cs(i := ?c)) (accesses s) (front s) (event s) (final s) j i"
    using own found(1,3) phase a by (auto simp: cons_inv_def Let_def done_upto_def reach_def)
  moreover have "j = 0 \<Longrightarrow> good s x a" using found(4) a good_mono by blast
  ultimately show ?thesis
    by (intro crew_inv_update [OF inv wf j]) (simp_all add: done_upto_def reach_def)
qed

lemma crew_give_up:
  assumes inv: "crew cfg s cs (accesses s)" and wf: "wf_config cfg gate" and ok: "ok s"
    and i: "i \<in> set (all_consumers cfg)" and phase: "c_phase (cs i) = Waiting" and mark: "next_seq (cs i) \<in> set (marks s)"
  shows "crew cfg s (cs(i := (cs i)\<lparr>c_phase := Ended\<rparr>)) (accesses s)" (is "crew cfg s (cs(i := ?c)) _")
proof -
  obtain j where j: "j < length (stages cfg)" "i \<in> set (stages cfg ! j)" using i all_consumers_stage by blast
  have own: "cons_inv cfg cs (accesses s) (front s) (event s) (final s) j i" by (rule crew_inv_cons [OF inv j])
  moreover have "final s" "next_seq (cs i) = front s"
    using marked [OF ok mark] own by (auto simp: cons_inv_def Let_def)
  ultimately have "cons_inv cfg (cs(i := ?c)) (accesses s) (front s) (event s) (final s) j i"
    using phase by (auto simp: cons_inv_def Let_def done_upto_def reach_def)
  moreover have "j = 0 \<Longrightarrow> good s (c_seen (cs i)) (next_seq (cs i) - 1)"
    using crew_inv_good [OF inv, of i] j phase by (auto simp: reach_def)
  ultimately show ?thesis
    by (intro crew_inv_update [OF inv wf j]) (simp_all add: done_upto_def reach_def)
qed

lemma crew_release:
  assumes inv: "crew cfg s cs (accesses s)" and wf: "wf_config cfg gate"
    and i: "i \<in> set (all_consumers cfg)" and phase: "c_phase (cs i) = Handling a"
    and next_seq: "is_poller cfg i \<or> a = next_seq (cs i) - 1"
  shows "crew cfg s (cs(i := (cs i)\<lparr>c_phase := Waiting, next_seq := a + 1,
      c_history := c_history (cs i) @ [(a, c_view (cs i))]\<rparr>)) (accesses s)" (is "crew cfg s (cs(i := ?c)) _")
proof -
  let ?P = "accesses s"
  obtain j where j: "j < length (stages cfg)" "i \<in> set (stages cfg ! j)" using i all_consumers_stage by blast
  have own: "cons_inv cfg cs ?P (front s) (event s) (final s) j i" by (rule crew_inv_cons [OF inv j])
  have view: "before ?P (insert i (upstream cfg j)) a \<subseteq> c_view (cs i)"
  proof
    fix y assume y: "y \<in> before ?P (insert i (upstream cfg j)) a"
    show "y \<in> c_view (cs i)"
    proof (cases "\<exists>q. y = Rd i q")
      case True
      then have "y \<in> before ?P (insert i (upstream cfg j)) (next_seq (cs i) - 1)"
        using y crew_inv_reads [OF inv] by (auto simp: before_def)
      with own show ?thesis by (auto simp: cons_inv_def Let_def)
    next
      case False
      with y have "y \<in> before ?P (upstream cfg j) a" by (auto simp: before_def split: access.splits)
      with own phase show ?thesis by (auto simp: cons_inv_def Let_def reach_def)
    qed
  qed
  have "0 < j \<longrightarrow> i \<notin> set (stages cfg ! (j - 1))"
    using not_upstream [OF wf j] stage_upstream [of "j - 1" j cfg i] j(1) by auto
  moreover have "\<forall>(q, e, b)\<in>set (c_log (cs i)). 0 \<le> q \<and> q < a + 1 \<and> e = event s q"
    using own phase by (fastforce simp: cons_inv_def Let_def reach_def)
  ultimately have "cons_inv cfg (cs(i := ?c)) ?P (front s) (event s) (final s) j i"
    using own phase view next_seq before_mono [of "upstream cfg j" "insert i (upstream cfg j)" a a ?P]
    by (auto simp: cons_inv_def Let_def done_upto_def reach_def)
  moreover have "j = 0 \<Longrightarrow> good s (c_seen (cs i)) a"
    using crew_inv_good [OF inv, of i] j phase by (auto simp: reach_def)
  moreover have "done_upto (cs i) \<le> a" "next_seq (cs i) \<le> a + 1"
    using own phase by (auto simp: cons_inv_def Let_def reach_def)
  ultimately show ?thesis
    using next_seq by (intro crew_inv_update [OF inv wf j]) (auto simp: done_upto_def reach_def)
qed

lemma crew_read:
  assumes inv: "crew cfg s cs (accesses s)" and wf: "wf_config cfg gate" and ok: "ok s"
    and i: "i \<in> set (all_consumers cfg)" and lag: "low s \<le> done_upto (cs i)"
    and phase: "c_phase (cs i) = Handling a" and more: "next_seq (cs i) \<le> a"
    and c: "c = cs i" and event: "e = read_at (ring s) (ring_get_ref (ring s) (next_seq c))"
  shows "crew cfg s (cs(i := c\<lparr>next_seq := i64 (next_seq c + 1), c_view := insert (Rd i (next_seq c)) (c_view c),
      c_log := c_log c @ [(next_seq c, e, b)]\<rparr>)) (insert (Rd i (next_seq c)) (accesses s))"
    (is "crew cfg s (cs(i := ?c)) ?P")
proof -
  let ?A = "accesses s" and ?q = "next_seq c"
  obtain j where j: "j < length (stages cfg)" "i \<in> set (stages cfg ! j)" using i all_consumers_stage by blast
  have own: "cons_inv cfg cs ?A (front s) (event s) (final s) j i" by (rule crew_inv_cons [OF inv j])
  have q: "0 \<le> ?q" "?q \<le> a" "a < front s" "front s < 2 ^ 62" "low s < ?q" "done_upto c < ?q"
    using own phase more lag bounded [OF ok] by (auto simp: cons_inv_def Let_def reach_def c)
  then have succ: "i64 (?q + 1) = ?q + 1" by (intro i64_id) (simp add: in_i64_iff)
  have e: "e = event s ?q" using kept [OF ok, of ?q] q event by (simp add: ring_read_def)
  have views: "before ?P (upstream cfg j) a = before ?A (upstream cfg j) a"
    "v < ?q \<Longrightarrow> before ?P (insert i (upstream cfg j)) v = before ?A (insert i (upstream cfg j)) v" for v
    using not_upstream [OF wf j] by (auto intro!: before_insert_Rd)
  have hist: "\<forall>(v, V)\<in>set (c_history c). -1 \<le> v \<and> v \<le> done_upto c \<and> before ?P (insert i (upstream cfg j)) v \<subseteq> V"
  proof (intro ballI, clarify)
    fix v V assume "(v, V) \<in> set (c_history c)"
    then have old: "-1 \<le> v" "v \<le> done_upto c" "before ?A (insert i (upstream cfg j)) v \<subseteq> V"
      using own by (auto simp: cons_inv_def Let_def c)
    with q(6) views(2) [of v] show "-1 \<le> v \<and> v \<le> done_upto c \<and> before ?P (insert i (upstream cfg j)) v \<subseteq> V" by simp
  qed
  have mine: "before ?P (insert i (upstream cfg j)) ?q \<subseteq> insert (Rd i ?q) (c_view c)"
  proof
    fix y assume y: "y \<in> before ?P (insert i (upstream cfg j)) ?q"
    show "y \<in> insert (Rd i ?q) (c_view c)"
    proof (cases "\<exists>r. y = Rd i r")
      case True
      then have "y = Rd i ?q \<or> y \<in> before ?A (insert i (upstream cfg j)) (?q - 1)"
        using y crew_inv_reads [OF inv] by (auto simp: before_def c)
      with own show ?thesis by (auto simp: cons_inv_def Let_def c)
    next
      case False
      with y q have "y \<in> before ?A (upstream cfg j) a" by (auto simp: before_def split: access.splits)
      with own phase show ?thesis by (auto simp: cons_inv_def Let_def reach_def c)
    qed
  qed
  have "0 < j \<longrightarrow> i \<notin> set (stages cfg ! (j - 1))"
    using not_upstream [OF wf j] stage_upstream [of "j - 1" j cfg i] j(1) by auto
  moreover have "before ?P (upstream cfg j) a \<subseteq> insert (Rd i ?q) (c_view c)"
    unfolding views(1) using own phase by (auto simp: cons_inv_def Let_def reach_def c)
  moreover have "\<not> is_poller cfg i \<Longrightarrow> map fst (c_log c @ [(?q, e, b)]) = [0..?q]"
    using own q upto_rec2 [of 0 ?q] by (simp add: cons_inv_def Let_def c)
  moreover have "sorted_wrt (<) (map fst (c_log c @ [(?q, e, b)]))"
    using own by (fastforce simp: cons_inv_def Let_def c sorted_wrt_append)
  moreover have "\<forall>(q, e, b)\<in>set (c_log c @ [(?q, e, b)]). 0 \<le> q \<and> q < ?q + 1 \<and> e = event s q"
    using own q e by (fastforce simp: cons_inv_def Let_def c)
  ultimately have "cons_inv cfg (cs(i := ?c)) ?P (front s) (event s) (final s) j i"
    using own hist mine phase q unfolding cons_inv_def Let_def
    by (simp add: succ [unfolded c] done_upto_def reach_def c) force
  moreover have "j = 0 \<Longrightarrow> good s (c_seen c) a"
    using crew_inv_good [OF inv, of i] j phase by (auto simp: reach_def c)
  ultimately show ?thesis
    using phase by (intro crew_inv_update [OF inv wf j]) (auto simp: done_upto_def reach_def succ [unfolded c] c)
qed

lemma crew_crash:
  assumes inv: "crew cfg s cs P" and wf: "wf_config cfg gate"
    and i: "i \<in> set (all_consumers cfg)" and phase: "c_phase (cs i) = Handling a \<or> c_phase (cs i) = Waiting"
  shows "crew cfg s (cs(i := (cs i)\<lparr>c_phase := Crashed\<rparr>)) P" (is "crew cfg s (cs(i := ?c)) _")
proof -
  obtain j where j: "j < length (stages cfg)" "i \<in> set (stages cfg ! j)" using i all_consumers_stage by blast
  have own: "cons_inv cfg cs P (front s) (event s) (final s) j i" by (rule crew_inv_cons [OF inv j])
  then have b: "next_seq (cs i) - 1 \<le> reach (cs i)" by (simp add: cons_inv_def Let_def)
  have "0 < j \<longrightarrow> i \<notin> set (stages cfg ! (j - 1))"
    using not_upstream [OF wf j] stage_upstream [of "j - 1" j cfg i] j(1) by auto
  moreover have "before P (upstream cfg j) (next_seq (cs i) - 1) \<subseteq> c_view (cs i)"
    using own before_mono [OF order_refl b, of P "upstream cfg j"] by (auto simp: cons_inv_def Let_def)
  moreover have "reach ?c = next_seq (cs i) - 1" by (simp add: reach_def)
  ultimately have "cons_inv cfg (cs(i := ?c)) P (front s) (event s) (final s) j i"
    using own b by (force simp: cons_inv_def Let_def done_upto_def)
  moreover have "j = 0 \<Longrightarrow> good s (c_seen (cs i)) (next_seq (cs i) - 1)"
    using crew_inv_good [OF inv, of i] j b by (auto intro: good_mono)
  ultimately show ?thesis
    by (intro crew_inv_update [OF inv wf j]) (simp_all add: done_upto_def reach_def)
qed

text \<open>Every step keeps the invariant of all consumers.\<close>

lemma handling_bounds:
  assumes inv: "crew cfg s cs P" and i: "i \<in> set (all_consumers cfg)" and ok: "ok s"
    and phase: "c_phase (cs i) = Handling a"
  shows "-1 \<le> a" "a < front s" "next_seq (cs i) - 1 \<le> a" "0 \<le> next_seq (cs i)" "i64 (a + 1) = a + 1"
    "i64 (next_seq (cs i) - 1) = next_seq (cs i) - 1"
proof -
  obtain j where j: "j < length (stages cfg)" "i \<in> set (stages cfg ! j)" using i all_consumers_stage by blast
  have "cons_inv cfg cs P (front s) (event s) (final s) j i" by (rule crew_inv_cons [OF inv j])
  with phase show b: "-1 \<le> a" "a < front s" "next_seq (cs i) - 1 \<le> a" "0 \<le> next_seq (cs i)"
    by (auto simp: cons_inv_def Let_def reach_def)
  with bounded [OF ok] show "i64 (a + 1) = a + 1" "i64 (next_seq (cs i) - 1) = next_seq (cs i) - 1"
    by (auto intro!: i64_id simp: in_i64_iff)
qed

lemma poll_limit: "-1 \<le> c \<Longrightarrow> c \<le> i64_MAX \<Longrightarrow> c \<le> saturating_add_unsigned c limit"
  by (simp add: saturating_add_unsigned_def)

lemma crew_step:
  assumes step: "cons_step cfg (look s) (marks s) (ring s) (cs, accesses s) (cs', P')"
    and inv: "crew cfg s cs (accesses s)" and wf: "wf_config cfg gate" and ok: "ok s"
    and lag: "\<forall>i\<in>set (all_consumers cfg). low s \<le> done_upto (cs i)"
  shows "crew cfg s cs' P'"
  using step
proof (cases rule: cons_step.cases)
  case (Look i c found V x)
  then have "next_seq (cs i) - 1 \<le> found" "next_seq (cs i) \<le> found" by auto
  with Look crew_take [OF inv wf ok, of i found V x found] lag show ?thesis by simp
next
  case (GiveUp i c found V x)
  with crew_give_up [OF inv wf ok, of i] show ?thesis by simp
next
  case (Handle i c found)
  with crew_read [OF inv wf ok Handle(3) bspec [OF lag Handle(3)], of found c] show ?thesis by simp
next
  case (Crash i c found)
  define d where "d = c\<lparr>next_seq := i64 (next_seq c + 1), c_view := insert (Rd i (next_seq c)) (c_view c),
      c_log := c_log c @ [(next_seq c, read_at (ring s) (ring_get_ref (ring s) (next_seq c)), found = next_seq c)]\<rparr>"
  have "crew cfg s (cs(i := d)) P'"
    using crew_read [OF inv wf ok Crash(3) bspec [OF lag Crash(3)], of found c] Crash by (simp add: d_def)
  from crew_crash [OF this wf Crash(3), of found] Crash show ?thesis by (simp add: d_def)
next
  case (CrashStart i c)
  with crew_crash [OF inv wf, of i] show ?thesis by simp
next
  case (CrashWait i c found V x)
  with crew_crash [OF inv wf, of i] show ?thesis by simp
next
  case (Advance i c found)
  note b = handling_bounds [OF inv Advance(3) ok, of found]
  have "found = next_seq c - 1" using b(3) Advance by auto
  with Advance b(6) crew_release [OF inv wf Advance(3), of found] show ?thesis by simp
next
  case (Poll i c mark found V x limit)
  have "cons_inv cfg cs (accesses s) (front s) (event s) (final s) j i" if "j < length (stages cfg)" "i \<in> set (stages cfg ! j)" for j
    by (rule crew_inv_cons [OF inv that])
  then have "0 \<le> next_seq c" "next_seq c \<le> front s"
    using Poll(3,5) unfolding all_consumers_stage by (fastforce simp: cons_inv_def Let_def)+
  then have "i64 (next_seq c - 1) = next_seq c - 1" "next_seq c - 1 \<le> i64_MAX" "-1 \<le> next_seq c - 1"
    using bounded [OF ok] by (auto intro!: i64_id simp: in_i64_iff i64_MAX_def)
  with poll_limit [of "next_seq c - 1" limit] Poll
    crew_take [OF inv wf ok, of i found V x "min found (saturating_add_unsigned (i64 (next_seq c - 1)) limit)"] lag
  show ?thesis by simp
next
  case (Read i c found)
  with crew_read [OF inv wf ok Read(3) bspec [OF lag Read(3)], of found c] show ?thesis by simp
next
  case (DropGuard i c found)
  note b = handling_bounds [OF inv DropGuard(3) ok, of found]
  with DropGuard crew_release [OF inv wf DropGuard(3), of found] show ?thesis by simp
qed

text \<open>What a consumer's step may change.\<close>

lemma crew_step_effect:
  assumes step: "cons_step cfg (look s) (marks s) (ring s) (cs, accesses s) (cs', P')"
    and inv: "crew cfg s cs (accesses s)" and ok: "ok s"
  obtains i c where "i \<in> set (all_consumers cfg)" "cs' = cs(i := c)" "done_upto (cs i) \<le> done_upto c"
    "P' = accesses s \<or> P' = insert (Rd i (next_seq (cs i))) (accesses s)"
proof -
  have le: "done_upto (cs i) \<le> a \<and> next_seq (cs i) - 1 \<le> a"
    if i: "i \<in> set (all_consumers cfg)" and "c_phase (cs i) = Handling a" for i a
  proof -
    obtain j where j: "j < length (stages cfg)" "i \<in> set (stages cfg ! j)" using i all_consumers_stage by blast
    from crew_inv_cons [OF inv j] that show ?thesis by (auto simp: cons_inv_def Let_def reach_def)
  qed
  show thesis
    using step
  proof (cases rule: cons_step.cases)
    case (Advance i c found)
    then have "done_upto (cs i) \<le> i64 (next_seq c - 1)"
      using le [of i found] handling_bounds(6) [OF inv Advance(3) ok, of found] by simp
    with Advance show thesis by (intro that [of i]) (auto simp: done_upto_def)
  next
    case (DropGuard i c found)
    with le [of i found] show thesis by (intro that [of i]) (auto simp: done_upto_def)
  qed (erule (1) that, simp add: done_upto_def, simp)+
qed

end

end
