(* ===== verification/Consumer_Runs.thy ===== *)
theory Consumer_Runs
  imports Consumer_Steps
begin

text \<open>
  What the invariant of \<open>Consumer_Steps\<close> means for the consumers behind any producer: what each has
  been given, in which order the stages read, what happens before a read, what a handler that panics
  leaves behind, and that the threads end and can be joined once the producers are gone.
\<close>

section \<open>The start\<close>

lemma crew_inv_init:
  assumes "good x (-1)"
  shows "crew_inv cfg good (\<lambda>_. consumer_init x) {} 0 ev False"
  by (rule crew_invI)
    (use assms in \<open>auto simp: cons_inv_def consumer_init_def done_upto_def reach_def before_def NONE_def\<close>)

section \<open>Reads\<close>

lemma crew_cons:
  assumes "crew_inv cfg good cs P S ev fin" "i \<in> set (all_consumers cfg)"
  obtains j where "j < length (stages cfg)" "i \<in> set (stages cfg ! j)" "cons_inv cfg cs P S ev fin j i"
  using assms crew_inv_cons [OF assms(1)] all_consumers_stage [THEN iffD1, OF assms(2)] by blast

lemma crew_bounds:
  assumes "crew_inv cfg good cs P S ev fin" "i \<in> set (all_consumers cfg)"
  shows "0 \<le> next_seq (cs i)" "next_seq (cs i) \<le> S" "done_upto (cs i) < next_seq (cs i)" "-1 \<le> done_upto (cs i)"
  by (rule_tac [!] crew_cons [OF assms]) (auto simp: cons_inv_def Let_def)

lemma crew_history:
  assumes "crew_inv cfg good cs P S ev fin" "j < length (stages cfg)" "a \<in> set (stages cfg ! j)" "m \<in> set (c_history (cs a))"
  shows "-1 \<le> fst m" "fst m \<le> done_upto (cs a)" "before P (insert a (upstream cfg j)) (fst m) \<subseteq> snd m"
  using crew_inv_cons [OF assms(1-3)] assms(4) by (auto simp: cons_inv_def Let_def split_beta)

lemma crew_history_nonempty:
  assumes "crew_inv cfg good cs P S ev fin" "i \<in> set (all_consumers cfg)"
  shows "c_history (cs i) \<noteq> []"
  by (rule crew_cons [OF assms]) (simp add: cons_inv_def Let_def)

lemma last_stage:
  assumes "wf_config cfg gate"
  shows "last (stages cfg) = stages cfg ! (length (stages cfg) - 1)" "length (stages cfg) - 1 < length (stages cfg)"
    "last (stages cfg) \<noteq> []"
  using assms stage_nonempty [OF assms, of "length (stages cfg) - 1"]
  by (auto simp: wf_config_def last_conv_nth)

lemma dependents_known:
  assumes "wf_config cfg gate"
  shows "set (dependent_arcs gate) \<subseteq> set (all_consumers cfg)"
    and "i \<in> set (all_consumers cfg) \<Longrightarrow> set (dependent_arcs (waits cfg i)) \<subseteq> set (all_consumers cfg)"
proof -
  show "set (dependent_arcs gate) \<subseteq> set (all_consumers cfg)"
  proof -
    have "last (stages cfg) \<in> set (stages cfg)" "dependent_arcs gate = last (stages cfg)"
      using assms by (simp_all add: wf_config_def)
    then show ?thesis by auto
  qed
  assume "i \<in> set (all_consumers cfg)"
  then obtain j where j: "j < length (stages cfg)" "i \<in> set (stages cfg ! j)" using all_consumers_stage by blast
  show "set (dependent_arcs (waits cfg i)) \<subseteq> set (all_consumers cfg)"
  proof (cases "j = 0")
    case True
    with assms j show ?thesis by (auto simp: wf_config_def)
  next
    case False
    with assms j have "dependent_arcs (waits cfg i) = stages cfg ! (j - 1)" by (auto simp: wf_config_def)
    with j show ?thesis using all_consumers_stage [of _ cfg] by (auto intro!: exI [of _ "j - 1"])
  qed
qed

text \<open>
  A producer's look at its gate, on arbitrarily old loads: it never finds more than the slowest
  consumer has done, and the fence makes everything up to there visible.
\<close>

lemma gate_result:
  assumes inv: "crew_inv cfg good cs P S ev fin" and wf: "wf_config cfg gate" and load: "may_load cs gate msgs"
    and S: "S < 2 ^ 62" and rear: "rear = gate_get_after gate (loaded msgs) x"
  shows "-1 \<le> rear" "\<forall>i\<in>set (all_consumers cfg). rear \<le> done_upto (cs i)" "rear < S"
    "before P (set (all_consumers cfg)) rear \<subseteq> acquired gate msgs"
proof -
  let ?last = "length (stages cfg) - 1"
  have dep: "gate \<noteq> OnProducer" "dependent_arcs gate = stages cfg ! ?last"
    using wf last_stage(1) [OF wf] by (simp_all add: wf_config_def)
  have msgs: "rear \<le> fst (msgs a) \<and> -1 \<le> fst (msgs a) \<and> fst (msgs a) \<le> done_upto (cs a)
      \<and> before P (insert a (upstream cfg ?last)) (fst (msgs a)) \<subseteq> snd (msgs a)"
    if a: "a \<in> set (stages cfg ! ?last)" for a
    using crew_history [OF inv last_stage(2) [OF wf] a, of "msgs a"] load gate_le [OF dep(1), of a msgs] a
    by (auto simp: may_load_def dep rear)
  obtain g where g: "g \<in> set (stages cfg ! ?last)" using last_stage [OF wf] by (metis list.set_sel(1))
  show "-1 \<le> rear" using dep(1) msgs unfolding rear by (intro gate_ge) (auto simp: dep(2) i64_MAX_def)
  show slow: "\<forall>i\<in>set (all_consumers cfg). rear \<le> done_upto (cs i)"
  proof
    fix i assume "i \<in> set (all_consumers cfg)"
    then obtain j where j: "j < length (stages cfg)" "i \<in> set (stages cfg ! j)" using all_consumers_stage by blast
    have "done_upto (cs g) \<le> done_upto (cs i)" if "j < ?last"
      using stage_order [OF inv wf that last_stage(2) [OF wf] j(2) g] .
    moreover have "j = ?last \<or> j < ?last" using j(1) by linarith
    ultimately show "rear \<le> done_upto (cs i)" using msgs g j(2) by force
  qed
  have "g \<in> set (all_consumers cfg)" using g last_stage(2) [OF wf] all_consumers_stage by blast
  with slow crew_bounds [OF inv this] show "rear < S" by force
  have "before P (upstream cfg (Suc ?last)) rear \<subseteq> (\<Union>a\<in>set (stages cfg ! ?last). snd (msgs a))"
    using last_stage [OF wf] msgs by (intro acquired_stage) auto
  moreover have "upstream cfg (Suc ?last) = set (all_consumers cfg)"
    using last_stage(2) [OF wf] by (simp add: upstream_def)
  ultimately show "before P (set (all_consumers cfg)) rear \<subseteq> acquired gate msgs"
    by (simp only: acquired_def dep(2))
qed

text \<open>A read of \<open>q\<close> happens after every write up to \<open>q\<close>.\<close>

lemma crew_read_ordered:
  assumes "crew_inv cfg good cs P S ev fin" "i \<in> set (all_consumers cfg)" "c_phase (cs i) = Handling a"
    and "next_seq (cs i) \<le> a" "Wr w \<in> P" "w \<le> next_seq (cs i)"
  shows "Wr w \<in> c_view (cs i)"
proof -
  obtain j where "cons_inv cfg cs P S ev fin j i" using crew_cons [OF assms(1,2)] .
  moreover have "Wr w \<in> before P (upstream cfg j) a" using assms(4-6) by (simp add: before_def)
  ultimately show ?thesis using assms(3) by (auto simp: cons_inv_def Let_def reach_def)
qed

text \<open>The accesses among \<open>P\<close> to a slot of the ring, and the writes among them.\<close>

definition slot_accesses :: "'e ring_buffer \<Rightarrow> access set \<Rightarrow> nat \<Rightarrow> access set" where
  "slot_accesses rb P slot = {x \<in> P. (case x of Wr q \<Rightarrow> ring_get rb q = slot | Rd a q \<Rightarrow> ring_get_ref rb q = slot)}"

definition slot_writes :: "'e ring_buffer \<Rightarrow> access set \<Rightarrow> nat \<Rightarrow> access set" where
  "slot_writes rb P slot = {x \<in> slot_accesses rb P slot. case x of Wr q \<Rightarrow> True | Rd a q \<Rightarrow> False}"

lemma lap_below:
  assumes "wf_ring rb" "ring_get rb q = ring_get rb w" "q < w"
  shows "q \<le> w - capacity rb"
proof (rule ccontr)
  assume "\<not> ?thesis"
  then have "\<bar>w - q\<bar> < capacity rb" using assms(3) by simp
  moreover have "w mod capacity rb = q mod capacity rb" using assms(1,2) ring_get_eq_iff [of rb w q] by simp
  ultimately have "w = q" using mod_window_inj [of w "capacity rb" q] by simp
  with assms(3) show False by simp
qed

section \<open>Delivery\<close>

lemma crew_delivery:
  assumes "crew_inv cfg good cs P S ev fin" "i \<in> set (all_consumers cfg)"
  shows "sorted_wrt (<) (map fst (c_log (cs i)))"
    "(q, e, b) \<in> set (c_log (cs i)) \<Longrightarrow> 0 \<le> q \<and> q < S \<and> e = ev q"
    "\<not> is_poller cfg i \<Longrightarrow> map fst (c_log (cs i)) = [0..next_seq (cs i) - 1]"
  by (rule_tac [!] crew_cons [OF assms]) (fastforce simp: cons_inv_def Let_def)+

lemma crew_events:
  assumes inv: "crew_inv cfg good cs P S ev fin" and i: "i \<in> set (all_consumers cfg)" "\<not> is_poller cfg i"
  shows "map (\<lambda>(q, e, b). (q, e)) (c_log (cs i)) = map (\<lambda>q. (q, ev q)) [0..next_seq (cs i) - 1]"
proof -
  have "map (\<lambda>(q, e, b). (q, e)) (c_log (cs i)) = map (\<lambda>q. (q, ev q)) (map fst (c_log (cs i)))"
    using crew_delivery(2) [OF inv i(1)] by fastforce
  with crew_delivery(3) [OF inv i(1)] i(2) show ?thesis by simp
qed

lemma crew_ended:
  assumes "crew_inv cfg good cs P S ev fin" "i \<in> set (all_consumers cfg)" "c_phase (cs i) = Ended"
  shows "fin" "next_seq (cs i) = S"
  by (rule_tac [!] crew_cons [OF assms(1,2)]) (use assms(3) in \<open>auto simp: cons_inv_def Let_def\<close>)

text \<open>A stage reads a sequence only after the stage before it has finished with it.\<close>

lemma crew_stages:
  assumes inv: "crew_inv cfg good cs P S ev fin" and wf: "wf_config cfg gate"
    and j: "j < k" "k < length (stages cfg)" "g \<in> set (stages cfg ! j)" "i \<in> set (stages cfg ! k)" and read: "Rd i q \<in> P"
  shows "q \<le> done_upto (cs g)" "\<not> is_poller cfg g \<Longrightarrow> Rd g q \<in> P" "Rd g q \<in> P \<Longrightarrow> Rd g q \<in> c_view (cs i)"
proof -
  have own: "cons_inv cfg cs P S ev fin k i" and prev: "cons_inv cfg cs P S ev fin j g"
    using crew_inv_cons [OF inv] j by auto
  have q: "0 \<le> q" "q < next_seq (cs i)" using crew_inv_reads [OF inv read] by auto
  define h where "h = hd (stages cfg ! (k - 1))"
  have h: "h \<in> set (stages cfg ! (k - 1))" unfolding h_def using stage_nonempty [OF wf, of "k - 1"] j by simp
  have le: "reach (cs i) \<le> done_upto (cs h)" if "h \<in> set (stages cfg ! (k - 1))" for h
    using own that j(1) by (simp add: cons_inv_def Let_def)
  have "reach (cs i) \<le> done_upto (cs g)"
  proof (cases "j = k - 1")
    case True
    with le j(3) show ?thesis by simp
  next
    case False
    then have "done_upto (cs h) \<le> done_upto (cs g)" using j by (intro stage_order [OF inv wf _ _ j(3) h]) auto
    with le [OF h] show ?thesis by simp
  qed
  then show passed: "q \<le> done_upto (cs g)" using q own by (auto simp: cons_inv_def Let_def)
  have "g \<in> set (all_consumers cfg)" using j by (intro all_consumers_stage [THEN iffD2] exI [of _ j]) auto
  with passed q(1) prev show "\<not> is_poller cfg g \<Longrightarrow> Rd g q \<in> P"
    by (intro crew_inv_all_read [OF inv]) (auto simp: cons_inv_def Let_def)
  assume "Rd g q \<in> P"
  moreover have "g \<in> upstream cfg k" using stage_upstream [of j k cfg g] j by simp
  ultimately have "Rd g q \<in> before P (insert i (upstream cfg k)) (next_seq (cs i) - 1)" using q by (auto simp: before_def)
  with own show "Rd g q \<in> c_view (cs i)" by (auto simp: cons_inv_def Let_def)
qed

section \<open>A thread that has panicked or ended\<close>

lemma stopped_stays:
  assumes "cons_step cfg src marks rb (cs, P) (cs', P')" "c_phase (cs i) = Crashed \<or> c_phase (cs i) = Ended"
  shows "cs' i = cs i"
  using assms by (cases rule: cons_step.cases) auto

text \<open>What no later stage passes.\<close>

lemma crew_downstream:
  assumes inv: "crew_inv cfg good cs P S ev fin" and wf: "wf_config cfg gate"
    and j: "j < k" "k < length (stages cfg)" "i \<in> set (stages cfg ! j)" "g \<in> set (stages cfg ! k)"
  shows "next_seq (cs g) \<le> done_upto (cs i) + 1"
proof -
  have "i \<in> upstream cfg k" using stage_upstream [of j k cfg i] j by simp
  from upstream_reach(1) [OF inv wf j(2,4) this] crew_inv_cons [OF inv j(2,4)] show ?thesis
    by (auto simp: cons_inv_def Let_def)
qed

section \<open>The end\<close>

text \<open>The managed threads, in the order in which the builder spawned them.\<close>

definition threads :: "config \<Rightarrow> arc list" where
  "threads cfg = filter (\<lambda>i. \<not> is_poller cfg i) (all_consumers cfg)"

definition all_managed :: "config \<Rightarrow> bool" where
  "all_managed cfg \<longleftrightarrow> (\<forall>i\<in>set (all_consumers cfg). \<not> is_poller cfg i)"

text \<open>
  A poller moves when its client polls, which may be never, or forever without an event. So what has to
  end are the steps of the threads: \<open>thread_run\<close> is a run that counts those, with whatever else happens in
  between, and \<open>drop_bound\<close> is how many of them are left when nothing is published any more.
\<close>

definition thread_moves :: "config \<Rightarrow> (arc \<Rightarrow> ('e, 'x) consumer_state) \<Rightarrow> (arc \<Rightarrow> ('e, 'x) consumer_state) \<Rightarrow> bool" where
  "thread_moves cfg cs cs' \<longleftrightarrow> (\<exists>i\<in>set (threads cfg). cs' i \<noteq> cs i)"

text \<open>A step of a thread that is no panic; a thread that waits may always panic instead.\<close>

definition thread_advances :: "config \<Rightarrow> (arc \<Rightarrow> ('e, 'x) consumer_state) \<Rightarrow> (arc \<Rightarrow> ('e, 'x) consumer_state) \<Rightarrow> bool" where
  "thread_advances cfg cs cs' \<longleftrightarrow> (\<exists>i\<in>set (threads cfg). cs' i \<noteq> cs i \<and> c_phase (cs' i) \<noteq> Crashed)"

inductive thread_run :: "config \<Rightarrow> ('s \<Rightarrow> arc \<Rightarrow> ('e, 'x) consumer_state) \<Rightarrow> ('s \<Rightarrow> 's \<Rightarrow> bool) \<Rightarrow> nat \<Rightarrow> 's \<Rightarrow> 's \<Rightarrow> bool"
  for cfg :: config and crew :: "'s \<Rightarrow> arc \<Rightarrow> ('e, 'x) consumer_state" and step :: "'s \<Rightarrow> 's \<Rightarrow> bool" where
  Start: "thread_run cfg crew step 0 s s"
| Step: "thread_run cfg crew step n s u \<Longrightarrow> step u s' \<Longrightarrow>
    thread_run cfg crew step (if thread_moves cfg (crew u) (crew s') then Suc n else n) s s'"

definition remaining :: "sequence \<Rightarrow> ('e, 'x) consumer_state \<Rightarrow> nat" where
  "remaining S c = nat (3 * (S - next_seq c)) +
     (case c_phase c of Waiting \<Rightarrow> 1 | Handling found \<Rightarrow> (if next_seq c \<le> found then 0 else 2) | _ \<Rightarrow> 0)"

definition drop_bound :: "config \<Rightarrow> sequence \<Rightarrow> (arc \<Rightarrow> ('e, 'x) consumer_state) \<Rightarrow> nat" where
  "drop_bound cfg S cs = (\<Sum>i\<in>set (threads cfg). remaining S (cs i))"

text \<open>A thread with something left to do, when everything below \<open>S\<close> is published.\<close>

definition behind :: "sequence \<Rightarrow> bool \<Rightarrow> ('e, 'x) consumer_state \<Rightarrow> bool" where
  "behind S fin c \<longleftrightarrow> (case c_phase c of Waiting \<Rightarrow> next_seq c < S \<or> fin | Handling found \<Rightarrow> True | _ \<Rightarrow> False)"

text \<open>
  Nothing before stage \<open>j\<close> holds it up: no thread has crashed, and every poller has passed everything
  below \<open>S\<close>. And a poller that has not stands before some thread.
\<close>

definition unobstructed :: "config \<Rightarrow> sequence \<Rightarrow> (arc \<Rightarrow> ('e, 'x) consumer_state) \<Rightarrow> nat \<Rightarrow> bool" where
  "unobstructed cfg S cs j \<longleftrightarrow> (\<forall>k < j. \<forall>g\<in>set (stages cfg ! k).
     if is_poller cfg g then done_upto (cs g) = S - 1 else c_phase (cs g) \<noteq> Crashed)"

definition poller_in_the_way :: "config \<Rightarrow> sequence \<Rightarrow> (arc \<Rightarrow> ('e, 'x) consumer_state) \<Rightarrow> bool" where
  "poller_in_the_way cfg S cs \<longleftrightarrow> (\<exists>j < length (stages cfg). \<exists>i\<in>set (stages cfg ! j). \<not> is_poller cfg i
     \<and> (\<exists>k < j. \<exists>g\<in>set (stages cfg ! k). is_poller cfg g \<and> done_upto (cs g) \<noteq> S - 1))"

lemma threads_iff: "i \<in> set (threads cfg) \<longleftrightarrow> i \<in> set (all_consumers cfg) \<and> \<not> is_poller cfg i"
  by (auto simp: threads_def)

lemma all_managed_threads: "all_managed cfg \<Longrightarrow> threads cfg = all_consumers cfg"
  by (simp add: threads_def all_managed_def)

lemma no_poller_in_the_way: "all_managed cfg \<Longrightarrow> \<not> poller_in_the_way cfg S cs"
  unfolding poller_in_the_way_def all_managed_def
  by (metis all_consumers_stage less_trans)

lemma thread_run_Suc:
  assumes "thread_run cfg crew step n s u" "step u s'" "thread_moves cfg (crew u) (crew s')"
  shows "thread_run cfg crew step (Suc n) s s'"
  using thread_run.Step [OF assms(1,2)] assms(3) by simp

lemma thread_advancesI:
  "i \<in> set (threads cfg) \<Longrightarrow> c_phase c \<noteq> Crashed \<Longrightarrow> c_phase c \<noteq> c_phase (cs i) \<or> c_log c \<noteq> c_log (cs i) \<Longrightarrow>
   thread_advances cfg cs (cs(i := c))"
  by (auto simp: thread_advances_def intro!: bexI [of _ i])

text \<open>
  The drop of a producer joins its consumer threads in the order in which they were spawned; \<open>None\<close>
  while a thread that it has to wait for runs.
\<close>

fun thread_outcome :: "cons_phase \<Rightarrow> thread_result option" where
  "thread_outcome Ended = Some Finished"
| "thread_outcome Crashed = Some Panicked"
| "thread_outcome _ = None"

fun join_threads :: "(arc \<Rightarrow> cons_phase) \<Rightarrow> arc list \<Rightarrow> unit fallible option" where
  "join_threads phase [] = Some (Inr ())"
| "join_threads phase (i # is) =
     (case thread_outcome (phase i) of
        None \<Rightarrow> None
      | Some r \<Rightarrow> (case handle_join (consumer_handle_new r) of
          Inl p \<Rightarrow> Some (Inl p)
        | Inr h \<Rightarrow> join_threads phase is))"

lemma join_threads_result:
  assumes "\<And>pre i post. is = pre @ i # post \<Longrightarrow> \<forall>g\<in>set pre. phase g \<noteq> Crashed \<Longrightarrow> phase i = Ended \<or> phase i = Crashed"
  shows "join_threads phase is =
    Some (if \<exists>i\<in>set is. phase i = Crashed then Inl (Panic ''Consumer should not panic.'') else Inr ())"
  using assms
proof (induction "is")
  case (Cons i "is")
  have i: "phase i = Ended \<or> phase i = Crashed" using Cons.prems [of "[]" i "is"] by simp
  show ?case
  proof (cases "phase i = Crashed")
    case False
    have "phase h = Ended \<or> phase h = Crashed" if "is = pre @ h # post" "\<forall>g\<in>set pre. phase g \<noteq> Crashed" for pre h post
      using Cons.prems [of "i # pre" h post] that False by simp
    from Cons.IH [OF this] show ?thesis using i False by (simp add: handle_join_def consumer_handle_new_def)
  qed (simp add: handle_join_def consumer_handle_new_def)
qed simp

lemma concat_position:
  assumes "concat xss = pre @ x # post"
  obtains j where "j < length xss" "x \<in> set (xss ! j)" "set (concat (take j xss)) \<subseteq> set pre"
  using assms
proof (induction xss arbitrary: pre thesis)
  case (Cons xs xss)
  show ?case
  proof (cases "length pre < length xs")
    case True
    have "(xs @ concat xss) ! length pre = x" using Cons.prems(2) by simp
    then have "x \<in> set xs" using True by (auto simp: nth_append)
    then show ?thesis using Cons.prems(1) [of 0] by simp
  next
    case False
    then have "pre = xs @ drop (length xs) pre" "concat xss = drop (length xs) pre @ x # post"
      using Cons.prems(2) by (auto simp: append_eq_append_conv2)
    from Cons.IH [OF _ this(2)] obtain j where "j < length xss" "x \<in> set (xss ! j)"
      "set (concat (take j xss)) \<subseteq> set (drop (length xs) pre)" by blast
    with \<open>pre = _\<close> show ?thesis using Cons.prems(1) [of "Suc j"] by (metis (no_types, lifting) Un_mono concat.simps(2) length_Cons nth_Cons_Suc order_refl set_append take_Suc_Cons Suc_less_eq)
  qed
qed simp

text \<open>The joins wait while a thread runs and none has crashed, and return only when all have ended.\<close>

lemma join_threads_waits:
  "\<forall>i\<in>set is. phase i \<noteq> Crashed \<Longrightarrow> \<exists>i\<in>set is. phase i \<noteq> Ended \<Longrightarrow> join_threads phase is = None"
proof (induction "is")
  case (Cons i "is")
  then show ?case by (cases "phase i") (auto simp: handle_join_def consumer_handle_new_def)
qed simp

lemma join_threads_ended:
  "join_threads phase is = Some (Inr ()) \<Longrightarrow> i \<in> set is \<Longrightarrow> phase i = Ended"
  by (induction "is")
    (auto simp: handle_join_def consumer_handle_new_def split: option.splits sum.splits elim: thread_outcome.elims)

lemma join_threads_held_up:
  assumes "\<exists>i\<in>set is. phase i \<noteq> Ended"
  shows "join_threads phase is \<noteq> Some (Inr ()) \<and> ((\<forall>i\<in>set is. phase i \<noteq> Crashed) \<longrightarrow> join_threads phase is = None)"
proof
  show "join_threads phase is \<noteq> Some (Inr ())" using join_threads_ended assms by metis
  show "(\<forall>i\<in>set is. phase i \<noteq> Crashed) \<longrightarrow> join_threads phase is = None" using join_threads_waits [OF _ assms] by blast
qed

lemma thread_position:
  assumes "threads cfg = pre @ i # post"
  obtains j where "j < length (stages cfg)" "i \<in> set (stages cfg ! j)"
    "\<forall>k < j. \<forall>g\<in>set (stages cfg ! k). \<not> is_poller cfg g \<longrightarrow> g \<in> set pre"
proof -
  let ?xss = "map (filter (\<lambda>i. \<not> is_poller cfg i)) (stages cfg)"
  have "concat ?xss = pre @ i # post" using assms by (simp add: threads_def filter_concat)
  then obtain j where j: "j < length ?xss" "i \<in> set (?xss ! j)" "set (concat (take j ?xss)) \<subseteq> set pre"
    by (rule concat_position)
  have "g \<in> set pre" if "k < j" "g \<in> set (stages cfg ! k)" "\<not> is_poller cfg g" for k g
  proof -
    have "take j ?xss ! k \<in> set (take j ?xss)" using that(1) j(1) by (intro nth_mem) simp
    moreover have "g \<in> set (take j ?xss ! k)" using that j(1) by simp
    ultimately show ?thesis using j(3) unfolding set_concat by blast
  qed
  with j show thesis by (intro that [of j]) auto
qed

lemma drop_bound_decreases:
  assumes "i \<in> set (all_consumers cfg)" "\<not> is_poller cfg i" "remaining S c < remaining S (cs i)"
  shows "drop_bound cfg S (cs(i := c)) < drop_bound cfg S cs"
  unfolding drop_bound_def
  by (rule sum_strict_mono_ex1) (use assms in \<open>auto simp: threads_iff simp del: set_concat intro!: bexI [of _ i]\<close>)

lemma drop_bound_cong: "\<not> thread_moves cfg cs cs' \<Longrightarrow> drop_bound cfg S cs' = drop_bound cfg S cs"
  unfolding drop_bound_def thread_moves_def by (intro sum.cong) simp_all

text \<open>A thread behind a poller that has not passed everything has not ended, so that the joins wait.\<close>

lemma poller_in_the_way_waits:
  assumes inv: "crew_inv cfg good cs P S ev fin" and wf: "wf_config cfg gate" and poller: "poller_in_the_way cfg S cs"
  shows "\<exists>i\<in>set (threads cfg). c_phase (cs i) \<noteq> Ended"
proof -
  obtain i j g k where i: "j < length (stages cfg)" "i \<in> set (stages cfg ! j)" "\<not> is_poller cfg i"
    and g: "k < j" "g \<in> set (stages cfg ! k)" "done_upto (cs g) \<noteq> S - 1"
    using poller unfolding poller_in_the_way_def by blast
  have all: "i \<in> set (all_consumers cfg)" "g \<in> set (all_consumers cfg)" using i g all_consumers_stage by (meson less_trans)+
  have "next_seq (cs i) \<le> done_upto (cs g) + 1" using crew_downstream [OF inv wf g(1) i(1) g(2) i(2)] .
  then have "next_seq (cs i) \<noteq> S" using crew_bounds(2,3) [OF inv all(2)] g(3) by linarith
  then have "c_phase (cs i) \<noteq> Ended" using crew_ended(2) [OF inv all(1)] by blast
  with all(1) i(3) show ?thesis using threads_iff by blast
qed

locale live_source = source +
  assumes newest: "ok s \<Longrightarrow> 0 \<le> q \<Longrightarrow> low s < q \<Longrightarrow> q \<le> front s \<Longrightarrow> good s x (q - 1) \<Longrightarrow>
      \<exists>found V x'. look s q x found V x' \<and> front s - 1 \<le> found"
    and final_mark: "ok s \<Longrightarrow> final s \<Longrightarrow> front s \<in> set (marks s)"
begin

lemma crew_step_decreases:
  assumes step: "cons_step cfg (look s) (marks s) (ring s) (cs, accesses s) (cs', P')"
    and inv: "crew cfg s cs (accesses s)" and ok: "ok s" and moves: "thread_moves cfg cs cs'"
  shows "drop_bound cfg (front s) cs' < drop_bound cfg (front s) cs"
proof -
  have not_poller: "\<not> is_poller cfg i" if "cs' = cs(i := c)" for i c
  proof
    assume poller: "is_poller cfg i"
    from moves obtain g where "g \<in> set (threads cfg)" "cs' g \<noteq> cs g" unfolding thread_moves_def by blast
    with that poller show False unfolding threads_iff by (cases "g = i") simp_all
  qed
  show ?thesis
    using step
  proof (cases rule: cons_step.cases)
    case (Handle i c found)
    note b = handling_bounds [OF inv Handle(3) ok, of found]
    have q: "next_seq c < front s" "0 \<le> next_seq c" "found = i64 found" using b Handle bounded [OF ok] by (auto simp: in_i64_iff intro!: i64_id [symmetric])
    then have "i64 (next_seq c + 1) = next_seq c + 1" using bounded [OF ok] by (intro i64_id) (simp add: in_i64_iff)
    moreover have "nat (3 * (front s - (next_seq c + 1))) + 3 = nat (3 * (front s - next_seq c))" using q by simp
    ultimately show ?thesis
      using Handle by (auto intro!: drop_bound_decreases [of i] simp: remaining_def simp del: set_concat)
  next
    case (Crash i c found)
    note b = handling_bounds [OF inv Crash(3) ok, of found]
    have q: "next_seq c < front s" "0 \<le> next_seq c" using b Crash by auto
    then have "i64 (next_seq c + 1) = next_seq c + 1" using bounded [OF ok] by (intro i64_id) (simp add: in_i64_iff)
    moreover have "nat (3 * (front s - (next_seq c + 1))) < nat (3 * (front s - next_seq c))" using q by simp
    ultimately show ?thesis
      using Crash by (auto intro!: drop_bound_decreases [of i] simp: remaining_def simp del: set_concat)
  next
    case (Poll i c mark found V x limit)
    with not_poller show ?thesis by blast
  next
    case (Read i c found)
    with not_poller show ?thesis by blast
  next
    case (DropGuard i c found)
    with not_poller show ?thesis by blast
  qed (auto intro!: drop_bound_decreases simp: remaining_def simp del: set_concat)
qed

text \<open>So the steps of threads in a run are paid for by the bound.\<close>

lemma crew_step_bound:
  assumes "cons_step cfg (look s) (marks s) (ring s) (cs, accesses s) (cs', P')"
    and "crew cfg s cs (accesses s)" "ok s" "n + drop_bound cfg (front s) cs \<le> B"
  shows "(if thread_moves cfg cs cs' then Suc n else n) + drop_bound cfg (front s) cs' \<le> B"
  using crew_step_decreases [OF assms(1-3)] drop_bound_cong [of cfg cs cs' "front s"] assms(4) by auto

text \<open>A consumer behind a stage that has finished with everything published finds all of it.\<close>

lemma look_finds_all:
  assumes inv: "crew cfg s cs (accesses s)" and wf: "wf_config cfg gate" and ok: "ok s"
    and lag: "\<forall>i\<in>set (all_consumers cfg). low s \<le> done_upto (cs i)"
    and j: "j < length (stages cfg)" "i \<in> set (stages cfg ! j)"
    and earlier: "\<forall>k < j. \<forall>g\<in>set (stages cfg ! k). done_upto (cs g) = front s - 1"
  shows "\<exists>found V x. looks cfg (look s) cs i found V x \<and> front s - 1 \<le> found"
proof (cases "j = 0")
  case True
  let ?c = "cs i"
  have i: "i \<in> set (all_consumers cfg)" using j by (intro all_consumers_stage [THEN iffD2] exI [of _ j]) auto
  note own = crew_inv_cons [OF inv j] and b = crew_bounds [OF inv i]
  from True have wait: "waits cfg i = OnProducer" using wf j by (auto simp: wf_config_def)
  have "good s (c_seen ?c) (next_seq ?c - 1)"
    using crew_inv_good [OF inv, of i] j True own by (auto simp: cons_inv_def Let_def intro: good_mono)
  with newest [OF ok, of "next_seq ?c" "c_seen ?c"] b bspec [OF lag i] show ?thesis
    by (auto simp: looks_first [OF wait])
next
  case False
  have i: "i \<in> set (all_consumers cfg)" using j by (intro all_consumers_stage [THEN iffD2] exI [of _ j]) auto
  have dep: "waits cfg i \<noteq> OnProducer" "dependent_arcs (waits cfg i) = stages cfg ! (j - 1)"
    using False wf j by (auto simp: wf_config_def)
  let ?msgs = "\<lambda>a. last (c_history (cs a))"
  have known: "a \<in> set (all_consumers cfg)" if "a \<in> set (dependent_arcs (waits cfg i))" for a
    using dependents_known(2) [OF wf i] that by blast
  then have load: "may_load cs (waits cfg i) ?msgs"
    using crew_history_nonempty [OF inv] by (auto simp: may_load_def simp del: set_concat)
  have "fst (?msgs k) = front s - 1" if k: "k \<in> set (stages cfg ! (j - 1))" for k
    using earlier [rule_format, of "j - 1" k] False k by (simp add: done_upto_def)
  moreover have "front s - 1 \<le> i64_MAX" using bounded [OF ok] by (simp add: i64_MAX_def)
  ultimately have "front s - 1 \<le> gate_get_after (waits cfg i) (loaded ?msgs) (next_seq (cs i))"
    using dep by (intro gate_ge) auto
  with load show ?thesis unfolding looks_later [OF dep(1)] by blast
qed

text \<open>As long as a thread is behind that nothing holds up, a thread can step without a panic.\<close>

lemma not_behind:
  assumes inv: "crew cfg s cs (accesses s)" and i: "i \<in> set (all_consumers cfg)"
    and "\<not> behind (front s) (final s) (cs i)" "c_phase (cs i) \<noteq> Crashed"
  shows "next_seq (cs i) = front s" "done_upto (cs i) = front s - 1"
  by (rule_tac [!] crew_cons [OF inv i])
    (use assms(3,4) in \<open>auto simp: behind_def cons_inv_def Let_def split: cons_phase.splits\<close>)

lemma behind_steps:
  assumes inv: "crew cfg s cs (accesses s)" and ok: "ok s" and i: "i \<in> set (threads cfg)" "behind (front s) (final s) (cs i)"
    and found: "looks cfg (look s) cs i found V x" "front s - 1 \<le> found"
  shows "\<exists>cs' P'. cons_step cfg (look s) (marks s) (ring s) (cs, accesses s) (cs', P') \<and> thread_advances cfg cs cs'"
proof -
  have all: "i \<in> set (all_consumers cfg)" and thread: "\<not> is_poller cfg i" using i(1) threads_iff by blast+
  let ?c = "cs i"
  note move = thread_advancesI [OF i(1), where cs = cs]
  show ?thesis
  proof (cases "c_phase ?c")
    case Waiting
    show ?thesis
    proof (cases "found < next_seq ?c")
      case False
      from cons_step.Look [where cs = cs and c = ?c, OF all thread refl Waiting found(1) False] Waiting move show ?thesis
        by fastforce
    next
      case True
      then have "next_seq ?c = front s" using found(2) crew_bounds [OF inv all] by simp
      moreover from this have "final s" using i(2) Waiting by (simp add: behind_def)
      ultimately have "next_seq ?c \<in> set (marks s)" using final_mark [OF ok] by simp
      from cons_step.GiveUp [where cs = cs and c = ?c, OF all thread refl Waiting found(1) True this] Waiting move show ?thesis
        by fastforce
    qed
  next
    case (Handling a)
    show ?thesis
    proof (cases "a \<ge> next_seq ?c")
      case True
      from cons_step.Handle [where cs = cs and c = ?c, OF all thread refl Handling True] Handling move show ?thesis by fastforce
    next
      case False
      from cons_step.Advance [where cs = cs and c = ?c, OF all thread refl Handling False] Handling move show ?thesis by fastforce
    qed
  qed (use i(2) in \<open>simp_all add: behind_def\<close>)
qed

lemma crew_behind_steps:
  assumes inv: "crew cfg s cs (accesses s)" and wf: "wf_config cfg gate" and ok: "ok s"
    and lag: "\<forall>i\<in>set (all_consumers cfg). low s \<le> done_upto (cs i)"
    and i: "j < length (stages cfg)" "i \<in> set (stages cfg ! j)" "\<not> is_poller cfg i" "behind (front s) (final s) (cs i)"
    and free: "unobstructed cfg (front s) cs j"
  shows "\<exists>cs' P'. cons_step cfg (look s) (marks s) (ring s) (cs, accesses s) (cs', P') \<and> thread_advances cfg cs cs'"
proof -
  let ?P = "\<lambda>j. j < length (stages cfg) \<and> (\<exists>g\<in>set (stages cfg ! j). \<not> is_poller cfg g \<and> behind (front s) (final s) (cs g))"
  have start: "?P j" using i by blast
  then obtain k where k: "?P k" "\<forall>l < k. \<not> ?P l" using exists_least_iff [of ?P] by blast
  with start have "k \<le> j" using not_le by blast
  from k obtain g where g: "k < length (stages cfg)" "g \<in> set (stages cfg ! k)" "\<not> is_poller cfg g"
    "behind (front s) (final s) (cs g)" by blast
  have known: "h \<in> set (all_consumers cfg)" if "l \<le> k" "h \<in> set (stages cfg ! l)" for h l
    using that g(1) by (intro all_consumers_stage [THEN iffD2] exI [of _ l]) auto
  have "done_upto (cs h) = front s - 1" if l: "l < k" "h \<in> set (stages cfg ! l)" for l h
  proof (cases "is_poller cfg h")
    case True
    with free l \<open>k \<le> j\<close> show ?thesis unfolding unobstructed_def by (meson less_le_trans)
  next
    case False
    show ?thesis
    proof (rule not_behind(2) [OF inv])
      show "h \<in> set (all_consumers cfg)" using known [of l h] l by simp
      show "\<not> behind (front s) (final s) (cs h)" using k(2) l g(1) False by (meson less_trans)
      show "c_phase (cs h) \<noteq> Crashed" using free l \<open>k \<le> j\<close> False unfolding unobstructed_def by (meson less_le_trans)
    qed
  qed
  then have "\<forall>l < k. \<forall>h\<in>set (stages cfg ! l). done_upto (cs h) = front s - 1" by blast
  from look_finds_all [OF inv wf ok lag g(1,2) this] obtain found V x
    where found: "looks cfg (look s) cs g found V x" "front s - 1 \<le> found" by blast
  have "g \<in> set (threads cfg)" using known [of k g] g threads_iff by blast
  from behind_steps [OF inv ok this g(4) found] show ?thesis .
qed

text \<open>
  So where no thread can step but by a panic, those that nothing holds up have handled everything published or
  crashed themselves, and at the end the joins return unless a poller is in the way.
\<close>

lemma stuck_crew_caught_up:
  assumes inv: "crew cfg s cs (accesses s)" and wf: "wf_config cfg gate" and ok: "ok s"
    and lag: "\<forall>i\<in>set (all_consumers cfg). low s \<le> done_upto (cs i)"
    and stuck: "\<nexists>cs' P'. cons_step cfg (look s) (marks s) (ring s) (cs, accesses s) (cs', P') \<and> thread_advances cfg cs cs'"
    and i: "j < length (stages cfg)" "i \<in> set (stages cfg ! j)" "\<not> is_poller cfg i"
      "unobstructed cfg (front s) cs j" "c_phase (cs i) \<noteq> Crashed"
  shows "map (\<lambda>(q, e, b). (q, e)) (c_log (cs i)) = map (\<lambda>q. (q, event s q)) [0..front s - 1]"
    "final s \<Longrightarrow> c_phase (cs i) = Ended"
proof -
  have b: "\<not> behind (front s) (final s) (cs i)" using crew_behind_steps [OF inv wf ok lag i(1-3) _ i(4)] stuck by blast
  have all: "i \<in> set (all_consumers cfg)" using i(1,2) all_consumers_stage by blast
  show "map (\<lambda>(q, e, b). (q, e)) (c_log (cs i)) = map (\<lambda>q. (q, event s q)) [0..front s - 1]"
    using crew_events [OF inv all i(3)] not_behind(1) [OF inv all b i(5)] by simp
  show "c_phase (cs i) = Ended" if "final s"
    using b i(5) that by (simp add: behind_def split: cons_phase.splits)
qed

lemma stuck_crew_ended:
  assumes inv: "crew cfg s cs (accesses s)" and wf: "wf_config cfg gate" and ok: "ok s" and final: "final s"
    and lag: "\<forall>i\<in>set (all_consumers cfg). low s \<le> done_upto (cs i)"
    and stuck: "\<nexists>cs' P'. cons_step cfg (look s) (marks s) (ring s) (cs, accesses s) (cs', P') \<and> thread_advances cfg cs cs'"
    and clear: "\<not> poller_in_the_way cfg (front s) cs"
    and j: "j < length (stages cfg)" "i \<in> set (stages cfg ! j)" "\<not> is_poller cfg i"
    and well: "\<forall>k < j. \<forall>g\<in>set (stages cfg ! k). \<not> is_poller cfg g \<longrightarrow> c_phase (cs g) \<noteq> Crashed"
  shows "c_phase (cs i) = Ended \<or> c_phase (cs i) = Crashed"
proof -
  have "unobstructed cfg (front s) cs j" using clear j well unfolding unobstructed_def poller_in_the_way_def by auto
  from stuck_crew_caught_up(2) [OF inv wf ok lag stuck j this] final show ?thesis by blast
qed

lemma stuck_crew_joined:
  assumes inv: "crew cfg s cs (accesses s)" and wf: "wf_config cfg gate" and ok: "ok s" and final: "final s"
    and lag: "\<forall>i\<in>set (all_consumers cfg). low s \<le> done_upto (cs i)"
    and stuck: "\<nexists>cs' P'. cons_step cfg (look s) (marks s) (ring s) (cs, accesses s) (cs', P') \<and> thread_advances cfg cs cs'"
    and clear: "\<not> poller_in_the_way cfg (front s) cs"
  shows "join_threads (\<lambda>i. c_phase (cs i)) (threads cfg) = Some
    (if \<exists>i\<in>set (threads cfg). c_phase (cs i) = Crashed then Inl (Panic ''Consumer should not panic.'') else Inr ())"
proof (rule join_threads_result)
  fix pre i post
  assume split: "threads cfg = pre @ i # post" and well: "\<forall>g\<in>set pre. c_phase (cs g) \<noteq> Crashed"
  obtain j where j: "j < length (stages cfg)" "i \<in> set (stages cfg ! j)"
    "\<forall>k < j. \<forall>g\<in>set (stages cfg ! k). \<not> is_poller cfg g \<longrightarrow> g \<in> set pre"
    by (rule thread_position [OF split])
  moreover have "\<not> is_poller cfg i" using split by (metis in_set_conv_decomp threads_iff)
  ultimately show "c_phase (cs i) = Ended \<or> c_phase (cs i) = Crashed"
    using well by (intro stuck_crew_ended [OF inv wf ok final lag stuck clear, of j]) auto
qed

lemma stuck_crew_outcome:
  assumes "crew cfg s cs (accesses s)" "wf_config cfg gate" "ok s" "final s"
    and "\<forall>i\<in>set (all_consumers cfg). low s \<le> done_upto (cs i)"
    and "\<nexists>cs' P'. cons_step cfg (look s) (marks s) (ring s) (cs, accesses s) (cs', P') \<and> thread_advances cfg cs cs'"
  shows "let phase = (\<lambda>i. c_phase (cs i)); join = join_threads phase (threads cfg) in
     if poller_in_the_way cfg (front s) cs
     then join \<noteq> Some (Inr ()) \<and> ((\<forall>i\<in>set (threads cfg). phase i \<noteq> Crashed) \<longrightarrow> join = None)
     else if \<exists>i\<in>set (threads cfg). phase i = Crashed
     then join = Some (Inl (Panic ''Consumer should not panic.''))
     else join = Some (Inr ()) \<and> (\<forall>i\<in>set (threads cfg). phase i = Ended)"
proof (cases "poller_in_the_way cfg (front s) cs")
  case True
  note waits = poller_in_the_way_waits [OF assms(1,2) this]
  from join_threads_held_up [OF this] show ?thesis using True unfolding Let_def by simp
next
  case False
  note joined = stuck_crew_joined [OF assms False]
  have "\<forall>i\<in>set (threads cfg). c_phase (cs i) = Ended" if "\<not> (\<exists>i\<in>set (threads cfg). c_phase (cs i) = Crashed)"
    using joined that join_threads_ended [of "\<lambda>i. c_phase (cs i)" "threads cfg"] by simp
  then show ?thesis using False joined by (simp add: Let_def)
qed

end

end
