(* ===== verification/Broadcast.thy ===== *)
theory Broadcast
  imports Consumer_Runs
begin

text \<open>
  What a disruptor promises its clients, without sequences, slots, cursors or memory: a bounded
  broadcast channel. Everything sent is kept in order, every consumer takes it at its own pace, a stage
  only behind the stage before it, and nothing is sent a full buffer ahead of the slowest. The lemmas
  show that the steps of the consumers refine it behind any producer that meets the contract \<open>source\<close>.
\<close>

section \<open>The channel\<close>

text \<open>\<open>over\<close> says which consumers have seen the end of a closed channel.\<close>

record 'e channel =
  sent :: "'e list"
  position :: "arc \<Rightarrow> nat"
  received :: "arc \<Rightarrow> (nat \<times> 'e) list"
  closed :: bool
  over :: "arc \<Rightarrow> bool"

text \<open>How far a consumer of stage \<open>j\<close> may go.\<close>

definition may_pass :: "config \<Rightarrow> 'e channel \<Rightarrow> nat \<Rightarrow> nat \<Rightarrow> bool" where
  "may_pass cfg b j p \<longleftrightarrow> p \<le> length (sent b) \<and> (0 < j \<longrightarrow> (\<forall>g\<in>set (stages cfg ! (j - 1)). p \<le> position b g))"

text \<open>
  A consumer takes the next event; a poller may also skip some, as when its client drops a guard that
  it has not read to the end.
\<close>

inductive channel_step :: "config \<Rightarrow> nat \<Rightarrow> 'e channel \<Rightarrow> 'e channel \<Rightarrow> bool" for cfg :: config and room :: nat where
  Send: "\<not> closed b \<Longrightarrow> \<forall>i\<in>set (all_consumers cfg). length (sent b) + length es \<le> position b i + room \<Longrightarrow>
    channel_step cfg room b (b\<lparr>sent := sent b @ es\<rparr>)"
| Take: "j < length (stages cfg) \<Longrightarrow> i \<in> set (stages cfg ! j) \<Longrightarrow> \<not> over b i \<Longrightarrow> p = position b i \<Longrightarrow>
    may_pass cfg b j (p + 1) \<Longrightarrow>
    channel_step cfg room b (b\<lparr>position := (position b)(i := p + 1),
      received := (received b)(i := received b i @ [(p, sent b ! p)])\<rparr>)"
| Skip: "j < length (stages cfg) \<Longrightarrow> i \<in> set (stages cfg ! j) \<Longrightarrow> is_poller cfg i \<Longrightarrow> position b i \<le> p \<Longrightarrow>
    may_pass cfg b j p \<Longrightarrow> channel_step cfg room b (b\<lparr>position := (position b)(i := p)\<rparr>)"
| Close: "channel_step cfg room b (b\<lparr>closed := True\<rparr>)"
| Finish: "closed b \<Longrightarrow> i \<in> set (all_consumers cfg) \<Longrightarrow> position b i = length (sent b) \<Longrightarrow>
    channel_step cfg room b (b\<lparr>over := (over b)(i := True)\<rparr>)"

definition channel_new :: "'e channel" where
  "channel_new = \<lparr>sent = [], position = (\<lambda>_. 0), received = (\<lambda>_. []), closed = False, over = (\<lambda>_. False)\<rparr>"

inductive channel_reachable :: "config \<Rightarrow> nat \<Rightarrow> 'e channel \<Rightarrow> bool" for cfg :: config and room :: nat where
  New: "channel_reachable cfg room channel_new"
| Step: "channel_reachable cfg room b \<Longrightarrow> channel_step cfg room b b' \<Longrightarrow> channel_reachable cfg room b'"

text \<open>What this specification says, for itself: the threads have received what was sent up to their position.\<close>

lemma enumerate_snoc:
  assumes "p < length xs"
  shows "enumerate 0 (take p xs) @ [(p, xs ! p)] = enumerate 0 (take (Suc p) xs)"
  using assms by (simp add: take_Suc_conv_app_nth enumerate_append_eq)

definition channel_inv :: "config \<Rightarrow> nat \<Rightarrow> 'e channel \<Rightarrow> bool" where
  "channel_inv cfg room b \<longleftrightarrow>
     (\<forall>i\<in>set (all_consumers cfg). position b i \<le> length (sent b) \<and> length (sent b) \<le> position b i + room
        \<and> (\<not> is_poller cfg i \<longrightarrow> received b i = enumerate 0 (take (position b i) (sent b))))
     \<and> (\<forall>i. over b i \<longrightarrow> closed b \<and> position b i = length (sent b))"

lemma channel_inv_step:
  assumes "channel_step cfg room b b'" "channel_inv cfg room b"
  shows "channel_inv cfg room b'"
  using assms
proof cases
  case (Take j i p)
  have i: "i \<in> set (all_consumers cfg)" using Take(2,3) all_consumers_stage by blast
  have "p < length (sent b)" using Take(6) by (simp add: may_pass_def)
  with Take(1,4,5) assms(2) show ?thesis
    by (auto simp: channel_inv_def enumerate_snoc simp del: set_concat)
next
  case (Skip j i p)
  then show ?thesis using assms(2)
    by (force simp: channel_inv_def may_pass_def simp del: set_concat)
qed (use assms(2) in \<open>force simp: channel_inv_def simp del: set_concat\<close>)+

lemma channel_inv_reachable: "channel_reachable cfg room b \<Longrightarrow> channel_inv cfg room b"
proof (induction rule: channel_reachable.induct)
  case New
  show ?case by (simp add: channel_inv_def channel_new_def)
next
  case Step
  then show ?case by (blast intro: channel_inv_step)
qed

section \<open>The consumers as its users\<close>

text \<open>What a client sees of the consumers \<open>cs\<close> when everything below \<open>S\<close> is published, as \<open>ev\<close>.\<close>

definition channel_of :: "sequence \<Rightarrow> (sequence \<Rightarrow> 'e) \<Rightarrow> bool \<Rightarrow> (arc \<Rightarrow> ('e, 'x) consumer_state) \<Rightarrow> 'e channel" where
  "channel_of S ev fin cs = \<lparr>sent = map ev [0..S - 1], position = (\<lambda>i. nat (next_seq (cs i))),
     received = (\<lambda>i. map (\<lambda>(q, e, b). (nat q, e)) (c_log (cs i))), closed = fin,
     over = (\<lambda>i. c_phase (cs i) = Ended)\<rparr>"

lemma channel_of_update:
  assumes "nat (next_seq c) = nat (next_seq (cs i))" "c_log c = c_log (cs i)" "c_phase c = Ended \<longleftrightarrow> c_phase (cs i) = Ended"
  shows "channel_of S ev fin (cs(i := c)) = channel_of S ev fin cs"
  using assms by (auto simp: channel_of_def fun_eq_iff)

text \<open>A publication is one \<open>Send\<close>.\<close>

lemma channel_of_grow:
  assumes "S \<le> S'" "0 \<le> S" "\<forall>q < S. 0 \<le> q \<longrightarrow> ev' q = ev q" "\<not> fin"
    and "\<forall>i\<in>set (all_consumers cfg). 0 \<le> next_seq (cs i) \<and> S' \<le> next_seq (cs i) + int room"
  shows "channel_step cfg room (channel_of S ev fin cs) (channel_of S' ev' fin cs)"
proof -
  let ?b = "channel_of S ev fin cs"
  have "[0..S' - 1] = [0..S - 1] @ [S..S' - 1]" using assms(1,2) upto_split1 [of 0 S "S' - 1"]
    by (cases "S = S'") auto
  then have "map ev' [0..S' - 1] = map ev [0..S - 1] @ map ev' [S..S' - 1]" using assms(3) by simp
  then have "channel_of S' ev' fin cs = ?b\<lparr>sent := sent ?b @ map ev' [S..S' - 1]\<rparr>" by (simp add: channel_of_def)
  moreover have "length (sent ?b) + length (map ev' [S..S' - 1]) \<le> position ?b i + room"
    if "i \<in> set (all_consumers cfg)" for i
    using bspec [OF assms(5) that] assms(1,2) by (simp add: channel_of_def) arith
  ultimately show ?thesis using assms(4) channel_step.Send [of ?b cfg "map ev' [S..S' - 1]" room]
    by (simp add: channel_of_def del: set_concat)
qed

context source
begin

lemma position_bound:
  assumes inv: "crew cfg s cs P" and j: "j < length (stages cfg)" "i \<in> set (stages cfg ! j)"
    and p: "p \<le> reach (cs i) + 1"
  shows "may_pass cfg (channel_of (front s) ev fin cs) j (nat p)"
proof -
  have own: "cons_inv cfg cs P (front s) (event s) (final s) j i" by (rule crew_inv_cons [OF inv j])
  have "p \<le> next_seq (cs g)" if "0 < j" "g \<in> set (stages cfg ! (j - 1))" for g
  proof -
    have "cons_inv cfg cs P (front s) (event s) (final s) (j - 1) g" using crew_inv_cons [OF inv] that j(1) by simp
    then have "done_upto (cs g) < next_seq (cs g)" by (simp add: cons_inv_def Let_def)
    moreover have "reach (cs i) \<le> done_upto (cs g)" using own that by (simp add: cons_inv_def Let_def)
    ultimately show ?thesis using p by linarith
  qed
  moreover have "p \<le> front s" using own p by (simp add: cons_inv_def Let_def)
  ultimately show ?thesis by (auto simp: may_pass_def channel_of_def intro: nat_mono)
qed

lemma crew_take_refines:
  assumes inv: "crew cfg s cs P" and ok: "ok s" and i: "i \<in> set (all_consumers cfg)" and lag: "low s \<le> done_upto (cs i)"
    and phase: "c_phase (cs i) = Handling a" and more: "next_seq (cs i) \<le> a"
    and c: "next_seq c = i64 (next_seq (cs i) + 1)" "c_phase c \<noteq> Ended"
      "c_log c = c_log (cs i) @ [(next_seq (cs i), read_at (ring s) (ring_get_ref (ring s) (next_seq (cs i))), b)]"
  shows "channel_step cfg room (channel_of (front s) (event s) (final s) cs)
    (channel_of (front s) (event s) (final s) (cs(i := c)))" (is "channel_step cfg room ?b ?b'")
proof -
  let ?q = "next_seq (cs i)"
  obtain j where j: "j < length (stages cfg)" "i \<in> set (stages cfg ! j)" using i all_consumers_stage by blast
  have own: "cons_inv cfg cs P (front s) (event s) (final s) j i" by (rule crew_inv_cons [OF inv j])
  have q: "0 \<le> ?q" "a < front s" "front s < 2 ^ 62" "done_upto (cs i) < ?q"
    using own phase bounded [OF ok] by (auto simp: cons_inv_def Let_def reach_def)
  then have succ: "i64 (?q + 1) = ?q + 1" using more by (intro i64_id) (simp add: in_i64_iff)
  have "read_at (ring s) (ring_get_ref (ring s) ?q) = event s ?q"
    using kept [OF ok, of ?q] q more lag by (simp add: ring_read_def)
  moreover have "sent ?b ! nat ?q = event s ?q" using q(1,2) more by (simp add: channel_of_def)
  ultimately have "?b' = ?b\<lparr>position := (position ?b)(i := nat ?q + 1),
      received := (received ?b)(i := received ?b i @ [(nat ?q, sent ?b ! nat ?q)])\<rparr>"
    using c phase q(1) by (auto simp: channel_of_def fun_eq_iff succ nat_add_distrib)
  moreover have "may_pass cfg ?b j (nat ?q + 1)"
    using position_bound [OF inv j, of "?q + 1" "event s" "final s"] phase more q(1) by (simp add: reach_def nat_add_distrib)
  moreover have "\<not> over ?b i" "position ?b i = nat ?q" using phase by (simp_all add: channel_of_def)
  ultimately show ?thesis using channel_step.Take [OF j, of ?b "nat ?q" room] by simp
qed

text \<open>Every step of a consumer is one step of the channel, or is not seen by the client.\<close>

lemma crew_step_refines:
  assumes step: "cons_step cfg (look s) (marks s) (ring s) (cs, accesses s) (cs', P')"
    and inv: "crew cfg s cs (accesses s)" and ok: "ok s"
    and lag: "\<forall>i\<in>set (all_consumers cfg). low s \<le> done_upto (cs i)"
  shows "channel_of (front s) (event s) (final s) cs' = channel_of (front s) (event s) (final s) cs
    \<or> channel_step cfg room (channel_of (front s) (event s) (final s) cs) (channel_of (front s) (event s) (final s) cs')"
  using step
proof (cases rule: cons_step.cases)
  case (Look i c found V x)
  then show ?thesis by (intro disjI1) (simp add: channel_of_update)
next
  case (GiveUp i c found V x)
  let ?b = "channel_of (front s) (event s) (final s) cs"
  have "next_seq (cs i) = front s \<and> final s"
    using marked [OF ok GiveUp(9)] crew_bounds(1,2) [OF inv GiveUp(3)] GiveUp(5) by auto
  then have "closed ?b" "position ?b i = length (sent ?b)" by (simp_all add: channel_of_def)
  moreover have "channel_of (front s) (event s) (final s) cs' = ?b\<lparr>over := (over ?b)(i := True)\<rparr>"
    using GiveUp by (auto simp: channel_of_def fun_eq_iff)
  ultimately show ?thesis using channel_step.Finish [of ?b i cfg room] GiveUp(3) by simp
next
  case (Handle i c found)
  then show ?thesis
    using crew_take_refines [OF inv ok Handle(3) bspec [OF lag Handle(3)], of found] by simp
next
  case (Crash i c found)
  then show ?thesis
    using crew_take_refines [OF inv ok Crash(3) bspec [OF lag Crash(3)], of found] by simp
next
  case (CrashStart i c)
  then show ?thesis by (intro disjI1) (simp add: channel_of_update)
next
  case (CrashWait i c found V x)
  then show ?thesis by (intro disjI1) (simp add: channel_of_update)
next
  case (Advance i c found)
  then show ?thesis by (intro disjI1) (simp add: channel_of_update)
next
  case (Poll i c mark found V x limit)
  then show ?thesis by (intro disjI1) (simp add: channel_of_update)
next
  case (Read i c found)
  then show ?thesis
    using crew_take_refines [OF inv ok Read(3) bspec [OF lag Read(3)], of found] by simp
next
  case (DropGuard i c found)
  let ?b = "channel_of (front s) (event s) (final s) cs"
  note b = handling_bounds [OF inv DropGuard(3) ok, of found]
  obtain j where j: "j < length (stages cfg)" "i \<in> set (stages cfg ! j)" using DropGuard(3) all_consumers_stage by blast
  have "may_pass cfg ?b j (nat (found + 1))"
    using position_bound [OF inv j, of "found + 1" "event s" "final s"] DropGuard by (simp add: reach_def)
  moreover have "position ?b i \<le> nat (found + 1)" using b DropGuard by (simp add: channel_of_def)
  moreover have "channel_of (front s) (event s) (final s) cs' = ?b\<lparr>position := (position ?b)(i := nat (found + 1))\<rparr>"
    using DropGuard b by (auto simp: channel_of_def fun_eq_iff)
  ultimately show ?thesis using channel_step.Skip [OF j, of ?b "nat (found + 1)" room] DropGuard(4) by simp
qed

end

end
