(* ===== verification/Spmc_System.thy ===== *)
theory Spmc_System
  imports Uni_Producer Broadcast
begin

text \<open>
  The running disruptor with one producer: its thread, the consumer threads and the pollers as an
  interleaving of their atomic steps and of their accesses to the slots (\<open>src/producer/uni.rs\<close> with
  the consumers of \<open>Consumer_Steps\<close>). The lemmas establish the invariant of all reachable states;
  \<open>Spmc_Safety\<close> and \<open>Spmc_Shutdown\<close> draw the conclusions.
\<close>

section \<open>State\<close>

datatype 'e prod_phase = Idle | Filling "('e \<Rightarrow> 'e) list" mut_batch_iter nat | Dropped

text \<open>
  \<open>published\<close> and \<open>performed\<close> only record the past: the events in the order of their publication, and
  the accesses made to slots. A consumer has nothing to remember of the producer's cursor.
\<close>

record 'e system =
  producer :: "('e, dependent) uni_producer"
  p_phase :: "'e prod_phase"
  p_history :: "message list"
  p_view :: "access set"
  shutdown_history :: "sequence list"
  consumer_at :: "arc \<Rightarrow> ('e, unit) consumer_state"
  performed :: "access set"
  published :: "'e list"

section \<open>Steps\<close>

text \<open>A look at the producer's barrier.\<close>

definition producer_look :: "'e system \<Rightarrow> unit source" where
  "producer_look s q x found V x' \<longleftrightarrow> (\<exists>m\<in>set (p_history s).
     found = uni_barrier_get_after (cursor_new (fst m)) q \<and> V = snd m)"

text \<open>
  \<open>Claim\<close> is \<open>next_sequences\<close> for a batch of \<open>n\<close> (1 for a single publication) with closure \<open>fs\<close>; a failed
  claim changes nothing. \<open>Fill\<close> is one write of the closure through the batch iterator, \<open>Publish\<close> the
  release of the batch, \<open>Unwind\<close> a panic of the closure, after which the client may drop the producer
  or, having caught the panic, use it again. \<open>Drop\<close> is the store of the shutdown mark, \<open>Consume\<close> any
  step of a consumer. The run is bounded by \<open>2 ^ 62\<close> sequences.
\<close>

inductive sys_step :: "config \<Rightarrow> 'e system \<Rightarrow> 'e system \<Rightarrow> bool" for cfg :: config where
  Claim: "p_phase s = Idle \<Longrightarrow> p = producer s \<Longrightarrow> n < 2 ^ 62 \<Longrightarrow> sequence p + int n < 2 ^ 62 \<Longrightarrow>
    may_load (consumer_at s) (consumer_barrier p) msgs \<Longrightarrow>
    uni_next_sequences gate_get_after (loaded msgs) n p = (Inr upper, p') \<Longrightarrow>
    sys_step cfg s (s\<lparr>producer := p', p_phase := Filling fs (batch_iter_new (sequence p) upper) n,
      p_view := (if sequence_clear_of_consumers p < upper
        then p_view s \<union> acquired (consumer_barrier p) msgs else p_view s)\<rparr>)"
| Fill: "p_phase s = Filling (f # fs) it n \<Longrightarrow> p = producer s \<Longrightarrow>
    batch_iter_next (ring_buffer p) it = (Some slot, it') \<Longrightarrow>
    sys_step cfg s (s\<lparr>producer := p\<lparr>ring_buffer := update_at (ring_buffer p) slot f\<rparr>,
      p_phase := Filling fs it' n, p_view := insert (Wr (current it)) (p_view s),
      performed := insert (Wr (current it)) (performed s)\<rparr>)"
| Publish: "p_phase s = Filling fs it n \<Longrightarrow> p = producer s \<Longrightarrow>
    fs = [] \<or> fst (batch_iter_next (ring_buffer p) it) = None \<Longrightarrow>
    sys_step cfg s (s\<lparr>producer := p\<lparr>producer_barrier := uni_barrier_publish (last_sequence it) (producer_barrier p),
        sequence := i64 (sequence p + i64 (int n))\<rparr>,
      p_phase := Idle, p_history := p_history s @ [(last_sequence it, p_view s)],
      published := published s @ map (ring_read (ring_buffer p)) [sequence p..last_sequence it]\<rparr>)"
| Unwind: "p_phase s = Filling fs it n \<Longrightarrow> sys_step cfg s (s\<lparr>p_phase := Idle\<rparr>)"
| Drop: "p_phase s = Idle \<Longrightarrow> p = producer s \<Longrightarrow>
    sys_step cfg s (s\<lparr>producer := p\<lparr>shutdown_at_sequence := sequence p\<rparr>, p_phase := Dropped,
      shutdown_history := shutdown_history s @ [sequence p]\<rparr>)"
| Consume: "cons_step cfg (producer_look s) (shutdown_history s) (ring_buffer (producer s))
      (consumer_at s, performed s) (cs, P) \<Longrightarrow>
    sys_step cfg s (s\<lparr>consumer_at := cs, performed := P\<rparr>)"

text \<open>What the builder leaves: a new producer, consumers that have seen nothing.\<close>

definition sys_init :: "('e, dependent) uni_producer \<Rightarrow> 'e system" where
  "sys_init p = \<lparr>producer = p, p_phase = Idle, p_history = [(NONE, {})], p_view = {},
     shutdown_history = [NONE], consumer_at = (\<lambda>_. consumer_init ()), performed = {}, published = []\<rparr>"

text \<open>\<open>fresh p\<close>: what \<open>UniProducer::new\<close> returns over a well-formed ring.\<close>

definition fresh :: "('e, dependent) uni_producer \<Rightarrow> bool" where
  "fresh p \<longleftrightarrow> sequence p = 0 \<and> uni_inv (-1) p
     \<and> sequence_clear_of_consumers p = int (length (slots (ring_buffer p))) - 1"

text \<open>The producer with its barrier as a value of \<open>dependent\<close>.\<close>

definition lift_barrier :: "('c \<Rightarrow> dependent) \<Rightarrow> ('e, 'c) uni_producer \<Rightarrow> ('e, dependent) uni_producer" where
  "lift_barrier h p = \<lparr>shutdown_at_sequence = shutdown_at_sequence p,
     ring_buffer = ring_buffer p, producer_barrier = producer_barrier p,
     consumer_handles = consumer_handles p, consumer_barrier = h (consumer_barrier p),
     sequence = sequence p, sequence_clear_of_consumers = sequence_clear_of_consumers p\<rparr>"

lemma lift_barrier_new: "lift_barrier h (uni_producer_new sd rb b hs cb) = uni_producer_new sd rb b hs (h cb)"
  by (simp add: lift_barrier_def uni_producer_new_def)

lemma fresh_new:
  assumes "wf_ring rb"
  shows "fresh (uni_producer_new sd rb uni_producer_barrier_new hs cb)"
proof -
  have "i64 (capacity rb - 1) = capacity rb - 1"
    using wf_ring_pos [OF assms] wf_ring_capacity [OF assms] by (intro i64_id) (simp add: in_i64_iff)
  with uni_inv_new [OF assms, of sd hs cb] assms show ?thesis
    by (simp add: fresh_def) (simp add: uni_producer_new_def)
qed

inductive reachable :: "config \<Rightarrow> 'e system \<Rightarrow> bool" for cfg :: config where
  Start: "fresh p \<Longrightarrow> wf_config cfg (consumer_barrier p) \<Longrightarrow> reachable cfg (sys_init p)"
| Step: "reachable cfg s \<Longrightarrow> sys_step cfg s s' \<Longrightarrow> reachable cfg s'"

section \<open>The invariant\<close>

fun claimed_upto :: "'e prod_phase \<Rightarrow> sequence \<Rightarrow> sequence" where
  "claimed_upto (Filling fs it n) S = last_sequence it"
| "claimed_upto _ S = S - 1"

abbreviation seq_of :: "'e system \<Rightarrow> sequence" where
  "seq_of s \<equiv> sequence (producer s)"

abbreviation size_of :: "'e system \<Rightarrow> int" where
  "size_of s \<equiv> int (length (slots (ring_buffer (producer s))))"

abbreviation clear_of :: "'e system \<Rightarrow> sequence" where
  "clear_of s \<equiv> sequence_clear_of_consumers (producer s)"

definition producer_inv :: "'e system \<Rightarrow> bool" where
  "producer_inv s \<longleftrightarrow> wf_ring (ring_buffer (producer s)) \<and> 0 \<le> seq_of s \<and> seq_of s < 2 ^ 62
     \<and> claimed_upto (p_phase s) (seq_of s) \<le> clear_of s
     \<and> (\<forall>fs it n. p_phase s = Filling fs it n \<longrightarrow> last_sequence it = seq_of s - 1 + int n
          \<and> last_sequence it + 1 < 2 ^ 62 \<and> n < 2 ^ 62 \<and> seq_of s \<le> current it \<and> current it \<le> last_sequence it + 1)
     \<and> relaxed_value (producer_barrier (producer s)) = seq_of s - 1
     \<and> length (published s) = nat (seq_of s)
     \<and> set (shutdown_history s) = {-1} \<union> (if p_phase s = Dropped then {seq_of s} else {})"

definition memory_inv :: "'e system \<Rightarrow> bool" where
  "memory_inv s \<longleftrightarrow> p_history s \<noteq> [] \<and> fst (last (p_history s)) = seq_of s - 1
     \<and> (\<forall>(v, V)\<in>set (p_history s). -1 \<le> v \<and> v < seq_of s \<and> before (performed s) {} v \<subseteq> V)
     \<and> (\<forall>q. 0 \<le> q \<and> q < seq_of s \<and> clear_of s - size_of s < q \<longrightarrow>
          ring_read (ring_buffer (producer s)) q = published s ! nat q)
     \<and> (\<forall>q. Wr q \<in> performed s \<longrightarrow> 0 \<le> q \<and> q \<le> clear_of s \<and> Wr q \<in> p_view s)"

definition room_inv :: "config \<Rightarrow> 'e system \<Rightarrow> bool" where
  "room_inv cfg s \<longleftrightarrow>
     before (performed s) (set (all_consumers cfg)) (clear_of s - size_of s) \<subseteq> p_view s
     \<and> (\<forall>i\<in>set (all_consumers cfg). clear_of s - size_of s \<le> done_upto (consumer_at s i))"

definition system_crew :: "config \<Rightarrow> 'e system \<Rightarrow> bool" where
  "system_crew cfg s \<longleftrightarrow> crew_inv cfg (\<lambda>_ _. True) (consumer_at s) (performed s) (seq_of s)
     (\<lambda>q. published s ! nat q) (p_phase s = Dropped)"

definition sys_inv :: "config \<Rightarrow> 'e system \<Rightarrow> bool" where
  "sys_inv cfg s \<longleftrightarrow> wf_config cfg (consumer_barrier (producer s)) \<and> producer_inv s \<and> memory_inv s
     \<and> room_inv cfg s \<and> system_crew cfg s"

text \<open>What the consumers rely on of the producer holds in all these states.\<close>

interpretation spmc: live_source "\<lambda>s. producer_inv s \<and> memory_inv s" producer_look "\<lambda>_ _ _. True" seq_of
  "\<lambda>s. clear_of s - size_of s" performed "\<lambda>s. ring_buffer (producer s)" "\<lambda>s q. published s ! nat q"
  shutdown_history "\<lambda>s. p_phase s = Dropped"
proof unfold_locales
  fix s :: "'a system" and q :: sequence and x x' :: unit and found V
  assume "producer_inv s \<and> memory_inv s" "producer_look s q x found V x'"
  then show "found < seq_of s \<and> before (performed s) {} found \<subseteq> before (performed s) {} (q - 1) \<union> V
      \<and> (q \<le> found \<longrightarrow> True)"
    by (fastforce simp: producer_look_def memory_inv_def uni_barrier_get_after_def)
next
  fix s :: "'a system" and q :: sequence and x :: unit
  assume "producer_inv s \<and> memory_inv s"
  then show "\<exists>found V x'. producer_look s q x found V x' \<and> seq_of s - 1 \<le> found"
    by (intro exI [of _ "seq_of s - 1"] exI [of _ "snd (last (p_history s))"])
      (auto simp: producer_look_def memory_inv_def uni_barrier_get_after_def intro!: bexI [of _ "last (p_history s)"])
qed (auto simp: producer_inv_def memory_inv_def split: if_splits)

section \<open>The invariant holds at the start and after every step\<close>

lemma sys_inv_init:
  assumes "fresh p" "wf_config cfg (consumer_barrier p)"
  shows "sys_inv cfg (sys_init p)"
  using assms crew_inv_init [of "\<lambda>_ _. True" "()"]
  by (auto simp: sys_inv_def sys_init_def producer_inv_def memory_inv_def room_inv_def system_crew_def
      consumer_init_def done_upto_def before_def fresh_def uni_inv_def NONE_def)

lemma sys_inv_producer:
  assumes inv: "sys_inv cfg s" and "producer_inv s'" "memory_inv s'" "room_inv cfg s'"
    and "consumer_barrier (producer s') = consumer_barrier (producer s)"
    and same: "consumer_at s' = consumer_at s" "seq_of s \<le> seq_of s'"
    and es: "\<exists>es. published s' = published s @ es"
    and dropped: "p_phase s = Dropped \<longrightarrow> p_phase s' = Dropped \<and> seq_of s' = seq_of s"
    and P: "performed s' = performed s \<or> (\<exists>q \<ge> seq_of s. performed s' = insert (Wr q) (performed s))"
  shows "sys_inv cfg s'"
proof -
  have "length (published s) = nat (seq_of s)" using inv by (simp add: sys_inv_def producer_inv_def)
  then have "\<forall>q < seq_of s. 0 \<le> q \<longrightarrow> published s' ! nat q = published s ! nat q"
    using es by (auto simp: nth_append)
  moreover have crew: "crew_inv cfg (\<lambda>_ _. True) (consumer_at s) (performed s) (seq_of s)
      (\<lambda>q. published s ! nat q) (p_phase s = Dropped)"
    using inv by (simp only: sys_inv_def system_crew_def)
  ultimately have "system_crew cfg s'"
    unfolding system_crew_def same(1)
    by (intro crew_inv_grow [OF crew same(2)]) (use dropped P in simp_all)
  with assms show ?thesis by (simp add: sys_inv_def)
qed

lemma sys_inv_drop:
  assumes inv: "sys_inv cfg s" and "p_phase s = Idle"
  shows "sys_inv cfg (s\<lparr>producer := (producer s)\<lparr>shutdown_at_sequence := seq_of s\<rparr>, p_phase := Dropped,
    shutdown_history := shutdown_history s @ [seq_of s]\<rparr>)" (is "sys_inv cfg ?s")
proof (rule sys_inv_producer [OF inv])
  show "producer_inv ?s" "memory_inv ?s" "room_inv cfg ?s"
    using assms by (auto simp: sys_inv_def producer_inv_def memory_inv_def room_inv_def)
qed (use assms in auto)

lemma sys_inv_unwind:
  assumes inv: "sys_inv cfg s" and "p_phase s = Filling fs it n"
  shows "sys_inv cfg (s\<lparr>p_phase := Idle\<rparr>)" (is "sys_inv cfg ?s")
proof (rule sys_inv_producer [OF inv])
  show "producer_inv ?s" "memory_inv ?s" "room_inv cfg ?s"
    using assms by (auto simp: sys_inv_def producer_inv_def memory_inv_def room_inv_def)
qed (use assms in auto)

lemma sys_inv_fill:
  assumes inv: "sys_inv cfg s" and phase: "p_phase s = Filling (f # fs) it n"
    and next_item: "batch_iter_next (ring_buffer (producer s)) it = (Some slot, it')"
  shows "sys_inv cfg (s\<lparr>producer := (producer s)\<lparr>ring_buffer := update_at (ring_buffer (producer s)) slot f\<rparr>,
      p_phase := Filling fs it' n, p_view := insert (Wr (current it)) (p_view s),
      performed := insert (Wr (current it)) (performed s)\<rparr>)" (is "sys_inv cfg ?s")
proof (rule sys_inv_producer [OF inv])
  let ?p = "producer s" and ?q = "current it"
  have p: "producer_inv s" and m: "memory_inv s" and room: "room_inv cfg s"
    using inv by (auto simp: sys_inv_def)
  have wf: "wf_ring (ring_buffer ?p)" using p by (simp add: producer_inv_def)
  have q: "seq_of s \<le> ?q" "?q \<le> last_sequence it" "last_sequence it < 2 ^ 62" "last_sequence it \<le> clear_of s" "0 \<le> seq_of s"
    and slot: "slot = ring_get (ring_buffer ?p) ?q" and it': "it' = it\<lparr>current := i64 (?q + 1)\<rparr>"
    using p phase next_item by (auto simp: producer_inv_def batch_iter_next_def split: if_splits)
  have wrap: "i64 (?q + 1) = ?q + 1" using q by (intro i64_id) (simp add: in_i64_iff)
  show "producer_inv ?s"
    using p phase q by (auto simp: producer_inv_def it' wrap)
  have old: "before (insert (Wr ?q) (performed s)) A v = before (performed s) A v" if "v < seq_of s" for A v
    using that q by (intro before_insert_Wr) simp
  have new: "before (insert (Wr ?q) (performed s)) A v \<subseteq> insert (Wr ?q) V"
    if "before (performed s) A v \<subseteq> V" for A v V
    using that by (auto simp: before_def split: access.splits)
  have hist: "(\<forall>(v, V)\<in>set (p_history s). -1 \<le> v \<and> v < seq_of s \<and> before (insert (Wr ?q) (performed s)) {} v \<subseteq> V)
      \<longleftrightarrow> (\<forall>(v, V)\<in>set (p_history s). -1 \<le> v \<and> v < seq_of s \<and> before (performed s) {} v \<subseteq> V)"
    by (intro ball_cong refl) (simp add: old split: prod.split cong: conj_cong)
  have "ring_read (update_at (ring_buffer ?p) slot f) r = ring_read (ring_buffer ?p) r"
    if r: "0 \<le> r" "r < seq_of s" "clear_of s - size_of s < r" for r
  proof -
    have "\<bar>?q - r\<bar> < size_of s" "?q \<noteq> r" using r q by auto
    then have "?q mod size_of s \<noteq> r mod size_of s" using mod_window_inj [of ?q "size_of s" r] by auto
    then show ?thesis using wf by (simp add: slot ring_read_update)
  qed
  then show "memory_inv ?s" using m q by (auto simp: memory_inv_def hist)
  show "room_inv cfg ?s"
    using room new [of "set (all_consumers cfg)" "clear_of s - size_of s" "p_view s"] by (simp add: room_inv_def)
  show "performed ?s = performed s \<or> (\<exists>q \<ge> seq_of s. performed ?s = insert (Wr q) (performed s))"
    using q by auto
qed (use phase in auto)

lemma sys_inv_publish:
  assumes inv: "sys_inv cfg s" and phase: "p_phase s = Filling fs it n"
  shows "sys_inv cfg (s\<lparr>producer := (producer s)\<lparr>
        producer_barrier := uni_barrier_publish (last_sequence it) (producer_barrier (producer s)),
        sequence := i64 (seq_of s + i64 (int n))\<rparr>,
      p_phase := Idle, p_history := p_history s @ [(last_sequence it, p_view s)],
      published := published s @ map (ring_read (ring_buffer (producer s))) [seq_of s..last_sequence it]\<rparr>)"
    (is "sys_inv cfg ?s")
proof -
  let ?new = "map (ring_read (ring_buffer (producer s))) [seq_of s..last_sequence it]"
  have p: "producer_inv s" and m: "memory_inv s" and room: "room_inv cfg s"
    using inv by (auto simp: sys_inv_def)
  have it: "last_sequence it = seq_of s - 1 + int n" "last_sequence it + 1 < 2 ^ 62" "n < 2 ^ 62" "0 \<le> seq_of s"
    "current it - 1 \<le> last_sequence it" "last_sequence it \<le> clear_of s" "length (published s) = nat (seq_of s)"
    using p phase by (auto simp: producer_inv_def)
  have "int n < 4611686018427387904" using it(3) by simp
  then have "i64 (int n) = int n" "i64 (seq_of s + int n) = seq_of s + int n"
    using it by (auto simp: in_i64_iff intro!: i64_id)
  then have seq: "seq_of ?s = seq_of s + int n" by simp
  have events: "published ?s ! nat q = ring_read (ring_buffer (producer s)) q"
    if q: "0 \<le> q" "q < seq_of s + int n" "clear_of s - size_of s < q" for q
  proof (cases "q < seq_of s")
    case True
    with m q it(4,7) show ?thesis by (simp add: memory_inv_def nth_append nat_less_eq_zless)
  next
    case False
    then have "nat q - nat (seq_of s) = nat (q - seq_of s)" using it(4) by (simp add: nat_diff_distrib)
    moreover have "?new ! nat (q - seq_of s) = ring_read (ring_buffer (producer s)) q"
      using False q it(1) by simp
    ultimately show ?thesis using False it(4,7) q by (simp add: nth_append nat_less_eq_zless)
  qed
  show ?thesis
  proof (rule sys_inv_producer [OF inv])
    show "producer_inv ?s"
      using p phase it seq by (auto simp: producer_inv_def uni_barrier_publish_def nat_add_distrib)
    have "before (performed s) {} w \<subseteq> p_view s" for w
    proof
      fix x assume "x \<in> before (performed s) {} w"
      then obtain u where "x = Wr u" "Wr u \<in> performed s" by (auto simp: before_def split: access.splits)
      with m show "x \<in> p_view s" by (simp add: memory_inv_def)
    qed
    with m phase it seq events show "memory_inv ?s" by (auto simp: memory_inv_def)
    show "room_inv cfg ?s" using room by (simp add: room_inv_def)
    show "seq_of s \<le> seq_of ?s" using seq by simp
  qed (use phase in auto)
qed

text \<open>A claim under arbitrarily old loads.\<close>

lemma claim_cases:
  assumes inv: "sys_inv cfg s" and load: "may_load (consumer_at s) gate msgs" and gate: "gate = consumer_barrier (producer s)"
    and n: "n < 2 ^ 62" "seq_of s + int n < 2 ^ 62"
    and claim: "uni_next_sequences gate_get_after (loaded msgs) n (producer s) = (Inr upper, p')"
  obtains (fast) "p' = producer s" "upper = seq_of s - 1 + int n" "upper \<le> clear_of s"
  | (slow) rear where "p' = (producer s)\<lparr>sequence_clear_of_consumers := rear + size_of s\<rparr>"
      "upper = seq_of s - 1 + int n" "clear_of s < upper" "upper \<le> rear + size_of s"
      "\<forall>i\<in>set (all_consumers cfg). rear \<le> done_upto (consumer_at s i)"
      "before (performed s) (set (all_consumers cfg)) rear \<subseteq> acquired gate msgs"
proof -
  let ?p = "producer s" and ?S = "seq_of s"
  have p: "producer_inv s" and wf: "wf_config cfg gate" and crew: "system_crew cfg s"
    using inv gate by (simp_all add: sys_inv_def)
  have S: "wf_ring (ring_buffer ?p)" "0 \<le> ?S" "?S < 2 ^ 62" using p by (auto simp: producer_inv_def)
  define rear where "rear = gate_get_after gate (loaded msgs) (?S - 1)"
  note rear = gate_result [OF crew [unfolded system_crew_def] wf load S(3) rear_def]
  have "int n < 4611686018427387904" using n by simp
  then have wraps: "i64 (int n) = int n" "i64 (?S - 1) = ?S - 1" "i64 (?S - 1 + int n) = ?S - 1 + int n"
    using S n by (auto simp: in_i64_iff intro!: i64_id)
  have eq: "uni_next_sequences gate_get_after (loaded msgs) n ?p =
      (if clear_of s < ?S - 1 + int n then uni_claim_with rear (int n) ?p else (Inr (?S - 1 + int n), ?p))"
    using wraps gate by (simp add: uni_next_sequences_def Let_def rear_def)
  show thesis
  proof (cases "clear_of s < ?S - 1 + int n")
    case False
    with eq claim fast show ?thesis by auto
  next
    case True
    with eq claim uni_claim_with_bounds [OF S rear(1) rear(3) n(1)] rear(2,4) show ?thesis
      by (intro slow [of rear]) (auto simp: uni_room_def simp del: set_concat split: if_splits)
  qed
qed

lemma sys_inv_claim:
  assumes inv: "sys_inv cfg s" and phase: "p_phase s = Idle"
    and load: "may_load (consumer_at s) (consumer_barrier (producer s)) msgs"
    and n: "n < 2 ^ 62" "seq_of s + int n < 2 ^ 62"
    and claim: "uni_next_sequences gate_get_after (loaded msgs) n (producer s) = (Inr upper, p')"
  shows "sys_inv cfg (s\<lparr>producer := p', p_phase := Filling fs (batch_iter_new (seq_of s) upper) n,
      p_view := (if clear_of s < upper then p_view s \<union> acquired (consumer_barrier (producer s)) msgs
        else p_view s)\<rparr>)" (is "sys_inv cfg ?s")
proof -
  have p: "producer_inv s" and m: "memory_inv s" and room: "room_inv cfg s" using inv by (auto simp: sys_inv_def)
  show ?thesis
  proof (rule claim_cases [OF inv load refl n claim], goal_cases)
    case 1
    show ?thesis
    proof (rule sys_inv_producer [OF inv])
      show "producer_inv ?s" using p phase 1 n by (auto simp: producer_inv_def batch_iter_new_def)
      show "memory_inv ?s" using m phase 1 by (auto simp: memory_inv_def batch_iter_new_def)
      show "room_inv cfg ?s" using room 1 by (auto simp: room_inv_def simp del: set_concat)
    qed (use phase 1 in auto)
  next
    case (2 rear)
    show ?thesis
    proof (rule sys_inv_producer [OF inv])
      show "producer_inv ?s" using p phase 2 n by (auto simp: producer_inv_def batch_iter_new_def)
      show "memory_inv ?s" using m phase 2 by (auto simp: memory_inv_def batch_iter_new_def)
      show "room_inv cfg ?s" using 2 by (auto simp: room_inv_def simp del: set_concat)
    qed (use phase 2 in auto)
  qed
qed

text \<open>A consumer's step.\<close>

lemma sys_inv_consume:
  assumes inv: "sys_inv cfg s" and step: "cons_step cfg (producer_look s) (shutdown_history s) (ring_buffer (producer s))
      (consumer_at s, performed s) (cs, P)"
  shows "sys_inv cfg (s\<lparr>consumer_at := cs, performed := P\<rparr>)" (is "sys_inv cfg ?s")
proof -
  have ok: "producer_inv s \<and> memory_inv s" and p: "producer_inv s" and m: "memory_inv s" and room: "room_inv cfg s"
    and wf: "wf_config cfg (consumer_barrier (producer s))"
    using inv by (simp_all add: sys_inv_def)
  have crew: "crew_inv cfg (\<lambda>_ _. True) (consumer_at s) (performed s) (seq_of s)
      (\<lambda>q. published s ! nat q) (p_phase s = Dropped)"
    using inv by (simp only: sys_inv_def system_crew_def)
  have lag: "\<forall>i\<in>set (all_consumers cfg). clear_of s - size_of s \<le> done_upto (consumer_at s i)"
    using room unfolding room_inv_def by blast
  from spmc.crew_step_effect [OF step crew ok] obtain i c where i: "i \<in> set (all_consumers cfg)"
    and c: "cs = (consumer_at s)(i := c)" "done_upto (consumer_at s i) \<le> done_upto c"
    and P: "P = performed s \<or> P = insert (Rd i (next_seq (consumer_at s i))) (performed s)" .
  have low: "clear_of s - size_of s < next_seq (consumer_at s i)"
    using bspec [OF lag i] crew_bounds(3) [OF crew i] by simp
  have same: "before P {} w = before (performed s) {} w" for w
    using P before_insert_Rd [of i "{}"] by auto
  have "before P (set (all_consumers cfg)) (clear_of s - size_of s) =
      before (performed s) (set (all_consumers cfg)) (clear_of s - size_of s)"
    using P low before_insert_Rd [of i "set (all_consumers cfg)" "clear_of s - size_of s" _ "performed s"] by blast
  moreover have "\<forall>k\<in>set (all_consumers cfg). clear_of s - size_of s \<le> done_upto (cs k)"
    using lag c by (auto simp del: set_concat dest: bspec)
  ultimately have "room_inv cfg ?s" using room by (simp add: room_inv_def del: set_concat)
  moreover have "memory_inv ?s"
  proof -
    have "Wr q \<in> P \<longleftrightarrow> Wr q \<in> performed s" for q using P by auto
    with m same show ?thesis by (simp add: memory_inv_def)
  qed
  moreover have "producer_inv ?s" using p by (auto simp: producer_inv_def)
  moreover have "system_crew cfg ?s"
    using spmc.crew_step [OF step crew wf ok lag] by (simp add: system_crew_def)
  ultimately show ?thesis using wf by (simp add: sys_inv_def)
qed

lemma sys_inv_step: "sys_step cfg s s' \<Longrightarrow> sys_inv cfg s \<Longrightarrow> sys_inv cfg s'"
proof (induction rule: sys_step.induct)
  case Claim
  then show ?case by - (hypsubst, rule sys_inv_claim; (assumption | rule refl))
next
  case Fill
  then show ?case by - (hypsubst, rule sys_inv_fill; (assumption | rule refl))
next
  case Publish
  then show ?case by - (hypsubst, rule sys_inv_publish; (assumption | rule refl))
next
  case Unwind
  then show ?case by - (rule sys_inv_unwind)
next
  case Drop
  then show ?case by - (hypsubst, rule sys_inv_drop; (assumption | rule refl))
next
  case Consume
  then show ?case by - (rule sys_inv_consume)
qed

lemma sys_inv_reachable: "reachable cfg s \<Longrightarrow> sys_inv cfg s"
  by (induction rule: reachable.induct) (auto intro: sys_inv_init sys_inv_step)

text \<open>Runs in which only the consumers step.\<close>

definition sys_consumes :: "config \<Rightarrow> 'e system \<Rightarrow> 'e system \<Rightarrow> bool" where
  "sys_consumes cfg s s' \<longleftrightarrow> (\<exists>cs P. cons_step cfg (producer_look s) (shutdown_history s) (ring_buffer (producer s))
     (consumer_at s, performed s) (cs, P) \<and> s' = s\<lparr>consumer_at := cs, performed := P\<rparr>)"

end
