(* ===== verification/Consumer_Schedule.thy ===== *)
theory Consumer_Schedule
  imports Consumer_Runs
begin

text \<open>
  A scheduler for the consumers that always loads the newest values; it computes, and drives the
  concrete runs of the witnesses. \<open>latest q x\<close> is what a look at the producer finds in the newest
  values, with the thread's new position.
\<close>

datatype cons_act = DoLook arc | DoGiveUp arc | DoHandle arc | DoCrash arc | DoCrashStart arc | DoCrashWait arc | DoAdvance arc
  | DoPoll arc nat | DoRead arc | DoDropGuard arc

definition newest_of :: "(arc \<Rightarrow> ('e, 'x) consumer_state) \<Rightarrow> arc \<Rightarrow> message" where
  "newest_of cs a = last (c_history (cs a))"

definition look_newest :: "config \<Rightarrow> (sequence \<Rightarrow> 'x \<Rightarrow> sequence \<times> access set \<times> 'x)
    \<Rightarrow> (arc \<Rightarrow> ('e, 'x) consumer_state) \<Rightarrow> arc \<Rightarrow> sequence \<times> access set \<times> 'x" where
  "look_newest cfg latest cs i =
     (case consumers_get_after (waits cfg i) of
        None \<Rightarrow> latest (next_seq (cs i)) (c_seen (cs i))
      | Some get_after \<Rightarrow> (get_after (loaded (newest_of cs)) (next_seq (cs i)),
          acquired (waits cfg i) (newest_of cs), c_seen (cs i)))"

fun cons_perform :: "config \<Rightarrow> (sequence \<Rightarrow> 'x \<Rightarrow> sequence \<times> access set \<times> 'x) \<Rightarrow> sequence list \<Rightarrow> 'e ring_buffer
    \<Rightarrow> cons_act \<Rightarrow> (arc \<Rightarrow> ('e, 'x) consumer_state) \<times> access set \<Rightarrow> (arc \<Rightarrow> ('e, 'x) consumer_state) \<times> access set" where
  "cons_perform cfg latest marks rb (DoLook i) (cs, P) = (let c = cs i; (found, V, x) = look_newest cfg latest cs i in
     if i \<in> set (all_consumers cfg) \<and> \<not> is_poller cfg i \<and> c_phase c = Waiting \<and> \<not> found < next_seq c
     then (cs(i := c\<lparr>c_phase := Handling found, c_seen := x, c_view := c_view c \<union> V\<rparr>), P) else (cs, P))"
| "cons_perform cfg latest marks rb (DoGiveUp i) (cs, P) = (let c = cs i; (found, V, x) = look_newest cfg latest cs i in
     if i \<in> set (all_consumers cfg) \<and> \<not> is_poller cfg i \<and> c_phase c = Waiting \<and> found < next_seq c
       \<and> next_seq c \<in> set marks
     then (cs(i := c\<lparr>c_phase := Ended\<rparr>), P) else (cs, P))"
| "cons_perform cfg latest marks rb (DoHandle i) (cs, P) = (let c = cs i in
     (case c_phase c of Handling found \<Rightarrow>
       if i \<in> set (all_consumers cfg) \<and> \<not> is_poller cfg i \<and> found \<ge> next_seq c
       then (cs(i := c\<lparr>next_seq := i64 (next_seq c + 1), c_view := insert (Rd i (next_seq c)) (c_view c),
           c_log := c_log c @ [(next_seq c, read_at rb (ring_get_ref rb (next_seq c)), found = next_seq c)]\<rparr>),
         insert (Rd i (next_seq c)) P) else (cs, P)
     | _ \<Rightarrow> (cs, P)))"
| "cons_perform cfg latest marks rb (DoCrash i) (cs, P) = (let c = cs i in
     (case c_phase c of Handling found \<Rightarrow>
       if i \<in> set (all_consumers cfg) \<and> \<not> is_poller cfg i \<and> found \<ge> next_seq c
       then (cs(i := c\<lparr>next_seq := i64 (next_seq c + 1), c_view := insert (Rd i (next_seq c)) (c_view c),
           c_log := c_log c @ [(next_seq c, read_at rb (ring_get_ref rb (next_seq c)), found = next_seq c)],
           c_phase := Crashed\<rparr>),
         insert (Rd i (next_seq c)) P) else (cs, P)
     | _ \<Rightarrow> (cs, P)))"
| "cons_perform cfg latest marks rb (DoCrashStart i) (cs, P) = (let c = cs i in
     if i \<in> set (all_consumers cfg) \<and> \<not> is_poller cfg i \<and> c_phase c = Waiting \<and> next_seq c = 0
     then (cs(i := c\<lparr>c_phase := Crashed\<rparr>), P) else (cs, P))"
| "cons_perform cfg latest marks rb (DoCrashWait i) (cs, P) = (let c = cs i; (found, V, x) = look_newest cfg latest cs i in
     if i \<in> set (all_consumers cfg) \<and> \<not> is_poller cfg i \<and> c_phase c = Waiting \<and> found < next_seq c
     then (cs(i := c\<lparr>c_phase := Crashed\<rparr>), P) else (cs, P))"
| "cons_perform cfg latest marks rb (DoAdvance i) (cs, P) = (let c = cs i in
     (case c_phase c of Handling found \<Rightarrow>
       if i \<in> set (all_consumers cfg) \<and> \<not> is_poller cfg i \<and> \<not> found \<ge> next_seq c
       then (cs(i := c\<lparr>c_phase := Waiting, c_history := c_history c @ [(i64 (next_seq c - 1), c_view c)]\<rparr>), P)
       else (cs, P)
     | _ \<Rightarrow> (cs, P)))"
| "cons_perform cfg latest marks rb (DoPoll i limit) (cs, P) = (let c = cs i; (found, V, x) = look_newest cfg latest cs i in
     if i \<in> set (all_consumers cfg) \<and> is_poller cfg i \<and> c_phase c = Waiting \<and> marks \<noteq> [] \<and> next_seq c \<noteq> last marks
       \<and> \<not> found < next_seq c
     then (cs(i := c\<lparr>c_phase := Handling (min found (saturating_add_unsigned (i64 (next_seq c - 1)) limit)),
       c_seen := x, c_view := c_view c \<union> V\<rparr>), P) else (cs, P))"
| "cons_perform cfg latest marks rb (DoRead i) (cs, P) = (let c = cs i in
     (case c_phase c of Handling found \<Rightarrow>
       if i \<in> set (all_consumers cfg) \<and> is_poller cfg i \<and> \<not> next_seq c > found
       then (cs(i := c\<lparr>next_seq := i64 (next_seq c + 1), c_view := insert (Rd i (next_seq c)) (c_view c),
           c_log := c_log c @ [(next_seq c, read_at rb (ring_get_ref rb (next_seq c)), False)]\<rparr>),
         insert (Rd i (next_seq c)) P) else (cs, P)
     | _ \<Rightarrow> (cs, P)))"
| "cons_perform cfg latest marks rb (DoDropGuard i) (cs, P) = (let c = cs i in
     (case c_phase c of Handling found \<Rightarrow>
       if i \<in> set (all_consumers cfg) \<and> is_poller cfg i
       then (cs(i := c\<lparr>c_phase := Waiting, next_seq := i64 (found + 1),
           c_history := c_history c @ [(found, c_view c)]\<rparr>), P) else (cs, P)
     | _ \<Rightarrow> (cs, P)))"

lemma looks_newest:
  assumes "crew_inv cfg good cs P S ev fin" "wf_config cfg gate" "i \<in> set (all_consumers cfg)"
    and "\<And>found V x. waits cfg i = OnProducer \<Longrightarrow> latest (next_seq (cs i)) (c_seen (cs i)) = (found, V, x) \<Longrightarrow>
      src (next_seq (cs i)) (c_seen (cs i)) found V x"
    and "look_newest cfg latest cs i = (found, V, x)"
  shows "looks cfg src cs i found V x"
proof (cases "consumers_get_after (waits cfg i)")
  case None
  then have "waits cfg i = OnProducer" by (cases "waits cfg i") simp_all
  with None assms show ?thesis by (simp add: look_newest_def looks_def)
next
  case (Some g)
  have "may_load cs (waits cfg i) (newest_of cs)"
    using dependents_known(2) [OF assms(2,3)] crew_history_nonempty [OF assms(1)]
    by (auto simp: may_load_def newest_of_def simp del: set_concat)
  with Some assms(5) show ?thesis by (auto simp: look_newest_def looks_def)
qed

lemma cons_perform_step:
  assumes inv: "crew_inv cfg good cs P S ev fin" and wf: "wf_config cfg gate"
    and latest: "\<And>i found V x. i \<in> set (all_consumers cfg) \<Longrightarrow> waits cfg i = OnProducer \<Longrightarrow>
      latest (next_seq (cs i)) (c_seen (cs i)) = (found, V, x) \<Longrightarrow> src (next_seq (cs i)) (c_seen (cs i)) found V x"
  shows "cons_perform cfg latest marks rb a (cs, P) = (cs, P)
    \<or> cons_step cfg src marks rb (cs, P) (cons_perform cfg latest marks rb a (cs, P))"
proof -
  have look: "looks cfg src cs i found V x"
    if "i \<in> set (all_consumers cfg)" "look_newest cfg latest cs i = (found, V, x)" for i found V x
    by (rule looks_newest [where latest = latest, OF inv wf that(1) _ that(2)]) (rule latest [OF that(1)])
  show ?thesis
  proof (cases a)
    case (DoLook i)
    with look [of i] cons_step.Look [OF _ _ refl, of i cfg cs src _ _ _ marks rb P] show ?thesis
      by (cases "look_newest cfg latest cs i") (auto simp: Let_def simp del: set_concat)
  next
    case (DoGiveUp i)
    with look [of i] cons_step.GiveUp [OF _ _ refl, of i cfg cs src _ _ _ marks rb P] show ?thesis
      by (cases "look_newest cfg latest cs i") (auto simp: Let_def simp del: set_concat)
  next
    case (DoHandle i)
    with cons_step.Handle [OF _ _ refl, of i cfg cs _ src marks rb P] show ?thesis
      by (auto simp: Let_def simp del: set_concat split: cons_phase.split)
  next
    case (DoCrash i)
    with cons_step.Crash [OF _ _ refl, of i cfg cs _ src marks rb P] show ?thesis
      by (auto simp: Let_def simp del: set_concat split: cons_phase.split)
  next
    case (DoCrashStart i)
    with cons_step.CrashStart [OF _ _ refl, of i cfg cs src marks rb P] show ?thesis
      by (auto simp: Let_def simp del: set_concat)
  next
    case (DoCrashWait i)
    with look [of i] cons_step.CrashWait [OF _ _ refl, of i cfg cs src _ _ _ marks rb P] show ?thesis
      by (cases "look_newest cfg latest cs i") (auto simp: Let_def simp del: set_concat)
  next
    case (DoAdvance i)
    with cons_step.Advance [OF _ _ refl, of i cfg cs _ src marks rb P] show ?thesis
      by (auto simp: Let_def simp del: set_concat split: cons_phase.split)
  next
    case (DoPoll i limit)
    with look [of i] cons_step.Poll [OF _ _ refl, of i cfg cs "last marks" marks src _ _ _ rb P limit] show ?thesis
      by (cases "look_newest cfg latest cs i") (auto simp: Let_def simp del: set_concat)
  next
    case (DoRead i)
    with cons_step.Read [OF _ _ refl, of i cfg cs _ src marks rb P] show ?thesis
      by (auto simp: Let_def simp del: set_concat split: cons_phase.split)
  next
    case (DoDropGuard i)
    with cons_step.DropGuard [OF _ _ refl, of i cfg cs _ src marks rb P] show ?thesis
      by (auto simp: Let_def simp del: set_concat split: cons_phase.split)
  qed
qed

end
