(* ===== verification/Spmc_Safety.thy ===== *)
theory Spmc_Safety
  imports Spmc_System Consumer_Schedule
begin

text \<open>
  What the invariant of \<open>Spmc_System\<close> gives: ordering of the slot accesses, delivery and stage order of
  a running single-producer disruptor. \<open>perform\<close> extends the scheduler of \<open>Consumer_Schedule\<close> by the
  producer; it drives the concrete runs of the witnesses.
\<close>

section \<open>Concrete runs\<close>

datatype 'e act = DoClaim "('e \<Rightarrow> 'e) list" nat | DoFill | DoPublish | DoUnwind | DoDrop | Consumer cons_act

definition producer_latest :: "'e system \<Rightarrow> sequence \<Rightarrow> unit \<Rightarrow> sequence \<times> access set \<times> unit" where
  "producer_latest s q x = (let m = last (p_history s) in (uni_barrier_get_after (cursor_new (fst m)) q, snd m, ()))"

fun perform :: "config \<Rightarrow> 'e act \<Rightarrow> 'e system \<Rightarrow> 'e system" where
  "perform cfg (DoClaim fs n) s = (let p = producer s; msgs = newest_of (consumer_at s) in
     (case (p_phase s, uni_next_sequences gate_get_after (loaded msgs) n p) of
       (Idle, (Inr upper, p')) \<Rightarrow>
         if int n < 2 ^ 62 \<and> sequence p + int n < 2 ^ 62
         then s\<lparr>producer := p', p_phase := Filling fs (batch_iter_new (sequence p) upper) n,
           p_view := (if sequence_clear_of_consumers p < upper
             then p_view s \<union> acquired (consumer_barrier p) msgs else p_view s)\<rparr>
         else s
     | _ \<Rightarrow> s))"
| "perform cfg DoFill s = (let p = producer s in
     (case p_phase s of Filling (f # fs) it n \<Rightarrow>
       (case batch_iter_next (ring_buffer p) it of (Some slot, it') \<Rightarrow>
         s\<lparr>producer := p\<lparr>ring_buffer := update_at (ring_buffer p) slot f\<rparr>,
           p_phase := Filling fs it' n, p_view := insert (Wr (current it)) (p_view s),
           performed := insert (Wr (current it)) (performed s)\<rparr>
       | _ \<Rightarrow> s)
     | _ \<Rightarrow> s))"
| "perform cfg DoPublish s = (let p = producer s in
     (case p_phase s of Filling [] it n \<Rightarrow>
       s\<lparr>producer := p\<lparr>producer_barrier := uni_barrier_publish (last_sequence it) (producer_barrier p),
           sequence := i64 (sequence p + i64 (int n))\<rparr>,
         p_phase := Idle, p_history := p_history s @ [(last_sequence it, p_view s)],
         published := published s @ map (ring_read (ring_buffer p)) [sequence p..last_sequence it]\<rparr>
     | _ \<Rightarrow> s))"
| "perform cfg DoUnwind s = (case p_phase s of Filling fs it n \<Rightarrow> s\<lparr>p_phase := Idle\<rparr> | _ \<Rightarrow> s)"
| "perform cfg DoDrop s = (let p = producer s in
     (case p_phase s of Idle \<Rightarrow> s\<lparr>producer := p\<lparr>shutdown_at_sequence := sequence p\<rparr>, p_phase := Dropped,
         shutdown_history := shutdown_history s @ [sequence p]\<rparr>
     | _ \<Rightarrow> s))"
| "perform cfg (Consumer a) s =
     (case cons_perform cfg (producer_latest s) (shutdown_history s) (ring_buffer (producer s)) a
        (consumer_at s, performed s) of
       (cs, P) \<Rightarrow> s\<lparr>consumer_at := cs, performed := P\<rparr>)"

lemma reachable_parts:
  assumes "reachable cfg s"
  shows "producer_inv s" "memory_inv s" "room_inv cfg s"
    "wf_config cfg (consumer_barrier (producer s))" "wf_ring (ring_buffer (producer s))"
    "crew_inv cfg (\<lambda>_ _. True) (consumer_at s) (performed s) (seq_of s) (\<lambda>q. published s ! nat q) (p_phase s = Dropped)"
proof -
  note inv = sys_inv_reachable [OF assms]
  show "producer_inv s" "memory_inv s" "room_inv cfg s" "wf_config cfg (consumer_barrier (producer s))"
    using inv by (simp_all add: sys_inv_def)
  then show "wf_ring (ring_buffer (producer s))" by (simp add: producer_inv_def)
  show "crew_inv cfg (\<lambda>_ _. True) (consumer_at s) (performed s) (seq_of s) (\<lambda>q. published s ! nat q) (p_phase s = Dropped)"
    using inv by (simp only: sys_inv_def system_crew_def)
qed

lemma perform_consumes:
  assumes run: "reachable cfg s"
  shows "perform cfg (Consumer a) s = s \<or> sys_consumes cfg s (perform cfg (Consumer a) s)"
proof -
  have "producer_look s (next_seq (consumer_at s i)) (c_seen (consumer_at s i)) found V x"
    if "producer_latest s (next_seq (consumer_at s i)) (c_seen (consumer_at s i)) = (found, V, x)" for i found V x
    using that reachable_parts(2) [OF run]
    by (auto simp: producer_latest_def producer_look_def memory_inv_def Let_def intro!: bexI [of _ "last (p_history s)"])
  note step = cons_perform_step [OF reachable_parts(6,4) [OF run], of "producer_latest s" "producer_look s"
      "shutdown_history s" "ring_buffer (producer s)" a, OF this]
  obtain cs P where cp: "cons_perform cfg (producer_latest s) (shutdown_history s) (ring_buffer (producer s)) a
      (consumer_at s, performed s) = (cs, P)" by fastforce
  have "perform cfg (Consumer a) s = s\<lparr>consumer_at := cs, performed := P\<rparr>" by (simp add: cp)
  with step show ?thesis by (auto simp: cp sys_consumes_def)
qed

lemma sys_consumes_step: "sys_consumes cfg s s' \<Longrightarrow> sys_step cfg s s'"
  unfolding sys_consumes_def by (blast intro: sys_step.Consume)

lemma perform_step:
  assumes run: "reachable cfg s"
  shows "perform cfg a s = s \<or> sys_step cfg s (perform cfg a s)"
proof (cases a)
  case (DoClaim fs n)
  obtain r p' where claim: "uni_next_sequences gate_get_after (loaded (newest_of (consumer_at s))) n (producer s) = (r, p')"
    by fastforce
  have "may_load (consumer_at s) (consumer_barrier (producer s)) (newest_of (consumer_at s))"
    using dependents_known(1) [OF reachable_parts(4) [OF run]] crew_history_nonempty [OF reachable_parts(6) [OF run]]
    by (auto simp: may_load_def newest_of_def simp del: set_concat)
  with DoClaim claim sys_step.Claim [OF _ refl _ _ this] show ?thesis
    by (auto simp: Let_def split: prod_phase.split sum.split)
next
  case DoFill
  then show ?thesis
    by (auto simp: Let_def intro!: sys_step.Fill split: prod_phase.split list.split option.split prod.split)
next
  case DoPublish
  then show ?thesis
    by (auto simp: Let_def simp del: i64_add_right intro!: sys_step.Publish split: prod_phase.split list.split)
next
  case DoUnwind
  then show ?thesis by (auto intro!: sys_step.Unwind split: prod_phase.split)
next
  case DoDrop
  then show ?thesis
    by (auto simp: Let_def intro!: sys_step.Drop split: prod_phase.split)
next
  case (Consumer b)
  with perform_consumes [OF run, of b] sys_consumes_step show ?thesis by blast
qed

lemma reachable_performs:
  assumes "fresh p" "wf_config cfg (consumer_barrier p)"
  shows "reachable cfg (fold (perform cfg) acts (sys_init p))"
proof (induction acts rule: rev_induct)
  case Nil
  with assms show ?case by (simp add: reachable.Start)
next
  case (snoc a acts)
  then show ?case using perform_step [OF snoc, of a] reachable.Step [OF snoc] by auto
qed

text \<open>Two stages of one consumer each over two slots; \<open>polls\<close> are pollers.\<close>

definition ex_cfg :: "arc list \<Rightarrow> config" where
  "ex_cfg polls = \<lparr>stages = [[0], [1]], waits = (\<lambda>i. if i = 0 then OnProducer else OnConsumer (UniConsumerBarrier 0)),
     is_poller = (\<lambda>i. i \<in> set polls)\<rparr>"

definition ex_ring2 :: "int ring_buffer" where
  "ex_ring2 = \<lparr>slots = [0, 0], index_mask = 1\<rparr>"

definition ex_producer :: "(int, dependent) uni_producer" where
  "ex_producer = uni_producer_new NONE ex_ring2 uni_producer_barrier_new [] (OnConsumer (UniConsumerBarrier 1))"

definition ex_run :: "arc list \<Rightarrow> int act list \<Rightarrow> int system" where
  "ex_run polls acts = fold (perform (ex_cfg polls)) acts (sys_init ex_producer)"

text \<open>Two events, handled by both consumers; two events, of which a poller takes the second only.\<close>

definition ex_lap :: "int act list" where
  "ex_lap = [DoClaim [\<lambda>_. 7, \<lambda>_. 8] 2, DoFill, DoFill, DoPublish]
     @ map Consumer [DoLook 0, DoHandle 0, DoHandle 0, DoAdvance 0, DoLook 1, DoHandle 1, DoHandle 1, DoAdvance 1]"

definition ex_polls :: "int act list" where
  "ex_polls = [DoClaim [\<lambda>_. 7, \<lambda>_. 8] 2, DoFill, DoFill, DoPublish]
     @ map Consumer [DoLook 0, DoHandle 0, DoHandle 0, DoAdvance 0, DoPoll 1 1, DoDropGuard 1, DoPoll 1 5, DoRead 1]"

lemma wf_ex_cfg: "wf_config (ex_cfg polls) (consumer_barrier ex_producer)"
  by (simp add: wf_config_def ex_cfg_def ex_producer_def uni_producer_new_def nth_Cons' less_Suc_eq)

lemma fresh_ex_producer: "fresh ex_producer"
proof -
  have "is_power_of_two (Suc (Suc 0))" unfolding is_power_of_two_iff by (intro exI [of _ 1]) simp
  then have "wf_ring ex_ring2" by (simp add: wf_ring_def ex_ring2_def)
  then show ?thesis
    using uni_inv_new [of ex_ring2 NONE "[]" "OnConsumer (UniConsumerBarrier 1)"]
      i64_id [of 1] by (simp add: fresh_def ex_producer_def) (simp add: uni_producer_new_def ex_ring2_def in_i64_iff)
qed

lemma ex_run_reachable: "reachable (ex_cfg polls) (ex_run polls acts)"
  unfolding ex_run_def by (rule reachable_performs [OF fresh_ex_producer wf_ex_cfg])


section \<open>Safety\<close>

lemma producer_write_ordered:
  assumes run: "reachable cfg s" and phase: "p_phase s = Filling fs it n"
    and next_item: "batch_iter_next (ring_buffer (producer s)) it = (Some slot, it')"
  shows "slot_accesses (ring_buffer (producer s)) (performed s) slot \<subseteq> p_view s"
proof
  fix x assume x: "x \<in> slot_accesses (ring_buffer (producer s)) (performed s) slot"
  note p = reachable_parts(1) [OF run] and m = reachable_parts(2) [OF run] and room = reachable_parts(3) [OF run]
    and crew = reachable_parts(6) [OF run]
  let ?w = "current it"
  have w: "seq_of s \<le> ?w" "?w \<le> last_sequence it" "last_sequence it \<le> clear_of s"
    and slot: "slot = ring_get (ring_buffer (producer s)) ?w"
    using p phase next_item by (auto simp: producer_inv_def batch_iter_next_def split: if_splits)
  show "x \<in> p_view s"
  proof (cases x)
    case (Wr q)
    with x m show ?thesis by (auto simp: slot_accesses_def memory_inv_def)
  next
    case (Rd i q)
    with x have "Rd i q \<in> performed s" by (simp add: slot_accesses_def)
    note i = crew_inv_reads [OF crew this]
    then have "q < seq_of s" using crew_bounds(2) [OF crew, of i] by simp
    then have "q \<le> ?w - size_of s"
      using x Rd slot w by (intro lap_below [OF reachable_parts(5) [OF run]]) (auto simp: slot_accesses_def ring_get_ref_eq)
    then have "x \<in> before (performed s) (set (all_consumers cfg)) (clear_of s - size_of s)"
      using x Rd i w by (auto simp: slot_accesses_def before_def)
    with room show ?thesis by (auto simp: room_inv_def)
  qed
qed

lemma claim_below_lap:
  assumes run: "reachable cfg s" and i: "i \<in> set (all_consumers cfg)"
  shows "clear_of s < next_seq (consumer_at s i) + size_of s"
  using reachable_parts(3) [OF run] crew_bounds(3) [OF reachable_parts(6) [OF run] i] i
  unfolding room_inv_def by force

lemma consumer_read_ordered:
  assumes run: "reachable cfg s" and i: "i \<in> set (all_consumers cfg)"
    and phase: "c_phase (consumer_at s i) = Handling found" and more: "next_seq (consumer_at s i) \<le> found"
  shows "slot_writes (ring_buffer (producer s)) (performed s)
      (ring_get_ref (ring_buffer (producer s)) (next_seq (consumer_at s i))) \<subseteq> c_view (consumer_at s i)"
proof
  let ?c = "consumer_at s i"
  fix x assume x: "x \<in> slot_writes (ring_buffer (producer s)) (performed s)
      (ring_get_ref (ring_buffer (producer s)) (next_seq ?c))"
  note p = reachable_parts(1) [OF run] and m = reachable_parts(2) [OF run]
  from x obtain q where q: "x = Wr q" "Wr q \<in> performed s"
    "ring_get (ring_buffer (producer s)) (next_seq ?c) = ring_get (ring_buffer (producer s)) q"
    by (auto simp: slot_writes_def slot_accesses_def ring_get_ref_eq split: access.splits)
  have "q \<le> clear_of s" using q(2) m p by (force simp: memory_inv_def producer_inv_def)
  with claim_below_lap [OF run i] have "q < next_seq ?c + size_of s" by simp
  then have "q \<le> next_seq ?c" using lap_below [OF reachable_parts(5) [OF run] q(3)] by (cases "next_seq ?c < q") auto
  with crew_read_ordered [OF reachable_parts(6) [OF run] i phase more q(2)] q(1) show "x \<in> c_view ?c" by simp
qed

text \<open>
  C2. There are no data races, on any interleaving and with any stale loads: when the producer is
  about to write a slot, every access ever made to that slot, its own writes and the reads of all
  threads and pollers, happens before the write; when a thread or a poller is about to read a slot,
  every write ever made to it happens before the read.
\<close>

theorem slot_accesses_never_race:
  assumes "reachable cfg s"
  shows "(\<forall>f fs it n slot it'. p_phase s = Filling (f # fs) it n
        \<and> batch_iter_next (ring_buffer (producer s)) it = (Some slot, it')
        \<longrightarrow> slot_accesses (ring_buffer (producer s)) (performed s) slot \<subseteq> p_view s)
    \<and> (\<forall>i\<in>set (all_consumers cfg). \<forall>found. c_phase (consumer_at s i) = Handling found
        \<and> next_seq (consumer_at s i) \<le> found \<longrightarrow>
        slot_writes (ring_buffer (producer s)) (performed s)
          (ring_get_ref (ring_buffer (producer s)) (next_seq (consumer_at s i))) \<subseteq> c_view (consumer_at s i))"
  using producer_write_ordered [OF assms] consumer_read_ordered [OF assms] by blast

theorem slot_accesses_never_race_witness:
  "let s = ex_run [] (ex_lap @ [DoClaim [\<lambda>_. 9] 1]) in
     slot_accesses (ring_buffer (producer s)) (performed s) 0 = {Wr 0, Rd 0 0, Rd 1 0}
     \<and> slot_accesses (ring_buffer (producer s)) (performed s) 0 \<subseteq> p_view s"
  unfolding Let_def
proof
  let ?s = "ex_run [] (ex_lap @ [DoClaim [\<lambda>_. 9] 1])"
  show "slot_accesses (ring_buffer (producer ?s)) (performed ?s) 0 = {Wr 0, Rd 0 0, Rd 1 0}" by code_simp
  have "case p_phase ?s of Filling (f # fs) it n \<Rightarrow> fst (batch_iter_next (ring_buffer (producer ?s)) it) = Some 0
      | _ \<Rightarrow> False" by code_simp
  then obtain f fs it n it' where "p_phase ?s = Filling (f # fs) it n"
    "batch_iter_next (ring_buffer (producer ?s)) it = (Some 0, it')"
    by (auto split: prod_phase.splits list.splits simp: prod_eq_iff)
  with slot_accesses_never_race [OF ex_run_reachable, of "[]" "ex_lap @ [DoClaim [\<lambda>_. 9] 1]"]
  show "slot_accesses (ring_buffer (producer ?s)) (performed ?s) 0 \<subseteq> p_view ?s" by blast
qed

text \<open>
  The producer is never more than a lap ahead of any consumer, even where it has claimed slots
  without a look at the consumers, and no consumer is ahead of what is published.
\<close>

theorem producer_within_a_lap:
  assumes "reachable cfg s" "i \<in> set (all_consumers cfg)"
  shows "claimed_upto (p_phase s) (seq_of s) < next_seq (consumer_at s i) + size_of s
    \<and> next_seq (consumer_at s i) \<le> seq_of s"
  using claim_below_lap [OF assms] crew_bounds(2) [OF reachable_parts(6) [OF assms(1)] assms(2)]
    reachable_parts(1) [OF assms(1)] by (simp add: producer_inv_def)

theorem producer_within_a_lap_witness:
  "claimed_upto (p_phase (ex_run [] ex_lap)) (seq_of (ex_run [] ex_lap)) = 1
   \<and> claimed_upto (p_phase (ex_run [] ex_lap)) (seq_of (ex_run [] ex_lap))
       < next_seq (consumer_at (ex_run [] ex_lap) 0) + size_of (ex_run [] ex_lap)"
proof
  show "claimed_upto (p_phase (ex_run [] ex_lap)) (seq_of (ex_run [] ex_lap)) = 1" by code_simp
  have "0 \<in> set (all_consumers (ex_cfg []))" by (simp add: ex_cfg_def)
  with producer_within_a_lap [OF ex_run_reachable, of 0 "[]" ex_lap]
  show "claimed_upto (p_phase (ex_run [] ex_lap)) (seq_of (ex_run [] ex_lap))
      < next_seq (consumer_at (ex_run [] ex_lap) 0) + size_of (ex_run [] ex_lap)" by blast
qed

text \<open>
  C4. Every thread and every poller is given published events only, unchanged and in order, none
  twice; and a thread's handler has been called with exactly the first of them, with consecutive
  sequences from 0 on: none skipped, none overwritten.
\<close>

theorem consumers_deliver_in_order:
  assumes "reachable cfg s" "i \<in> set (all_consumers cfg)"
  shows "sorted_wrt (<) (map fst (c_log (consumer_at s i)))
    \<and> (\<forall>(q, e, b)\<in>set (c_log (consumer_at s i)). 0 \<le> q \<and> nat q < length (published s) \<and> e = published s ! nat q)
    \<and> (\<not> is_poller cfg i \<longrightarrow> map (\<lambda>(q, e, b). (q, e)) (c_log (consumer_at s i)) =
        map (\<lambda>q. (q, published s ! nat q)) [0..int (length (c_log (consumer_at s i))) - 1])"
proof -
  let ?c = "consumer_at s i"
  note crew = reachable_parts(6) [OF assms(1)]
  have S: "length (published s) = nat (seq_of s)" using reachable_parts(1) [OF assms(1)] by (simp add: producer_inv_def)
  have "\<forall>(q, e, b)\<in>set (c_log ?c). 0 \<le> q \<and> nat q < length (published s) \<and> e = published s ! nat q"
    using crew_delivery(2) [OF crew assms(2)] S by fastforce
  moreover have "map (\<lambda>(q, e, b). (q, e)) (c_log ?c) = map (\<lambda>q. (q, published s ! nat q)) [0..int (length (c_log ?c)) - 1]"
    if "\<not> is_poller cfg i"
  proof -
    have "length (c_log ?c) = nat (next_seq ?c)"
      using arg_cong [OF crew_delivery(3) [OF crew assms(2) that], of length] by simp
    with crew_events [OF crew assms(2) that] crew_bounds(1) [OF crew assms(2)] show ?thesis by simp
  qed
  ultimately show ?thesis using crew_delivery(1) [OF crew assms(2)] by blast
qed

theorem consumers_deliver_in_order_witness:
  "c_log (consumer_at (ex_run [1] ex_polls) 1) = [(1, 8, False)] \<and> published (ex_run [1] ex_polls) ! nat 1 = 8
   \<and> length (c_log (consumer_at (ex_run [1] ex_polls) 0)) = 2
   \<and> map (\<lambda>(q, e, b). (q, e)) (c_log (consumer_at (ex_run [1] ex_polls) 0)) =
       map (\<lambda>q. (q, published (ex_run [1] ex_polls) ! nat q)) [0..1]"
proof (intro conjI)
  show polled: "c_log (consumer_at (ex_run [1] ex_polls) 1) = [(1, 8, False)]" by code_simp
  have all: "0 \<in> set (all_consumers (ex_cfg [1]))" "1 \<in> set (all_consumers (ex_cfg [1]))" "\<not> is_poller (ex_cfg [1]) 0"
    by (simp_all add: ex_cfg_def)
  show "published (ex_run [1] ex_polls) ! nat 1 = 8"
    using consumers_deliver_in_order [OF ex_run_reachable all(2), of ex_polls] by (simp add: polled [unfolded One_nat_def])
  show log: "length (c_log (consumer_at (ex_run [1] ex_polls) 0)) = 2" by code_simp
  show "map (\<lambda>(q, e, b). (q, e)) (c_log (consumer_at (ex_run [1] ex_polls) 0)) =
      map (\<lambda>q. (q, published (ex_run [1] ex_polls) ! nat q)) [0..1]"
    using consumers_deliver_in_order [OF ex_run_reachable all(1), of ex_polls] all(3) by (simp add: log [unfolded One_nat_def])
qed

text \<open>
  C22. A later stage reads an event only after all of every earlier stage are finished with it: each
  has moved its cursor there, and if it read the event, which a thread always has, that read happens
  before.
\<close>

theorem stages_run_in_order:
  assumes run: "reachable cfg s" and j: "j < k" "k < length (stages cfg)" "g \<in> set (stages cfg ! j)"
    and i: "i \<in> set (stages cfg ! k)" and read: "Rd i q \<in> performed s"
  shows "q \<le> done_upto (consumer_at s g) \<and> (\<not> is_poller cfg g \<longrightarrow> Rd g q \<in> performed s)
    \<and> (Rd g q \<in> performed s \<longrightarrow> Rd g q \<in> c_view (consumer_at s i))"
  using crew_stages [OF reachable_parts(6,4) [OF run] j i read] by blast

theorem stages_run_in_order_witness:
  "Rd 1 1 \<in> performed (ex_run [] ex_lap) \<and> Rd 0 1 \<in> c_view (consumer_at (ex_run [] ex_lap) 1)"
proof
  show read: "Rd 1 1 \<in> performed (ex_run [] ex_lap)" by code_simp
  have "0 < Suc 0" "Suc 0 < length (stages (ex_cfg []))" "0 \<in> set (stages (ex_cfg []) ! 0)"
    "1 \<in> set (stages (ex_cfg []) ! Suc 0)" "\<not> is_poller (ex_cfg []) 0"
    by (simp_all add: ex_cfg_def)
  with stages_run_in_order [OF ex_run_reachable this(1-4) read]
  show "Rd 0 1 \<in> c_view (consumer_at (ex_run [] ex_lap) 1)" by blast
qed

end
