(* ===== verification/Spmc_Shutdown.thy ===== *)
theory Spmc_Shutdown
  imports Spmc_Safety
begin

text \<open>
  The end of a running single-producer disruptor (\<open>Drop for UniProducer\<close> in \<open>src/producer/uni.rs\<close>,
  the exit of \<open>wait_for_events\<close> in \<open>src/consumer/managed.rs\<close>). After the shutdown mark is stored only
  consumers step; \<open>drop_bound\<close> bounds the steps of threads, and as long as one of them has not ended
  that no poller and no panic holds up, another step is possible. So the join of the consumer handles
  returns, with everything handled. A look that finds neither events nor the mark is not a step: the
  bound is on the steps that do something, and a thread takes them because a store becomes visible to
  later loads eventually. A poller moves only when its client polls: the runs are \<open>thread_run\<close>s, in which
  pollers may poll, or not, at any time.
\<close>

section \<open>Catching up\<close>

lemma sys_consumes_advances:
  "(\<exists>s'. sys_consumes cfg s s' \<and> thread_advances cfg (consumer_at s) (consumer_at s')) \<longleftrightarrow>
   (\<exists>cs P. cons_step cfg (producer_look s) (shutdown_history s) (ring_buffer (producer s))
      (consumer_at s, performed s) (cs, P) \<and> thread_advances cfg (consumer_at s) cs)"
  unfolding sys_consumes_def by (auto 0 3)

lemma sys_consumes_run:
  assumes run: "reachable cfg s" and steps: "thread_run cfg consumer_at (sys_consumes cfg) n s s'"
  shows "reachable cfg s' \<and> (\<exists>cs P. s' = s\<lparr>consumer_at := cs, performed := P\<rparr>)
    \<and> n + drop_bound cfg (seq_of s) (consumer_at s') \<le> drop_bound cfg (seq_of s) (consumer_at s)"
  using steps run
proof (induction rule: thread_run.induct)
  case (Start s)
  then show ?case by (auto intro!: exI [of _ "consumer_at s"] exI [of _ "performed s"])
next
  case (Step n s u s')
  from Step.IH [OF Step.prems] obtain cs P where IH: "reachable cfg u" "u = s\<lparr>consumer_at := cs, performed := P\<rparr>"
    "n + drop_bound cfg (seq_of s) (consumer_at u) \<le> drop_bound cfg (seq_of s) (consumer_at s)" by blast
  from Step.hyps(2) obtain cs' P' where step: "cons_step cfg (producer_look u) (shutdown_history u) (ring_buffer (producer u))
      (consumer_at u, performed u) (cs', P')" "s' = u\<lparr>consumer_at := cs', performed := P'\<rparr>"
    unfolding sys_consumes_def by blast
  have "producer_inv u \<and> memory_inv u" using reachable_parts(1,2) [OF IH(1)] by simp
  from spmc.crew_step_bound [OF step(1) reachable_parts(6) [OF IH(1)] this] IH(2,3)
  have "(if thread_moves cfg (consumer_at u) cs' then Suc n else n) + drop_bound cfg (seq_of s) cs'
    \<le> drop_bound cfg (seq_of s) (consumer_at s)" by simp
  moreover have "reachable cfg s'" using reachable.Step [OF IH(1) sys_step.Consume [OF step(1)]] step(2) by simp
  moreover have "s' = s\<lparr>consumer_at := cs', performed := P'\<rparr>" using step(2) IH(2) by simp
  ultimately show ?case by auto
qed

text \<open>
  C21. No published event gets stuck: whenever the producer pauses, in any state it may be in, the
  consumer threads can take at most \<open>drop_bound\<close> steps, however the pollers move in between. Where no thread
  can take another but a panic, every thread has handled everything that was published, in order, unless it has
  panicked itself, a thread of an earlier stage has, or a poller of an earlier stage has not been polled to the
  end of what is published.
\<close>

theorem consumers_catch_up:
  assumes run: "reachable cfg s" and steps: "thread_run cfg consumer_at (sys_consumes cfg) n s s'"
  shows "n \<le> drop_bound cfg (seq_of s) (consumer_at s)
    \<and> ((\<nexists>s''. sys_consumes cfg s' s'' \<and> thread_advances cfg (consumer_at s') (consumer_at s'')) \<longrightarrow>
    (\<forall>j < length (stages cfg). \<forall>i\<in>set (stages cfg ! j).
      \<not> is_poller cfg i \<and> unobstructed cfg (seq_of s) (consumer_at s') j \<and> c_phase (consumer_at s' i) \<noteq> Crashed \<longrightarrow>
      map (\<lambda>(q, e, b). (q, e)) (c_log (consumer_at s' i)) = map (\<lambda>q. (q, published s ! nat q)) [0..seq_of s - 1]))"
proof -
  from sys_consumes_run [OF assms] obtain cs P where s': "reachable cfg s'" "s' = s\<lparr>consumer_at := cs, performed := P\<rparr>"
    "n + drop_bound cfg (seq_of s) (consumer_at s') \<le> drop_bound cfg (seq_of s) (consumer_at s)" by blast
  note parts = reachable_parts [OF s'(1)]
  have "producer_inv s' \<and> memory_inv s'" using parts(1,2) by simp
  moreover have "\<forall>i\<in>set (all_consumers cfg). clear_of s' - size_of s' \<le> done_upto (consumer_at s' i)"
    using parts(3) unfolding room_inv_def by blast
  ultimately have "map (\<lambda>(q, e, b). (q, e)) (c_log (consumer_at s' i)) = map (\<lambda>q. (q, published s' ! nat q)) [0..seq_of s' - 1]"
    if "\<nexists>s''. sys_consumes cfg s' s'' \<and> thread_advances cfg (consumer_at s') (consumer_at s'')"
      "j < length (stages cfg)" "i \<in> set (stages cfg ! j)" "\<not> is_poller cfg i"
      "unobstructed cfg (seq_of s') (consumer_at s') j" "c_phase (consumer_at s' i) \<noteq> Crashed" for i j
    using spmc.stuck_crew_caught_up(1) [OF parts(6,4) _ _ _ that(2-6)] that(1) unfolding sys_consumes_advances by blast
  with s'(2,3) show ?thesis by simp
qed

theorem consumers_catch_up_witness:
  "let s = ex_run [] (take 4 ex_lap); s' = ex_run [] (take 6 ex_lap) in
     thread_run (ex_cfg []) consumer_at (sys_consumes (ex_cfg [])) 2 s s' \<and> 2 \<le> drop_bound (ex_cfg []) (seq_of s) (consumer_at s)"
proof -
  let ?s = "ex_run [] (take 4 ex_lap)" and ?t = "perform (ex_cfg []) (Consumer (DoLook 0))"
    and ?u = "perform (ex_cfg []) (Consumer (DoHandle 0))"
  have run: "?u (?t ?s) = ex_run [] (take 6 ex_lap)" and mid: "?t ?s = ex_run [] (take 5 ex_lap)"
    by (simp_all add: ex_run_def ex_lap_def take_Cons' del: perform.simps)
  have "c_phase (consumer_at (?t ?s) 0) \<noteq> c_phase (consumer_at ?s 0)"
    "next_seq (consumer_at (?u (?t ?s)) 0) \<noteq> next_seq (consumer_at (?t ?s) 0)" by code_simp+
  moreover have "0 \<in> set (threads (ex_cfg []))" by (simp add: threads_def ex_cfg_def)
  ultimately have moves: "thread_moves (ex_cfg []) (consumer_at ?s) (consumer_at (?t ?s))"
    "thread_moves (ex_cfg []) (consumer_at (?t ?s)) (consumer_at (?u (?t ?s)))" unfolding thread_moves_def by metis+
  then have "?t ?s \<noteq> ?s" "?u (?t ?s) \<noteq> ?t ?s" unfolding thread_moves_def by metis+
  moreover have "reachable (ex_cfg []) (?t ?s)" unfolding mid by (rule ex_run_reachable)
  ultimately have "sys_consumes (ex_cfg []) ?s (?t ?s)" "sys_consumes (ex_cfg []) (?t ?s) (?u (?t ?s))"
    using perform_consumes [of "ex_cfg []" ?s "DoLook 0"] ex_run_reachable [of "[]" "take 4 ex_lap"]
      perform_consumes [of "ex_cfg []" "?t ?s" "DoHandle 0"] by blast+
  with moves have steps: "thread_run (ex_cfg []) consumer_at (sys_consumes (ex_cfg [])) 2 ?s (ex_run [] (take 6 ex_lap))"
    unfolding run numeral_2_eq_2 by (blast intro: thread_run.Start thread_run_Suc)
  from consumers_catch_up [OF ex_run_reachable steps] steps show ?thesis unfolding Let_def by blast
qed

section \<open>After the drop\<close>

lemma step_after_drop:
  assumes run: "reachable cfg s" and dropped: "p_phase s = Dropped" and step: "sys_step cfg s s'"
    and bound: "n + drop_bound cfg (seq_of s) (consumer_at s) \<le> B"
  shows "p_phase s' = Dropped \<and> published s' = published s \<and> seq_of s' = seq_of s
    \<and> (if thread_moves cfg (consumer_at s) (consumer_at s') then Suc n else n)
      + drop_bound cfg (seq_of s) (consumer_at s') \<le> B"
  using step
proof cases
  case (Consume cs P)
  have "producer_inv s \<and> memory_inv s" using reachable_parts(1,2) [OF run] by simp
  from spmc.crew_step_bound [OF Consume(2) reachable_parts(6) [OF run] this bound]
  show ?thesis using Consume dropped by simp
qed (use dropped in auto)

text \<open>
  A consumer thread ends only after the producer was dropped, and only once its handler has been
  called with everything that was ever published.
\<close>

theorem ended_consumer_missed_nothing:
  assumes run: "reachable cfg s" and i: "i \<in> set (all_consumers cfg)" "\<not> is_poller cfg i"
    and ended: "c_phase (consumer_at s i) = Ended"
  shows "p_phase s = Dropped \<and> map (\<lambda>(q, e, b). e) (c_log (consumer_at s i)) = published s"
proof -
  let ?log = "c_log (consumer_at s i)"
  note crew = reachable_parts(6) [OF run]
  note e = crew_ended [OF crew i(1) ended]
  have S: "length (published s) = nat (seq_of s)" "0 \<le> seq_of s"
    using reachable_parts(1) [OF run] by (auto simp: producer_inv_def)
  have "map (\<lambda>(q, e, b). e) ?log = map snd (map (\<lambda>(q, e, b). (q, e)) ?log)" by (simp add: comp_def split_beta)
  also have "\<dots> = map (\<lambda>q. published s ! nat q) [0..seq_of s - 1]"
    by (simp add: crew_events [OF crew i] e(2) comp_def)
  also have "\<dots> = published s" using S by (intro nth_equalityI) auto
  finally show ?thesis using e(1) by simp
qed

theorem ended_consumer_missed_nothing_witness:
  "c_phase (consumer_at (ex_run [] (ex_lap @ [DoDrop, Consumer (DoGiveUp 0)])) 0) = Ended
   \<and> map (\<lambda>(q, e, b). e) (c_log (consumer_at (ex_run [] (ex_lap @ [DoDrop, Consumer (DoGiveUp 0)])) 0))
     = published (ex_run [] (ex_lap @ [DoDrop, Consumer (DoGiveUp 0)]))"
proof
  show ended: "c_phase (consumer_at (ex_run [] (ex_lap @ [DoDrop, Consumer (DoGiveUp 0)])) 0) = Ended" by code_simp
  have "0 \<in> set (all_consumers (ex_cfg []))" "\<not> is_poller (ex_cfg []) 0" by (simp_all add: ex_cfg_def)
  from ended_consumer_missed_nothing [OF ex_run_reachable this ended]
  show "map (\<lambda>(q, e, b). e) (c_log (consumer_at (ex_run [] (ex_lap @ [DoDrop, Consumer (DoGiveUp 0)])) 0))
     = published (ex_run [] (ex_lap @ [DoDrop, Consumer (DoGiveUp 0)]))" by blast
qed

text \<open>
  C11. Dropping the producer, also while it unwinds from a panic of a closure, shuts the disruptor
  down: from then on the threads take at most \<open>drop_bound\<close> steps in any run, whatever the scheduler, the memory and
  the clients that poll do. Where no thread can take another but a panic, and no poller that was not polled to the
  end stands before a thread, the join of the consumer threads returns. If no thread has panicked, all have
  then ended with every published event handled; otherwise the join reaches a panicked thread and panics
  itself, it never waits for a thread that is stuck behind that one. A poller that stands before a thread and is not
  polled to the end keeps the join from returning: it waits, unless it meets a panicked thread.
\<close>

theorem drop_ends_every_consumer:
  assumes run: "reachable cfg s" and dropped: "p_phase s = Dropped"
    and steps: "thread_run cfg consumer_at (sys_step cfg) n s s'"
  shows "n \<le> drop_bound cfg (seq_of s) (consumer_at s)
    \<and> ((\<nexists>s''. sys_step cfg s' s'' \<and> thread_advances cfg (consumer_at s') (consumer_at s'')) \<longrightarrow>
    (let phase = (\<lambda>i. c_phase (consumer_at s' i)); join = join_threads phase (threads cfg) in
     if poller_in_the_way cfg (seq_of s) (consumer_at s')
     then join \<noteq> Some (Inr ()) \<and> ((\<forall>i\<in>set (threads cfg). phase i \<noteq> Crashed) \<longrightarrow> join = None)
     else if \<exists>i\<in>set (threads cfg). phase i = Crashed
     then join = Some (Inl (Panic ''Consumer should not panic.''))
     else join = Some (Inr ()) \<and> (\<forall>i\<in>set (threads cfg). phase i = Ended
       \<and> map (\<lambda>(q, e, b). e) (c_log (consumer_at s' i)) = published s)))" (is "_ \<and> (_ \<longrightarrow> ?outcome)")
proof -
  have after: "reachable cfg s' \<and> p_phase s' = Dropped \<and> published s' = published s \<and> seq_of s' = seq_of s
      \<and> n + drop_bound cfg (seq_of s) (consumer_at s') \<le> drop_bound cfg (seq_of s) (consumer_at s)"
    using steps run dropped
  proof (induction rule: thread_run.induct)
    case (Step n s u s')
    from Step.IH [OF Step.prems] have IH: "reachable cfg u" "p_phase u = Dropped" "published u = published s" "seq_of u = seq_of s"
      "n + drop_bound cfg (seq_of u) (consumer_at u) \<le> drop_bound cfg (seq_of s) (consumer_at s)" by auto
    from step_after_drop [OF IH(1,2) Step.hyps(2) IH(5)] reachable.Step [OF IH(1) Step.hyps(2)] IH(3,4) show ?case by simp
  qed simp
  then have s': "reachable cfg s'" by blast
  note parts = reachable_parts [OF s']
  have lag: "\<forall>i\<in>set (all_consumers cfg). clear_of s' - size_of s' \<le> done_upto (consumer_at s' i)"
    using parts(3) unfolding room_inv_def by blast
  have ok: "producer_inv s' \<and> memory_inv s'" and gone: "p_phase s' = Dropped" and same: "seq_of s' = seq_of s"
    using after parts by simp_all
  have bound: "n \<le> drop_bound cfg (seq_of s) (consumer_at s)" using after by linarith
  show ?thesis
  proof (intro conjI impI, rule bound)
    assume "\<nexists>s''. sys_step cfg s' s'' \<and> thread_advances cfg (consumer_at s') (consumer_at s'')"
    then have stuck: "\<nexists>cs P. cons_step cfg (producer_look s') (shutdown_history s') (ring_buffer (producer s'))
        (consumer_at s', performed s') (cs, P) \<and> thread_advances cfg (consumer_at s') cs"
      using sys_step.Consume [of cfg s'] by fastforce
    note outcome = spmc.stuck_crew_outcome [OF parts(6,4) ok gone lag stuck]
    have "map (\<lambda>(q, e, b). e) (c_log (consumer_at s' i)) = published s"
      if "i \<in> set (threads cfg)" "c_phase (consumer_at s' i) = Ended" for i
      using ended_consumer_missed_nothing [OF s' _ _ that(2)] that(1) after unfolding threads_iff by simp
    with outcome show ?outcome unfolding same Let_def by auto
  qed
qed

lemma stopped_consumer_stays:
  assumes "sys_step cfg s s'" "c_phase (consumer_at s i) = Crashed \<or> c_phase (consumer_at s i) = Ended"
  shows "consumer_at s' i = consumer_at s i"
  using assms(1)
proof cases
  case (Consume cs P)
  then show ?thesis using stopped_stays [OF Consume(2) assms(2)] by simp
qed simp_all

lemma ex_run_step:
  "ex_run polls (acts @ [a]) \<noteq> ex_run polls acts \<Longrightarrow>
   sys_step (ex_cfg polls) (ex_run polls acts) (ex_run polls (acts @ [a]))"
  using perform_step [OF ex_run_reachable [of polls acts], of a] by (simp add: ex_run_def)

text \<open>The last closure panics after its first write, and the producer is dropped.\<close>

definition ex_panicked :: "int act list" where
  "ex_panicked = ex_lap @ [DoClaim [\<lambda>_. 9, \<lambda>_. 9] 2, DoFill, DoUnwind, DoDrop]"

text \<open>A thread behind a poller that is never polled.\<close>

definition ex_idle :: "int act list" where
  "ex_idle = [DoClaim [\<lambda>_. 7, \<lambda>_. 8] 2, DoFill, DoFill, DoPublish, DoDrop]"

lemma ex_idle_stuck:
  "\<nexists>s'. sys_step (ex_cfg [0]) (ex_run [0] ex_idle) s' \<and> thread_advances (ex_cfg [0]) (consumer_at (ex_run [0] ex_idle)) (consumer_at s')"
proof clarify
  fix s'
  let ?s = "ex_run [0] ex_idle" and ?cfg = "ex_cfg [0]"
  let ?cs = "consumer_at ?s"
  assume step: "sys_step ?cfg ?s s'" and "thread_advances ?cfg ?cs (consumer_at s')"
  then have moved: "consumer_at s' 1 \<noteq> ?cs 1" "c_phase (consumer_at s' 1) \<noteq> Crashed"
    by (auto simp: thread_advances_def threads_def ex_cfg_def split: if_splits)
  have at: "c_history (?cs 0) = [(-1, {})]" "next_seq (?cs 1) = 0" "c_phase (?cs 1) = Waiting"
    "shutdown_history ?s = [-1, 2]" by code_simp+
  have thread: "\<not> is_poller ?cfg 1" by (simp add: ex_cfg_def)
  have found: "found < 0" if "looks ?cfg src ?cs 1 found V x" for src found V x
    using that at by (auto simp: looks_later ex_cfg_def may_load_def gate_get_after_def loaded_def uni_consumer_get_after_def)
  show False
    using step
  proof cases
    case (Consume cs P)
    from Consume(2) show False
    proof (cases rule: cons_step.cases)
      case (Look i c f V x)
      then have "i = 1" using moved Consume(1) by (auto split: if_splits)
      with Look found at show False by auto
    next
      case (GiveUp i c f V x)
      then have "i = 1" using moved Consume(1) by (auto split: if_splits)
      with GiveUp at show False by auto
    qed (use moved at thread Consume(1) in \<open>auto split: if_splits\<close>)
  qed (use moved in auto)
qed

theorem drop_ends_every_consumer_witness:
  "join_threads (\<lambda>i. c_phase (consumer_at (ex_run [0] ex_idle) i)) (threads (ex_cfg [0])) = None \<and>
   (let s = ex_run [] ex_panicked in
     drop_bound (ex_cfg []) (seq_of s) (consumer_at s) = 2 \<and>
     thread_run (ex_cfg []) consumer_at (sys_step (ex_cfg [])) 2 s
       (ex_run [] (ex_panicked @ [Consumer (DoGiveUp 0), Consumer (DoGiveUp 1)])) \<and>
     2 \<le> drop_bound (ex_cfg []) (seq_of s) (consumer_at s) \<and>
     join_threads (\<lambda>i. c_phase (consumer_at (ex_run [] (ex_panicked @ [Consumer (DoGiveUp 0), Consumer (DoGiveUp 1)])) i))
       (threads (ex_cfg [])) = Some (Inr ()))"
proof -
  let ?s = ex_panicked and ?a = "Consumer (DoGiveUp 0)" and ?b = "Consumer (DoGiveUp 1)"
  have bound: "drop_bound (ex_cfg []) (seq_of (ex_run [] ?s)) (consumer_at (ex_run [] ?s)) = 2" by code_simp
  have dropped: "p_phase (ex_run [] ?s) = Dropped"
  proof -
    have "case p_phase (ex_run [] ?s) of Dropped \<Rightarrow> True | _ \<Rightarrow> False" by code_simp
    then show ?thesis by (simp split: prod_phase.splits)
  qed
  have phases: "c_phase (consumer_at (ex_run [] ?s) 0) \<noteq> c_phase (consumer_at (ex_run [] (?s @ [?a])) 0)"
    "c_phase (consumer_at (ex_run [] (?s @ [?a])) 1) \<noteq> c_phase (consumer_at (ex_run [] ((?s @ [?a]) @ [?b])) 1)"
    by code_simp+
  moreover have "0 \<in> set (threads (ex_cfg []))" "1 \<in> set (threads (ex_cfg []))" by (simp_all add: threads_def ex_cfg_def)
  ultimately have moves: "thread_moves (ex_cfg []) (consumer_at (ex_run [] ?s)) (consumer_at (ex_run [] (?s @ [?a])))"
    "thread_moves (ex_cfg []) (consumer_at (ex_run [] (?s @ [?a]))) (consumer_at (ex_run [] ((?s @ [?a]) @ [?b])))"
    unfolding thread_moves_def by metis+
  from phases have "sys_step (ex_cfg []) (ex_run [] ?s) (ex_run [] (?s @ [?a]))"
    "sys_step (ex_cfg []) (ex_run [] (?s @ [?a])) (ex_run [] ((?s @ [?a]) @ [?b]))"
    by (metis ex_run_step)+
  with moves have steps: "thread_run (ex_cfg []) consumer_at (sys_step (ex_cfg [])) (Suc (Suc 0))
      (ex_run [] ?s) (ex_run [] ((?s @ [?a]) @ [?b]))" by (blast intro: thread_run.Start thread_run_Suc)
  have threads: "set (threads (ex_cfg [])) = {0, 1}" and managed: "all_managed (ex_cfg [])"
    by (auto simp: threads_def ex_cfg_def all_managed_def)
  have ended: "c_phase (consumer_at (ex_run [] ((?s @ [?a]) @ [?b])) i) = Ended" if "i \<in> set (threads (ex_cfg []))" for i
  proof -
    have "c_phase (consumer_at (ex_run [] ((?s @ [?a]) @ [?b])) 0) = Ended \<and> c_phase (consumer_at (ex_run [] ((?s @ [?a]) @ [?b])) 1) = Ended"
      by code_simp
    with that threads show ?thesis by auto
  qed
  then have "\<nexists>s''. sys_step (ex_cfg []) (ex_run [] ((?s @ [?a]) @ [?b])) s''
      \<and> thread_advances (ex_cfg []) (consumer_at (ex_run [] ((?s @ [?a]) @ [?b]))) (consumer_at s'')"
    using stopped_consumer_stays unfolding thread_advances_def by metis
  with drop_ends_every_consumer [OF ex_run_reachable dropped steps] bound steps ended
  have ends: "let s = ex_run [] ex_panicked in
     drop_bound (ex_cfg []) (seq_of s) (consumer_at s) = 2 \<and>
     thread_run (ex_cfg []) consumer_at (sys_step (ex_cfg [])) 2 s
       (ex_run [] (ex_panicked @ [Consumer (DoGiveUp 0), Consumer (DoGiveUp 1)])) \<and>
     2 \<le> drop_bound (ex_cfg []) (seq_of s) (consumer_at s) \<and>
     join_threads (\<lambda>i. c_phase (consumer_at (ex_run [] (ex_panicked @ [Consumer (DoGiveUp 0), Consumer (DoGiveUp 1)])) i))
       (threads (ex_cfg [])) = Some (Inr ())" by (simp add: numeral_2_eq_2 Let_def no_poller_in_the_way [OF managed])
  have idle: "p_phase (ex_run [0] ex_idle) = Dropped"
  proof -
    have "case p_phase (ex_run [0] ex_idle) of Dropped \<Rightarrow> True | _ \<Rightarrow> False" by code_simp
    then show ?thesis by (simp split: prod_phase.splits)
  qed
  have at: "done_upto (consumer_at (ex_run [0] ex_idle) 0) = -1" "seq_of (ex_run [0] ex_idle) = 2"
    "c_phase (consumer_at (ex_run [0] ex_idle) 1) = Waiting" by code_simp+
  then have "poller_in_the_way (ex_cfg [0]) (seq_of (ex_run [0] ex_idle)) (consumer_at (ex_run [0] ex_idle))"
    unfolding poller_in_the_way_def by (intro exI [of _ "Suc 0"]) (simp add: ex_cfg_def)
  moreover have "\<forall>i\<in>set (threads (ex_cfg [0])). c_phase (consumer_at (ex_run [0] ex_idle) i) \<noteq> Crashed"
    using at by (simp add: threads_def ex_cfg_def)
  ultimately have "join_threads (\<lambda>i. c_phase (consumer_at (ex_run [0] ex_idle) i)) (threads (ex_cfg [0])) = None"
    using drop_ends_every_consumer [OF ex_run_reachable idle thread_run.Start] ex_idle_stuck
    unfolding Let_def by (simp del: fun_upd_apply)
  with ends show ?thesis by blast
qed

end
