(* ===== verification/Built_System.thy ===== *)
theory Built_System
  imports Builder_Wiring Spmc_Shutdown
begin

text \<open>
  From the builder to the running system: what a chain of calls on the single-producer builder has
  built is a start state of \<open>Spmc_System\<close>, with the wiring the chain made. So the theorems on running
  systems hold for every disruptor a client can build.
\<close>

text \<open>Who waits for whom, read off the consumers the builder started.\<close>

definition waits_of :: "world \<Rightarrow> arc \<Rightarrow> dependent" where
  "waits_of w i = (case find (\<lambda>c. own_cursor c = i) (consumers_of w) of Some c \<Rightarrow> waits_on c | None \<Rightarrow> OnProducer)"

definition polls_of :: "world \<Rightarrow> arc \<Rightarrow> bool" where
  "polls_of w i = (case find (\<lambda>c. own_cursor c = i) (consumers_of w) of Some c \<Rightarrow> spawned c = None | None \<Rightarrow> False)"

definition config_of :: "world \<Rightarrow> arc list list \<Rightarrow> config" where
  "config_of w sts = \<lparr>stages = sts, waits = waits_of w, is_poller = polls_of w\<rparr>"

section \<open>The wiring as a configuration\<close>

lemma map_fst_wiring: "map fst (wiring previous sts) = concat sts"
  by (induction sts arbitrary: previous) (auto simp: comp_def)

lemma wiring_stage:
  "(i, arcs) \<in> set (wiring previous sts) \<Longrightarrow> \<exists>j < length sts. i \<in> set (sts ! j) \<and> arcs = (previous # sts) ! j"
proof (induction sts arbitrary: previous)
  case Nil
  then show ?case by simp
next
  case (Cons st sts)
  then consider "i \<in> set st" "arcs = previous" | "(i, arcs) \<in> set (wiring st sts)" by auto
  then show ?case
  proof cases
    case 1
    then show ?thesis by (intro exI [of _ 0]) simp
  next
    case 2
    then obtain j where "j < length sts" "i \<in> set (sts ! j)" "arcs = (st # sts) ! j" using Cons.IH by blast
    then show ?thesis by (intro exI [of _ "Suc j"]) simp
  qed
qed

lemma stage_index:
  assumes "distinct (concat sts)" "j < length sts" "k < length sts" "i \<in> set (sts ! j)" "i \<in> set (sts ! k)"
  shows "j = k"
  using assms
proof (induction sts arbitrary: j k)
  case Nil
  then show ?case by simp
next
  case (Cons st sts)
  have later: "i \<in> set (concat sts)" if "i \<in> set (sts ! m)" "m < length sts" for m
    using that by auto
  have apart: "set st \<inter> set (concat sts) = {}" "distinct (concat sts)" using Cons.prems(1) by simp_all
  show ?case
  proof (cases j; cases k)
    fix j' k' assume eq: "j = Suc j'" "k = Suc k'"
    with Cons.prems have "j' = k'" by (intro Cons.IH [OF apart(2)]) simp_all
    with eq show ?thesis by simp
  next
    fix k' assume "j = 0" "k = Suc k'"
    with Cons.prems later [of k'] apart(1) show ?thesis by simp blast
  next
    fix j' assume "j = Suc j'" "k = 0"
    with Cons.prems later [of j'] apart(1) show ?thesis by simp blast
  qed simp
qed

lemma waits_of_stage:
  assumes map: "map (\<lambda>c. (own_cursor c, dependent_arcs (waits_on c))) (consumers_of w) = wiring [] sts"
    and kinds: "\<forall>c\<in>set (consumers_of w). waits_on c = OnProducer \<longleftrightarrow> dependent_arcs (waits_on c) = []"
    and sts: "distinct (concat sts)" "[] \<notin> set sts" and j: "j < length sts" "i \<in> set (sts ! j)"
  shows "if j = 0 then waits_of w i = OnProducer
    else waits_of w i \<noteq> OnProducer \<and> dependent_arcs (waits_of w i) = sts ! (j - 1)"
proof -
  have own: "map own_cursor (consumers_of w) = concat sts"
    using arg_cong [OF map, of "map fst"] by (simp add: map_fst_wiring comp_def)
  have "i \<in> set (concat sts)" using j by auto
  then have "\<exists>c\<in>set (consumers_of w). own_cursor c = i" using own [symmetric] by auto
  then obtain c where c: "find (\<lambda>c. own_cursor c = i) (consumers_of w) = Some c"
    by (metis (mono_tags, lifting) find_None_iff2 not_None_eq option.exhaust)
  then have mem: "c \<in> set (consumers_of w)" "own_cursor c = i" by (auto simp: find_Some_iff)
  then have "(i, dependent_arcs (waits_on c)) \<in> set (wiring [] sts)" using map [symmetric] by force
  from wiring_stage [OF this] obtain k where k: "k < length sts" "i \<in> set (sts ! k)"
    "dependent_arcs (waits_on c) = ([] # sts) ! k" by blast
  have "k = j" by (rule stage_index [OF sts(1) k(1) j(1) k(2) j(2)])
  moreover have "sts ! (j - 1) \<noteq> []" using sts(2) j(1) by (metis less_imp_diff_less nth_mem)
  ultimately show ?thesis using k(3) kinds mem(1) c by (auto simp: waits_of_def nth_Cons')
qed


section \<open>Managed consumers only\<close>

lemma up_call_spawned:
  assumes "up_call cores c b w = Some (Inr (b', w'))" "c \<noteq> AddPoller" "\<forall>d\<in>set (consumers_of w). spawned d \<noteq> None"
  shows "\<forall>d\<in>set (consumers_of w'). spawned d \<noteq> None"
  using assms
  by (cases c; cases "up_state b")
    (auto simp: up_nc_handle_events_with_def up_sc_handle_events_with_def up_mc_handle_events_with_def
      up_nc_handle_events_and_state_with_def up_sc_handle_events_and_state_with_def
      up_mc_handle_events_and_state_with_def add_event_handler_def add_event_handler_with_state_def
      start_processor_def start_processor_with_state_def new_cursor_def add_consumer_def Let_def split_def
      try_bind_Inr)

lemma up_chain_spawned:
  assumes "up_chain cores cs b w = Some (Inr (b', w'))" "AddPoller \<notin> set cs"
    and "\<forall>d\<in>set (consumers_of w). spawned d \<noteq> None"
  shows "\<forall>d\<in>set (consumers_of w'). spawned d \<noteq> None"
  using assms
proof (induction cs arbitrary: b w)
  case Nil
  then show ?case by simp
next
  case (Cons c cs)
  from Cons.prems(1) obtain b1 w1 where
    step: "up_call cores c b w = Some (Inr (b1, w1))" "up_chain cores cs b1 w1 = Some (Inr (b', w'))"
    by (auto simp del: up_call.simps split: option.splits sum.splits)
  have "c \<noteq> AddPoller" "AddPoller \<notin> set cs" using Cons.prems(2) by auto
  then show ?case using Cons.IH [OF step(2)] up_call_spawned [OF step(1)] Cons.prems(3) by blast
qed

lemma all_managed_config:
  assumes "\<forall>c\<in>set (consumers_of w). spawned c \<noteq> None"
  shows "all_managed (config_of w sts)"
  using assms by (auto simp: all_managed_def config_of_def polls_of_def find_Some_iff split: option.splits)

section \<open>The start state\<close>

lemma built_config:
  assumes inv: "builder_inv st ctx dep w fin stage" and stage: "stage \<noteq> []"
    and gate: "gate \<noteq> OnProducer" "dependent_arcs gate = stage"
  shows "wf_config (config_of w (fin @ [stage])) gate"
proof -
  let ?sts = "fin @ [stage]"
  have sts: "distinct (concat ?sts)" "[] \<notin> set ?sts" using inv stage by (auto simp: builder_inv_def)
  have "if j = 0 then waits_of w i = OnProducer
      else waits_of w i \<noteq> OnProducer \<and> dependent_arcs (waits_of w i) = ?sts ! (j - 1)"
    if "j < length ?sts" "i \<in> set (?sts ! j)" for i j
    using inv that by (intro waits_of_stage sts) (auto simp: builder_inv_def)
  with sts gate show ?thesis by (simp add: wf_config_def config_of_def del: concat_append)
qed

text \<open>
  C13. A disruptor built on the single-producer builder starts in a state the theorems on running systems
  speak about: for a size that is a power of two below \<open>2 ^ 63\<close>, and any chain of calls that type-checks, pins
  threads to existing cores only and ends with at least one consumer in its last stage, the build succeeds, and its producer, its threads and its pollers form
  a start state with the wiring the chain made; without a poller, all consumers are threads.
\<close>

theorem built_disruptor_is_reachable:
  assumes size: "n = 2 ^ k" "n < 2 ^ 63" and chain: "chain_state calls NC = Some st" "st \<noteq> NC"
    and cores: "cores_exist cores calls"
  shows "\<exists>b0 b w sts. build_uni_producer_unchecked n event_source f ws = Inr b0
    \<and> up_chain cores calls b0 world_new = Some (Inr (b, w)) \<and> wired w sts
    \<and> (AddPoller \<notin> set calls \<longrightarrow> all_managed (config_of w sts))
    \<and> (if st = SC
       then \<exists>p. up_sc_build b = Inr p \<and> reachable (config_of w sts) (sys_init (lift_barrier OnConsumer p))
       else \<exists>p. up_mc_build b = Inr p \<and> reachable (config_of w sts) (sys_init (lift_barrier OnGroup p)))"
proof -
  from up_chain_builds [OF size chain(1) cores, of event_source f ws] obtain b0 b w fin stage rb where
    built: "build_uni_producer_unchecked n event_source f ws = Inr b0"
      "up_chain cores calls b0 world_new = Some (Inr (b, w))" "st = state_of_stage stage"
      "builder_inv st (up_context b) (up_dependent_barrier b) w fin stage"
    and wf: "wf_ring rb"
    and result: "case stage of
        [] \<Rightarrow> True
      | [a] \<Rightarrow> up_sc_build b = Inr (uni_producer_new (ctx_shutdown (up_context b)) rb uni_producer_barrier_new
          (ctx_handles (up_context b)) (UniConsumerBarrier a))
      | _ \<Rightarrow> up_mc_build b = Inr (uni_producer_new (ctx_shutdown (up_context b)) rb uni_producer_barrier_new
          (ctx_handles (up_context b)) (MultiConsumerBarrier stage))" by blast
  have stage: "stage \<noteq> []" using built(3) chain(2) by auto
  note config = built_config [OF built(4) stage]
  have start: "reachable (config_of w (fin @ [stage]))
      (sys_init (uni_producer_new sd rb uni_producer_barrier_new hs gate))"
    if "gate \<noteq> OnProducer" "dependent_arcs gate = stage" for sd hs gate
    using config [OF that] by (intro reachable.Start fresh_new [OF wf]) (simp add: uni_producer_new_barrier)
  have "if st = SC
    then \<exists>p. up_sc_build b = Inr p \<and> reachable (config_of w (fin @ [stage])) (sys_init (lift_barrier OnConsumer p))
    else \<exists>p. up_mc_build b = Inr p \<and> reachable (config_of w (fin @ [stage])) (sys_init (lift_barrier OnGroup p))"
  proof (cases stage rule: state_of_stage.cases)
    case (2 a)
    with result built(3) start [of "OnConsumer (UniConsumerBarrier a)"] show ?thesis by (simp add: lift_barrier_new)
  next
    case (3 a a' as)
    with result built(3) start [of "OnGroup (MultiConsumerBarrier stage)"] show ?thesis by (simp add: lift_barrier_new)
  qed (use stage in simp)
  moreover have "AddPoller \<notin> set calls \<longrightarrow> all_managed (config_of w sts)" for sts
    using up_chain_spawned [OF built(2)] all_managed_config [of w] by (simp add: world_new_def)
  ultimately show ?thesis using built(1,2) builder_inv_wired [OF built(4)] by blast
qed

theorem built_disruptor_is_reachable_witness:
  "\<exists>b0 b w sts p. build_uni_producer_unchecked 8 (\<lambda>u. (0::int, u)) () BusySpin = Inr b0
    \<and> up_chain None [HandleEventsWith Finished, AddPoller, AndThen, HandleEventsAndStateWith Finished]
        b0 world_new = Some (Inr (b, w)) \<and> wired w sts \<and> up_sc_build b = Inr p
    \<and> reachable (config_of w sts) (sys_init (lift_barrier OnConsumer p))"
  using built_disruptor_is_reachable [of 8 3 "[HandleEventsWith Finished, AddPoller, AndThen,
      HandleEventsAndStateWith Finished]" SC None "\<lambda>u. (0::int, u)" "()" BusySpin]
  by (simp add: cores_exist_def del: up_chain.simps)

end
