(* ===== verification/Mpmc_System.thy ===== *)
theory Mpmc_System
  imports Multi_Producer Broadcast
begin

text \<open>
  The running disruptor with any number of producer handles: their threads, the consumer threads
  and the pollers as an interleaving of their atomic steps and of their accesses to the slots
  (\<open>src/producer/multi.rs\<close> with the consumers of \<open>Consumer_Steps\<close>). Handles are cloned and dropped
  while others publish. The lemmas establish the invariant of all reachable states.

  The claim cursor is read \<open>Relaxed\<close>, so a load may return any value it ever had, but none older
  than the thread has seen before; a compare-exchange succeeds on the newest value only. Each word
  of the availability bits is the list of all values it had. A \<open>fetch_xor\<close> continues the release
  sequence it reads from, so a value makes visible what every flip up to it published. Other
  synchronisation between producers, which only orders more, is left out.
\<close>

section \<open>State\<close>

text \<open>\<open>w_flips\<close> only records how often the bit of each slot has been flipped.\<close>

record word_message =
  w_value :: "64 word"
  w_view :: "access set"
  w_flips :: "nat \<Rightarrow> nat"

text \<open>
  Where a handle is: \<open>Checking\<close> is the start of a round of the claim loop with the cursor's value,
  \<open>Racing\<close> just before the compare-exchange, \<open>Writing\<close> the closure, \<open>Flipping\<close> the publication of the
  claimed sequences from the first number on.
\<close>

datatype 'e mp_phase = NoHandle | Free | Checking sequence nat "('e \<Rightarrow> 'e) list"
  | Racing sequence nat "('e \<Rightarrow> 'e) list" | Writing "('e \<Rightarrow> 'e) list" mut_batch_iter nat
  | Flipping sequence sequence | Gone

record 'e handle =
  h_producer :: "dependent multi_producer"
  h_phase :: "'e mp_phase"
  h_view :: "access set"
  h_seen :: sequence

text \<open>
  \<open>shared\<close> holds the newest values; \<open>mutex_seen\<close> is what the threads that held the mutex have seen of
  the claim cursor. \<open>event_at\<close>, \<open>performed\<close> and \<open>lost\<close> only record the past: the events published, the
  accesses made to slots, and the claims that a panic left unpublished. Consumers remember up to which value they have read each word.
\<close>

record 'e mp_system =
  shared :: "('e, cursors) mp_shared"
  handles :: "nat \<Rightarrow> 'e handle"
  claim_history :: "sequence list"
  mutex_seen :: sequence
  word_history :: "nat \<Rightarrow> word_message list"
  shutdown_history :: "sequence list"
  consumer_at :: "arc \<Rightarrow> ('e, nat \<Rightarrow> nat) consumer_state"
  performed :: "access set"
  event_at :: "sequence \<Rightarrow> 'e"
  lost :: "sequence set"

abbreviation bits_of :: "'e mp_system \<Rightarrow> mp_barrier" where
  "bits_of s \<equiv> producer_barrier (shared s)"

definition set_handle :: "nat \<Rightarrow> 'e handle \<Rightarrow> 'e mp_system \<Rightarrow> 'e mp_system" where
  "set_handle k h s = s\<lparr>handles := (handles s)(k := h)\<rparr>"

section \<open>Steps\<close>

definition word_of :: "mp_barrier \<Rightarrow> sequence \<Rightarrow> nat" where
  "word_of b q = fst (calculate_availability_indices b q)"

text \<open>
  A scan of the bits: its \<open>t\<close>-th load of word \<open>w\<close> returns value number \<open>ix t w\<close>, no older than what the
  thread has read of that word before. The fence adds what came with the values of the words it
  went through.
\<close>

definition bits_look :: "'e mp_system \<Rightarrow> (nat \<Rightarrow> nat) source" where
  "bits_look s q x found V x' \<longleftrightarrow> (let b = bits_of s; words = length (available b) in
     \<exists>ix. (\<forall>w < words. x w \<le> ix 0 w \<and> (\<forall>t. ix t w \<le> ix (Suc t) w \<and> ix t w < length (word_history s w)))
       \<and> mp_get_after_loads b (\<lambda>t. map (\<lambda>w. w_value (word_history s w ! ix t w)) [0..<words]) q = Some found
       \<and> V = (\<Union>r\<in>{q..found + 1}. w_view (word_history s (word_of b r) ! ix (load_of q r) (word_of b r)))
       \<and> x' = ix (load_of q (found + 1)))"

text \<open>What the thread of a handle may read from the claim cursor.\<close>

definition may_read :: "'e mp_system \<Rightarrow> 'e handle \<Rightarrow> sequence \<Rightarrow> bool" where
  "may_read s h v \<longleftrightarrow> v \<in> set (claim_history s) \<and> h_seen h \<le> v"

text \<open>The flip of one word: the claimed sequences from \<open>q\<close> to the end of its word, at most to \<open>upper\<close>.\<close>

definition word_end :: "sequence \<Rightarrow> sequence \<Rightarrow> sequence" where
  "word_end q upper = min upper (q - q mod 64 + 63)"

text \<open>The two records of the past that change: the count of flips, and the events published.\<close>

definition one_more :: "nat set \<Rightarrow> (nat \<Rightarrow> nat) \<Rightarrow> nat \<Rightarrow> nat" where
  "one_more A f i = (if i \<in> A then Suc (f i) else f i)"

definition record_events :: "'e ring_buffer \<Rightarrow> sequence \<Rightarrow> sequence \<Rightarrow> (sequence \<Rightarrow> 'e) \<Rightarrow> sequence \<Rightarrow> 'e" where
  "record_events rb q r ev t = (if q \<le> t \<and> t \<le> r then ring_read rb t else ev t)"

declare one_more_def [simp] record_events_def [simp]

definition flip_message :: "mp_barrier \<Rightarrow> mp_barrier \<Rightarrow> sequence \<Rightarrow> sequence \<Rightarrow> access set \<Rightarrow> word_message \<Rightarrow> word_message" where
  "flip_message b b' q r V m = \<lparr>w_value = available b' ! word_of b q, w_view = w_view m \<union> V,
     w_flips = one_more (slot_index b ` {q..r}) (w_flips m)\<rparr>"

text \<open>What a handle has claimed and not published.\<close>

fun owned :: "'e mp_phase \<Rightarrow> sequence set" where
  "owned (Writing fs it n) = {last_sequence it - int n + 1..last_sequence it}"
| "owned (Flipping q upper) = {q..upper}"
| "owned _ = {}"

text \<open>
  \<open>Begin\<close> starts a publication of \<open>n\<close> sequences (1 for a single one) with closure \<open>fs\<close>; \<open>Check\<close> and
  \<open>Refuse\<close> are the fullness check, \<open>Win\<close> and \<open>Lose\<close> the compare-exchange, \<open>Fill\<close> one write of the closure,
  \<open>Finish\<close> its return, \<open>Unwind\<close> its panic, after which the handle is dropped or, where the client caught
  the panic, used again; \<open>Flip\<close> is one \<open>fetch_xor\<close> and \<open>Return\<close> the end. \<open>Clone\<close> and the two drops hold
  the mutex; only the last drop stores the shutdown mark. \<open>Consume\<close> is any step of a consumer. The run
  is bounded by \<open>2 ^ 62\<close> sequences.
\<close>

inductive mp_step :: "config \<Rightarrow> 'e mp_system \<Rightarrow> 'e mp_system \<Rightarrow> bool" for cfg :: config where
  Begin: "h = handles s k \<Longrightarrow> h_phase h = Free \<Longrightarrow> n < 2 ^ 62 \<Longrightarrow> may_read s h v \<Longrightarrow>
    mp_step cfg s (set_handle k (h\<lparr>h_phase := Checking v n fs, h_seen := v\<rparr>) s)"
| Check: "h = handles s k \<Longrightarrow> h_phase h = Checking cur n fs \<Longrightarrow> p = h_producer h \<Longrightarrow>
    n_next = i64 (cur + i64 (int n)) \<Longrightarrow> may_load (consumer_at s) (consumer_barrier p) msgs \<Longrightarrow>
    mp_check_room gate_get_after (i64 (int n)) cur n_next ((shared s)\<lparr>consumers := loaded msgs\<rparr>) p = Inr p' \<Longrightarrow>
    mp_step cfg s (set_handle k (h\<lparr>h_producer := p', h_phase := Racing cur n fs,
      h_view := (if sequence_clear_of_consumers p < n_next
        then h_view h \<union> acquired (consumer_barrier p) msgs else h_view h)\<rparr>) s)"
| Refuse: "h = handles s k \<Longrightarrow> h_phase h = Checking cur n fs \<Longrightarrow> p = h_producer h \<Longrightarrow>
    n_next = i64 (cur + i64 (int n)) \<Longrightarrow> may_load (consumer_at s) (consumer_barrier p) msgs \<Longrightarrow>
    mp_check_room gate_get_after (i64 (int n)) cur n_next ((shared s)\<lparr>consumers := loaded msgs\<rparr>) p = Inl e \<Longrightarrow>
    mp_step cfg s (set_handle k (h\<lparr>h_phase := Free\<rparr>) s)"
| Win: "h = handles s k \<Longrightarrow> h_phase h = Racing cur n fs \<Longrightarrow> n_next = i64 (cur + i64 (int n)) \<Longrightarrow>
    cur + int n + 1 < 2 ^ 62 \<Longrightarrow> mp_compare_exchange cur n_next (bits_of s) = (Inr old, b) \<Longrightarrow>
    mp_step cfg s (set_handle k (h\<lparr>h_producer := (h_producer h)\<lparr>claimed_sequence := n_next\<rparr>,
        h_phase := Writing fs (batch_iter_new (i64 (i64 (n_next - i64 (int n)) + 1)) n_next) n, h_seen := n_next\<rparr>)
      (s\<lparr>shared := (shared s)\<lparr>producer_barrier := b\<rparr>, claim_history := claim_history s @ [n_next]\<rparr>))"
| Lose: "h = handles s k \<Longrightarrow> h_phase h = Racing cur n fs \<Longrightarrow> may_read s h v \<Longrightarrow> v \<noteq> cur \<Longrightarrow>
    mp_step cfg s (set_handle k (h\<lparr>h_phase := Checking v n fs, h_seen := v\<rparr>) s)"
| Fill: "h = handles s k \<Longrightarrow> h_phase h = Writing (f # fs) it n \<Longrightarrow> \<sigma> = shared s \<Longrightarrow>
    batch_iter_next (ring_buffer \<sigma>) it = (Some slot, it') \<Longrightarrow>
    mp_step cfg s (set_handle k (h\<lparr>h_phase := Writing fs it' n, h_view := insert (Wr (current it)) (h_view h)\<rparr>)
      (s\<lparr>shared := \<sigma>\<lparr>ring_buffer := update_at (ring_buffer \<sigma>) slot f\<rparr>,
        performed := insert (Wr (current it)) (performed s)\<rparr>))"
| Finish: "h = handles s k \<Longrightarrow> h_phase h = Writing fs it n \<Longrightarrow> upper = claimed_sequence (h_producer h) \<Longrightarrow>
    fs = [] \<or> fst (batch_iter_next (ring_buffer (shared s)) it) = None \<Longrightarrow>
    mp_step cfg s (set_handle k (h\<lparr>h_phase := Flipping (i64 (i64 (upper - i64 (int n)) + 1)) upper\<rparr>) s)"
| Unwind: "h = handles s k \<Longrightarrow> h_phase h = Writing fs it n \<Longrightarrow>
    mp_step cfg s (set_handle k (h\<lparr>h_phase := Free\<rparr>) (s\<lparr>lost := lost s \<union> owned (h_phase h)\<rparr>))"
| Flip: "h = handles s k \<Longrightarrow> h_phase h = Flipping q upper \<Longrightarrow> q \<le> upper \<Longrightarrow> r = word_end q upper \<Longrightarrow>
    b = bits_of s \<Longrightarrow> b' = publish_range_relaxed q (r - q + 1) b \<Longrightarrow> w = word_of b q \<Longrightarrow>
    mp_step cfg s (set_handle k (h\<lparr>h_phase := Flipping (r + 1) upper\<rparr>)
      (s\<lparr>shared := (shared s)\<lparr>producer_barrier := b'\<rparr>,
        word_history := (word_history s)(w := word_history s w
          @ [flip_message b b' q r (h_view h) (last (word_history s w))]),
        event_at := record_events (ring_buffer (shared s)) q r (event_at s)\<rparr>))"
| Return: "h = handles s k \<Longrightarrow> h_phase h = Flipping q upper \<Longrightarrow> \<not> q \<le> upper \<Longrightarrow>
    mp_step cfg s (set_handle k (h\<lparr>h_phase := Free\<rparr>) s)"
| Clone: "h = handles s k \<Longrightarrow> h_phase h = Free \<Longrightarrow> h_phase (handles s k') = NoHandle \<Longrightarrow>
    mp_clone (h_producer h) (shared s) = Some (p', \<sigma>) \<Longrightarrow>
    mp_step cfg s (set_handle k' (h\<lparr>h_producer := p'\<rparr>) (s\<lparr>shared := \<sigma>\<rparr>))"
| Drop: "h = handles s k \<Longrightarrow> h_phase h = Free \<Longrightarrow> \<sigma> = shared s \<Longrightarrow> live_count \<sigma> \<noteq> 1 \<Longrightarrow>
    mp_step cfg s (set_handle k (h\<lparr>h_phase := Gone\<rparr>)
      (s\<lparr>shared := \<sigma>\<lparr>live_count := i64 (live_count \<sigma> - 1)\<rparr>, mutex_seen := max (mutex_seen s) (h_seen h)\<rparr>))"
| LastDrop: "h = handles s k \<Longrightarrow> h_phase h = Free \<Longrightarrow> \<sigma> = shared s \<Longrightarrow> live_count \<sigma> = 1 \<Longrightarrow>
    may_read s h v \<Longrightarrow> mutex_seen s \<le> v \<Longrightarrow>
    mp_step cfg s (set_handle k (h\<lparr>h_phase := Gone\<rparr>)
      (s\<lparr>shared := \<sigma>\<lparr>live_count := i64 (live_count \<sigma> - 1), shutdown_at_sequence := i64 (v + 1)\<rparr>,
        mutex_seen := max (mutex_seen s) (h_seen h), shutdown_history := shutdown_history s @ [i64 (v + 1)]\<rparr>))"
| Consume: "cons_step cfg (bits_look s) (shutdown_history s) (ring_buffer (shared s))
      (consumer_at s, performed s) (cs, P) \<Longrightarrow>
    mp_step cfg s (s\<lparr>consumer_at := cs, performed := P\<rparr>)"

text \<open>What the builder leaves: one handle, nothing published, consumers that have seen nothing.\<close>

definition mp_init :: "dependent multi_producer \<Rightarrow> ('e, cursors) mp_shared \<Rightarrow> 'e mp_system" where
  "mp_init p \<sigma> = \<lparr>shared = \<sigma>,
     handles = (\<lambda>k. \<lparr>h_producer = p, h_phase = (if k = 0 then Free else NoHandle), h_view = {}, h_seen = NONE\<rparr>),
     claim_history = [NONE], mutex_seen = NONE,
     word_history = (\<lambda>w. [\<lparr>w_value = available (producer_barrier \<sigma>) ! w, w_view = {}, w_flips = (\<lambda>_. 0)\<rparr>]),
     shutdown_history = [NONE], consumer_at = (\<lambda>_. consumer_init (\<lambda>_. 0)), performed = {},
     event_at = ring_read (ring_buffer \<sigma>), lost = {}\<rparr>"

text \<open>\<open>mp_fresh p \<sigma>\<close>: what \<open>MultiProducer::new\<close> returns over a well-formed ring and a new barrier.\<close>

definition mp_fresh :: "dependent multi_producer \<Rightarrow> ('e, cursors) mp_shared \<Rightarrow> bool" where
  "mp_fresh p \<sigma> \<longleftrightarrow> wf_ring (ring_buffer \<sigma>) \<and> mp_barrier_new (length (slots (ring_buffer \<sigma>))) = Inr (producer_barrier \<sigma>)
     \<and> live_count \<sigma> = 1 \<and> sequence_clear_of_consumers p = int (length (slots (ring_buffer \<sigma>))) - 1"

inductive mp_reachable :: "config \<Rightarrow> 'e mp_system \<Rightarrow> bool" for cfg :: config where
  Start: "mp_fresh p \<sigma> \<Longrightarrow> wf_config cfg (consumer_barrier p) \<Longrightarrow> mp_reachable cfg (mp_init p \<sigma>)"
| Step: "mp_reachable cfg s \<Longrightarrow> mp_step cfg s s' \<Longrightarrow> mp_reachable cfg s'"

section \<open>The invariant\<close>

abbreviation claimed :: "'e mp_system \<Rightarrow> sequence" where
  "claimed s \<equiv> mp_current (bits_of s)"

abbreviation laps :: "'e mp_system \<Rightarrow> int" where
  "laps s \<equiv> mp_size (bits_of s)"

text \<open>A sequence is published once its slot's bit has been flipped in its round.\<close>

definition shown_by :: "mp_barrier \<Rightarrow> word_message \<Rightarrow> sequence \<Rightarrow> bool" where
  "shown_by b m q \<longleftrightarrow> q div mp_size b < int (w_flips m (slot_index b q))"

definition is_published :: "'e mp_system \<Rightarrow> sequence \<Rightarrow> bool" where
  "is_published s q \<longleftrightarrow> 0 \<le> q \<and> shown_by (bits_of s) (last (word_history s (word_of (bits_of s) q))) q"

definition front :: "'e mp_system \<Rightarrow> sequence" where
  "front s = int (LEAST q. \<not> is_published s (int q))"

text \<open>What of it is not written yet.\<close>

fun unwritten :: "'e mp_phase \<Rightarrow> sequence set" where
  "unwritten (Writing fs it n) = {current it..last_sequence it}"
| "unwritten _ = {}"

definition live :: "'e handle \<Rightarrow> bool" where
  "live h \<longleftrightarrow> h_phase h \<noteq> NoHandle \<and> h_phase h \<noteq> Gone"

definition claims_inv :: "'e mp_system \<Rightarrow> bool" where
  "claims_inv s \<longleftrightarrow> claimed s \<in> set (claim_history s) \<and> (\<forall>v\<in>set (claim_history s). -1 \<le> v \<and> v \<le> claimed s)
     \<and> claimed s + 1 < 2 ^ 62
     \<and> (\<forall>q. is_published s q \<or> (\<exists>k. q \<in> owned (h_phase (handles s k))) \<or> q \<in> lost s \<longleftrightarrow> 0 \<le> q \<and> q \<le> claimed s)
     \<and> (\<forall>k q. q \<in> owned (h_phase (handles s k)) \<longrightarrow> \<not> is_published s q \<and> q \<notin> lost s)
     \<and> (\<forall>q. q \<in> lost s \<longrightarrow> \<not> is_published s q)
     \<and> (\<forall>k k'. k \<noteq> k' \<longrightarrow> owned (h_phase (handles s k)) \<inter> owned (h_phase (handles s k')) = {})"

definition words_inv :: "'e mp_system \<Rightarrow> bool" where
  "words_inv s \<longleftrightarrow> wf_mp (bits_of s) \<and> wf_ring (ring_buffer (shared s))
     \<and> laps s = capacity (ring_buffer (shared s))
     \<and> (\<forall>w < length (available (bits_of s)). word_history s w \<noteq> []
         \<and> w_value (last (word_history s w)) = available (bits_of s) ! w
         \<and> sorted_wrt (\<lambda>m m'. \<forall>i. w_flips m i \<le> w_flips m' i) (word_history s w)
         \<and> (\<forall>m\<in>set (word_history s w). (\<forall>i. i div 64 = w \<longrightarrow> bit (w_value m) (i mod 64) = even (w_flips m i))
             \<and> (\<forall>q. Wr q \<in> performed s \<and> word_of (bits_of s) q = w \<and> shown_by (bits_of s) m q \<longrightarrow> Wr q \<in> w_view m)))"

definition writes_inv :: "'e mp_system \<Rightarrow> bool" where
  "writes_inv s \<longleftrightarrow> (\<forall>q. Wr q \<in> performed s \<longrightarrow> is_published s q
         \<or> (\<exists>k. q \<in> owned (h_phase (handles s k)) - unwritten (h_phase (handles s k))) \<or> q \<in> lost s)
     \<and> (\<forall>q. is_published s q \<and> claimed s - laps s < q \<longrightarrow> ring_read (ring_buffer (shared s)) q = event_at s q)"

definition room_for :: "config \<Rightarrow> 'e mp_system \<Rightarrow> sequence \<Rightarrow> bool" where
  "room_for cfg s v \<longleftrightarrow> (\<forall>i\<in>set (all_consumers cfg). v - laps s \<le> done_upto (consumer_at s i))"

fun phase_inv :: "'e mp_system \<Rightarrow> 'e handle \<Rightarrow> 'e mp_phase \<Rightarrow> bool" where
  "phase_inv s h (Checking cur n fs) \<longleftrightarrow> cur \<in> set (claim_history s) \<and> n < 2 ^ 62"
| "phase_inv s h (Racing cur n fs) \<longleftrightarrow> cur \<in> set (claim_history s) \<and> n < 2 ^ 62
     \<and> cur + int n \<le> sequence_clear_of_consumers (h_producer h)"
| "phase_inv s h (Writing fs it n) \<longleftrightarrow> n < 2 ^ 62 \<and> last_sequence it + 1 < 2 ^ 62
     \<and> claimed_sequence (h_producer h) = last_sequence it \<and> last_sequence it \<le> sequence_clear_of_consumers (h_producer h)
     \<and> 0 \<le> last_sequence it - int n + 1
     \<and> last_sequence it - int n + 1 \<le> current it \<and> current it \<le> last_sequence it + 1"
| "phase_inv s h (Flipping q upper) \<longleftrightarrow> 0 \<le> q \<and> upper + 1 < 2 ^ 62"
| "phase_inv s h _ \<longleftrightarrow> True"

definition handle_inv :: "config \<Rightarrow> dependent \<Rightarrow> 'e mp_system \<Rightarrow> 'e handle \<Rightarrow> bool" where
  "handle_inv cfg gate s h \<longleftrightarrow> phase_inv s h (h_phase h)
     \<and> (live h \<longrightarrow> h_seen h \<le> claimed s \<and> consumer_barrier (h_producer h) = gate
         \<and> room_for cfg s (sequence_clear_of_consumers (h_producer h))
         \<and> before (performed s) (set (all_consumers cfg)) (sequence_clear_of_consumers (h_producer h) - laps s)
             \<subseteq> h_view h)
     \<and> (\<forall>q. Wr q \<in> performed s \<and> q \<in> owned (h_phase h) \<longrightarrow> Wr q \<in> h_view h)"

definition count_inv :: "'e mp_system \<Rightarrow> bool" where
  "count_inv s \<longleftrightarrow> finite {k. live (handles s k)} \<and> live_count (shared s) = int (card {k. live (handles s k)})
     \<and> live_count (shared s) \<le> 2 ^ 62
     \<and> mutex_seen s \<le> claimed s \<and> (claimed s \<le> mutex_seen s \<or> (\<exists>k. live (handles s k) \<and> claimed s \<le> h_seen (handles s k)))
     \<and> set (shutdown_history s) = {-1} \<union> (if live_count (shared s) = 0 then {claimed s + 1} else {})"

definition good :: "'e mp_system \<Rightarrow> (nat \<Rightarrow> nat) \<Rightarrow> sequence \<Rightarrow> bool" where
  "good s x v \<longleftrightarrow> (\<forall>w < length (available (bits_of s)). x w < length (word_history s w))
     \<and> (\<forall>q. 0 \<le> q \<and> q \<le> v \<longrightarrow>
         shown_by (bits_of s) (word_history s (word_of (bits_of s) q) ! x (word_of (bits_of s) q)) q)"

text \<open>The last handle is gone, and no panic has left a gap: now a mark can stand for the end.\<close>

abbreviation complete :: "'e mp_system \<Rightarrow> bool" where
  "complete s \<equiv> live_count (shared s) = 0 \<and> lost s = {}"

definition mp_crew :: "config \<Rightarrow> 'e mp_system \<Rightarrow> bool" where
  "mp_crew cfg s \<longleftrightarrow> crew_inv cfg (good s) (consumer_at s) (performed s) (front s) (event_at s) (complete s)"

definition mp_inv :: "config \<Rightarrow> dependent \<Rightarrow> 'e mp_system \<Rightarrow> bool" where
  "mp_inv cfg gate s \<longleftrightarrow> wf_config cfg gate \<and> claims_inv s \<and> words_inv s \<and> writes_inv s \<and> count_inv s
     \<and> (\<forall>k. handle_inv cfg gate s (handles s k)) \<and> room_for cfg s (claimed s) \<and> mp_crew cfg s"

section \<open>Published sequences\<close>

lemma word_of_eq: "word_of b q = slot_index b q div 64"
  by (simp add: word_of_def indices_eq)

lemma word_of_less: "wf_mp b \<Longrightarrow> word_of b q < length (available b)"
  by (simp add: word_of_eq word_index_less)

lemma claims_published_le: "claims_inv s \<Longrightarrow> is_published s q \<Longrightarrow> 0 \<le> q \<and> q \<le> claimed s"
  unfolding claims_inv_def by blast

lemma front_least:
  assumes "claims_inv s"
  shows "\<not> is_published s (front s)" "0 \<le> q \<Longrightarrow> q < front s \<Longrightarrow> is_published s q" "0 \<le> front s" "front s \<le> claimed s + 1"
proof -
  have top: "\<not> is_published s (int (nat (claimed s + 1)))"
    using claims_published_le [OF assms, of "int (nat (claimed s + 1))"] by linarith
  show "\<not> is_published s (front s)" unfolding front_def by (rule LeastI) (rule top)
  show "0 \<le> front s" by (simp add: front_def)
  show "front s \<le> claimed s + 1"
  proof -
    have "-1 \<le> claimed s" using assms by (auto simp: claims_inv_def)
    moreover have "(LEAST q. \<not> is_published s (int q)) \<le> nat (claimed s + 1)" by (rule Least_le) (rule top)
    ultimately show ?thesis by (simp add: front_def)
  qed
  assume "0 \<le> q" "q < front s"
  then have "nat q < (LEAST q. \<not> is_published s (int q))" by (simp add: front_def)
  from not_less_Least [OF this] \<open>0 \<le> q\<close> show "is_published s q" by simp
qed

lemma front_unique:
  assumes "claims_inv s" "0 \<le> f" "\<not> is_published s f" "\<forall>q. 0 \<le> q \<and> q < f \<longrightarrow> is_published s q"
  shows "front s = f"
  using front_least [OF assms(1)] assms(2-4) by (metis linorder_neqE_linordered_idom)

lemma front_le: "claims_inv s \<Longrightarrow> \<not> is_published s q \<Longrightarrow> 0 \<le> q \<Longrightarrow> front s \<le> q"
  using front_least(2) [of s q] by fastforce

lemma lost_front: "claims_inv s \<Longrightarrow> q \<in> lost s \<Longrightarrow> front s \<le> q \<and> q \<le> claimed s"
  using front_le [of s q] unfolding claims_inv_def by blast

lemma written_claimed: "claims_inv s \<Longrightarrow> writes_inv s \<Longrightarrow> Wr q \<in> performed s \<Longrightarrow> 0 \<le> q \<and> q \<le> claimed s"
  unfolding claims_inv_def writes_inv_def by blast

lemma slot_index_lap:
  assumes "wf_mp b"
  shows "slot_index b (q + mp_size b) = slot_index b q" "word_of b (q + mp_size b) = word_of b q"
    "(q + mp_size b) div mp_size b = q div mp_size b + 1"
proof -
  show "slot_index b (q + mp_size b) = slot_index b q" by (simp add: slot_index_mod [OF assms] del: of_nat_Suc)
  then show "word_of b (q + mp_size b) = word_of b q" by (simp add: word_of_eq)
  show "(q + mp_size b) div mp_size b = q div mp_size b + 1" by (rule div_add_self2) simp
qed

lemma word_facts:
  assumes "words_inv s" "w = word_of (bits_of s) q"
  shows "word_history s w \<noteq> []" "w_value (last (word_history s w)) = available (bits_of s) ! w"
    "i \<le> j \<Longrightarrow> j < length (word_history s w) \<Longrightarrow>
      w_flips (word_history s w ! i) k \<le> w_flips (word_history s w ! j) k"
    "m \<in> set (word_history s w) \<Longrightarrow> w_flips m k \<le> w_flips (last (word_history s w)) k"
    "m \<in> set (word_history s w) \<Longrightarrow>
      bit (w_value m) (slot_index (bits_of s) q mod 64) = even (w_flips m (slot_index (bits_of s) q))"
    "m \<in> set (word_history s w) \<Longrightarrow> Wr q \<in> performed s \<Longrightarrow> shown_by (bits_of s) m q \<Longrightarrow> Wr q \<in> w_view m"
proof -
  have "wf_mp (bits_of s)" using assms(1) by (simp add: words_inv_def)
  then have w: "w < length (available (bits_of s))" by (simp add: assms(2) word_of_less)
  show ne: "word_history s w \<noteq> []" and "w_value (last (word_history s w)) = available (bits_of s) ! w"
    using assms(1) w by (simp_all add: words_inv_def)
  have sorted: "sorted_wrt (\<lambda>m m'. \<forall>i. w_flips m i \<le> w_flips m' i) (word_history s w)"
    and each: "\<forall>m\<in>set (word_history s w). (\<forall>i. i div 64 = w \<longrightarrow> bit (w_value m) (i mod 64) = even (w_flips m i))
      \<and> (\<forall>q. Wr q \<in> performed s \<and> word_of (bits_of s) q = w \<and> shown_by (bits_of s) m q \<longrightarrow> Wr q \<in> w_view m)"
    using assms(1) w unfolding words_inv_def by blast+
  show mono: "w_flips (word_history s w ! i) k \<le> w_flips (word_history s w ! j) k"
    if "i \<le> j" "j < length (word_history s w)" for i j
    using sorted that by (cases "i = j") (auto simp: sorted_wrt_iff_nth_less)
  show "w_flips m k \<le> w_flips (last (word_history s w)) k" if m: "m \<in> set (word_history s w)"
  proof -
    obtain i where i: "i < length (word_history s w)" "m = word_history s w ! i" using m by (auto simp: in_set_conv_nth)
    with mono [of i "length (word_history s w) - 1"] ne show ?thesis by (simp add: last_conv_nth)
  qed
  show "bit (w_value m) (slot_index (bits_of s) q mod 64) = even (w_flips m (slot_index (bits_of s) q))"
    if "m \<in> set (word_history s w)"
    using each that assms(2) by (simp add: word_of_eq)
  show "m \<in> set (word_history s w) \<Longrightarrow> Wr q \<in> performed s \<Longrightarrow> shown_by (bits_of s) m q \<Longrightarrow> Wr q \<in> w_view m"
    using each assms(2) by blast
qed

text \<open>
  A slot's bit is at most one round ahead of a sequence that nobody has claimed the next round of. So
  in a value that has seen the round before, its parity tells whether the sequence is published.
\<close>

lemma flips_at_most:
  assumes "claims_inv s" "words_inv s" "0 \<le> q" "claimed s < q + laps s" "m \<in> set (word_history s (word_of (bits_of s) q))"
  shows "int (w_flips m (slot_index (bits_of s) q)) \<le> q div laps s + 1"
proof -
  have wf: "wf_mp (bits_of s)" using assms(2) by (simp add: words_inv_def)
  have "\<not> is_published s (q + laps s)" using claims_published_le [OF assms(1)] assms(4) by force
  then have "\<not> shown_by (bits_of s) (last (word_history s (word_of (bits_of s) q))) (q + laps s)"
    using assms(3) by (simp add: is_published_def slot_index_lap [OF wf] del: of_nat_Suc)
  then show ?thesis
    using word_facts(4) [OF assms(2) refl assms(5), of "slot_index (bits_of s) q"]
    by (simp add: shown_by_def slot_index_lap [OF wf] del: of_nat_Suc)
qed

lemma shown_parity:
  assumes "claims_inv s" "words_inv s" "0 \<le> q" "claimed s < q + laps s" "m \<in> set (word_history s (word_of (bits_of s) q))"
    and before: "q div laps s \<le> int (w_flips m (slot_index (bits_of s) q))"
  shows "bit (w_value m) (slot_index (bits_of s) q mod 64) = odd (q div laps s) \<longleftrightarrow> shown_by (bits_of s) m q"
proof -
  let ?f = "w_flips m (slot_index (bits_of s) q)"
  have "int ?f = q div laps s \<or> int ?f = q div laps s + 1" using flips_at_most [OF assms(1-5)] before by linarith
  then have "even ?f = odd (q div laps s) \<longleftrightarrow> q div laps s < int ?f"
    by (metis even_of_nat even_plus_one_iff less_add_one less_irrefl)
  with word_facts(5) [OF assms(2) refl assms(5)] show ?thesis by (simp add: shown_by_def del: of_nat_Suc)
qed

lemma shown_by_mono:
  "words_inv s \<Longrightarrow> shown_by (bits_of s) (word_history s (word_of (bits_of s) q) ! i) q \<Longrightarrow> i \<le> j \<Longrightarrow>
   j < length (word_history s (word_of (bits_of s) q)) \<Longrightarrow>
   shown_by (bits_of s) (word_history s (word_of (bits_of s) q) ! j) q"
  using word_facts(3) [of s _ q i j "slot_index (bits_of s) q"] by (force simp: shown_by_def)

lemma shown_by_published:
  assumes "words_inv s" "0 \<le> q" "m \<in> set (word_history s (word_of (bits_of s) q))" "shown_by (bits_of s) m q"
  shows "is_published s q"
  using word_facts(4) [OF assms(1) refl assms(3), of "slot_index (bits_of s) q"] assms(2,4)
  by (auto simp: is_published_def shown_by_def)

lemma good_published:
  assumes "words_inv s" "good s x v" "0 \<le> q" "q \<le> v"
  shows "is_published s q"
proof -
  have "wf_mp (bits_of s)" using assms(1) by (simp add: words_inv_def)
  then have "x (word_of (bits_of s) q) < length (word_history s (word_of (bits_of s) q))"
    using assms(2) word_of_less [of "bits_of s" q] by (simp add: good_def)
  moreover have "shown_by (bits_of s) (word_history s (word_of (bits_of s) q) ! x (word_of (bits_of s) q)) q"
    using assms(2-4) by (simp add: good_def)
  ultimately show ?thesis using shown_by_published [OF assms(1,3)] nth_mem by blast
qed

lemma good_mono: "good s x v \<Longrightarrow> w \<le> v \<Longrightarrow> good s x w"
  by (simp add: good_def)

text \<open>A thread that has seen all before a sequence tells from any later value whether it is published.\<close>

lemma seen_parity:
  assumes inv: "claims_inv s" "words_inv s" and q: "0 \<le> q" "claimed s < q + laps s" "good s x (q - 1)"
    and r: "q \<le> r" "r < q + laps s" and i: "x (word_of (bits_of s) r) \<le> i" "i < length (word_history s (word_of (bits_of s) r))"
  defines "m \<equiv> word_history s (word_of (bits_of s) r) ! i"
  shows "bit (w_value m) (slot_index (bits_of s) r mod 64) = odd (r div laps s) \<longleftrightarrow> shown_by (bits_of s) m r"
proof (rule shown_parity [OF inv])
  have wf: "wf_mp (bits_of s)" using inv by (simp add: words_inv_def)
  show "0 \<le> r" "claimed s < r + laps s" "m \<in> set (word_history s (word_of (bits_of s) r))"
    using q r i by (auto simp: m_def)
  show "r div laps s \<le> int (w_flips m (slot_index (bits_of s) r))"
  proof (cases "r < laps s")
    case True
    then show ?thesis using \<open>0 \<le> r\<close> by simp
  next
    case False
    let ?p = "r - laps s"
    have p: "0 \<le> ?p" "?p \<le> q - 1" using False r by auto
    note lap = slot_index_lap [OF wf, of ?p]
    have "shown_by (bits_of s) (word_history s (word_of (bits_of s) ?p) ! x (word_of (bits_of s) ?p)) ?p"
      using q(3) p by (simp add: good_def)
    then have "shown_by (bits_of s) m ?p"
      using shown_by_mono [OF inv(2), of ?p _ i] lap(2) i by (simp add: m_def)
    then show ?thesis using lap by (simp add: shown_by_def del: of_nat_Suc)
  qed
qed

lemma bits_look_sound:
  assumes inv: "claims_inv s" "words_inv s" and q: "0 \<le> q" "claimed s < q + laps s" "good s x (q - 1)"
    and look: "bits_look s q x found V x'"
  shows "found < front s \<and> before (performed s) {} found \<subseteq> before (performed s) {} (q - 1) \<union> V
    \<and> (q \<le> found \<longrightarrow> good s x' found)"
proof -
  let ?b = "bits_of s"
  let ?W = "length (available ?b)"
  have wf: "wf_mp ?b" using inv by (simp add: words_inv_def)
  from look obtain ix where ix: "\<And>w. w < ?W \<Longrightarrow> x w \<le> ix 0 w"
      "\<And>w t. w < ?W \<Longrightarrow> ix t w \<le> ix (Suc t) w" "\<And>w t. w < ?W \<Longrightarrow> ix t w < length (word_history s w)"
    and scan: "mp_get_after_loads ?b (\<lambda>t. map (\<lambda>w. w_value (word_history s w ! ix t w)) [0..<?W]) q = Some found"
    and V: "V = (\<Union>r\<in>{q..found + 1}. w_view (word_history s (word_of ?b r) ! ix (load_of q r) (word_of ?b r)))"
    and x': "x' = ix (load_of q (found + 1))"
    unfolding bits_look_def Let_def by blast
  define loads where "loads = (\<lambda>t. map (\<lambda>w. w_value (word_history s w ! ix t w)) [0..<?W])"
  define m where "m = (\<lambda>t r. word_history s (word_of ?b r) ! ix t (word_of ?b r))"
  have W: "word_of ?b r < ?W" for r using word_of_less [OF wf] .
  have later: "ix t w \<le> ix t' w" if "w < ?W" "t \<le> t'" for t t' w
    by (rule lift_Suc_mono_le [of "\<lambda>t. ix t w"]) (use ix(2) that in auto)
  have above: "x w \<le> ix t w" if "w < ?W" for t w
    using ix(1) [OF that] later [OF that, of 0 t] by simp
  have mem: "m t r \<in> set (word_history s (word_of ?b r))" for t r
    unfolding m_def using ix(3) [OF W] by simp
  have grow: "shown_by ?b (m t r) r \<Longrightarrow> t \<le> t' \<Longrightarrow> shown_by ?b (m t' r) r" for t t' r
    unfolding m_def using shown_by_mono [OF inv(2)] later [OF W] ix(3) [OF W] by blast
  have shown: "mp_shown ?b (loads t) r \<longleftrightarrow> shown_by ?b (m t r) r" if "q \<le> r" "r < q + laps s" for t r
    using seen_parity [OF inv q that above [OF W] ix(3) [OF W], of t] W
    by (simp add: mp_shown_def mp_bit_def loads_def m_def word_of_eq)
  have prefix: "is_published s r" if "0 \<le> r" "r \<le> q - 1" for r
    by (rule good_published [OF inv(2) q(3) that])
  have C: "claimed s + 1 < 2 ^ 62" and N: "0 < laps s" "laps s \<le> 2 ^ 62"
    using inv wf_ring_capacity [of "ring_buffer (shared s)"] by (auto simp: claims_inv_def words_inv_def)
  have "q - 1 \<le> claimed s"
    using prefix [of "q - 1"] claims_published_le [OF inv(1), of "q - 1"] inv(1) q(1) by (cases "q = 0") (auto simp: claims_inv_def)
  then have bound: "q + laps s < 2 ^ 63" using C N by simp
  have run: "found = q - 1 \<or> (\<forall>r. q \<le> r \<and> r \<le> found \<longrightarrow> shown_by ?b (m (load_of q r) r) r)"
  proof (cases "mp_shown ?b (loads 0) q")
    case False
    then have "mp_get_after_loads ?b loads q = Some (q - 1)"
      using wf q bound N by (intro mp_get_after_blocked) auto
    with scan show ?thesis by (simp add: loads_def)
  next
    case True
    have top: "\<not> mp_shown ?b (loads t) (q + laps s)" for t
    proof -
      have "shown_by ?b (m t q) q" using True shown [of q 0] N grow [of 0 q t] by simp
      then have "bit (w_value (m t q)) (slot_index ?b q mod 64) = odd (q div laps s)"
        using shown [of q t] N W [of q] by (simp add: mp_shown_def mp_bit_def loads_def m_def word_of_eq)
      then show ?thesis
        using W [of q] by (simp add: mp_shown_def mp_bit_def loads_def m_def word_of_eq slot_index_lap [OF wf] del: of_nat_Suc)
    qed
    have "\<forall>t r. q \<le> r \<and> r \<le> q + laps s \<and> mp_shown ?b (loads t) r \<longrightarrow> r \<in> {r. r \<noteq> q + laps s}"
      using top by auto
    from mp_get_after_interfered [OF wf this] q bound N
    obtain r where r: "mp_get_after_loads ?b loads q = Some r" "r < q + laps s"
      "\<forall>t. q \<le> t \<and> t \<le> r \<longrightarrow> mp_shown ?b (loads (load_of q t)) t" by auto
    with scan have "r = found" by (simp add: loads_def)
    with r shown show ?thesis by auto
  qed
  have "is_published s r" if "0 \<le> r" "r \<le> found" for r
  proof (cases "r < q")
    case True
    with prefix [OF that(1)] show ?thesis by simp
  next
    case False
    with run that have "shown_by ?b (m (load_of q r) r) r" by auto
    then show ?thesis by (rule shown_by_published [OF inv(2) that(1) mem])
  qed
  then have below: "found < front s" using front_least(1,3) [OF inv(1)] by (metis linorder_not_le)
  have "before (performed s) {} found \<subseteq> before (performed s) {} (q - 1) \<union> V"
  proof
    fix y assume "y \<in> before (performed s) {} found"
    then obtain r where r: "y = Wr r" "Wr r \<in> performed s" "r \<le> found" by (auto simp: before_def split: access.splits)
    show "y \<in> before (performed s) {} (q - 1) \<union> V"
    proof (cases "r \<le> q - 1")
      case True
      with r show ?thesis by (simp add: before_def)
    next
      case False
      with run r have "shown_by ?b (m (load_of q r) r) r" by auto
      then have "y \<in> w_view (m (load_of q r) r)" using word_facts(6) [OF inv(2) refl mem] r by simp
      moreover have "r \<in> {q..found + 1}" using False r by simp
      ultimately show ?thesis unfolding V m_def by blast
    qed
  qed
  moreover have "good s x' found" if "q \<le> found"
    unfolding good_def
  proof (intro conjI allI impI)
    show "x' w < length (word_history s w)" if "w < ?W" for w using ix(3) [OF that] by (simp add: x')
    fix r assume r: "0 \<le> r \<and> r \<le> found"
    have last: "shown_by ?b (m (load_of q (found + 1)) r) r"
    proof (cases "r \<le> q - 1")
      case True
      then have "shown_by ?b (word_history s (word_of ?b r) ! x (word_of ?b r)) r" using q(3) r by (simp add: good_def)
      then show ?thesis
        unfolding m_def using shown_by_mono [OF inv(2)] above [OF W] ix(3) [OF W] by blast
    next
      case False
      then have "shown_by ?b (m (load_of q r) r) r" using run r by auto
      moreover have "load_of q r \<le> load_of q (found + 1)"
        using r unfolding load_of_def by (intro nat_mono diff_right_mono zdiv_mono1) auto
      ultimately show ?thesis by (rule grow)
    qed
    then show "shown_by ?b (word_history s (word_of ?b r) ! x' (word_of ?b r)) r" by (simp add: m_def x')
  qed
  ultimately show ?thesis using below by blast
qed

text \<open>On the newest values it finds everything.\<close>

lemma bits_look_newest:
  assumes inv: "claims_inv s" "words_inv s" and q: "0 \<le> q" "claimed s < q + laps s" "good s x (q - 1)"
  shows "\<exists>found. mp_get_after (bits_of s) q = Some found \<and> front s - 1 \<le> found
    \<and> bits_look s q x found
        (\<Union>r\<in>{q..found + 1}. w_view (last (word_history s (word_of (bits_of s) r))))
        (\<lambda>w. length (word_history s w) - 1)"
proof -
  let ?b = "bits_of s"
  let ?W = "length (available ?b)" and ?ix = "\<lambda>t w. length (word_history s w) - 1"
  have wf: "wf_mp ?b" using inv by (simp add: words_inv_def)
  have N: "0 < laps s" "laps s \<le> 2 ^ 62" and C: "claimed s + 1 < 2 ^ 62"
    using inv wf_ring_capacity [of "ring_buffer (shared s)"] by (auto simp: claims_inv_def words_inv_def)
  have "q - 1 \<le> claimed s"
    using good_published [OF inv(2) q(3), of "q - 1"] claims_published_le [OF inv(1), of "q - 1"] inv(1) q(1)
    by (cases "q = 0") (auto simp: claims_inv_def)
  then have "q + laps s < 2 ^ 63" using C N by simp
  moreover have "-1 \<le> q" using q(1) by simp
  ultimately obtain found where found: "mp_get_after ?b q = Some found" "q - 1 \<le> found" "found < q + laps s"
    "\<not> mp_available ?b (found + 1)"
    using mp_get_after_exact [OF wf, of q] by blast
  have ne: "word_history s w \<noteq> []" and newest: "w_value (word_history s w ! (length (word_history s w) - 1)) = available ?b ! w"
    if "w < ?W" for w
    using inv(2) that by (auto simp: words_inv_def last_conv_nth)
  have "map (\<lambda>w. w_value (word_history s w ! (length (word_history s w) - 1))) [0..<?W] = available ?b"
    by (intro nth_equalityI) (simp_all only: length_map length_upt nth_map nth_upt newest diff_zero add_0)
  then have scan: "mp_get_after_loads ?b (\<lambda>t. map (\<lambda>w. w_value (word_history s w ! ?ix t w)) [0..<?W]) q = Some found"
    using found(1) by (simp add: mp_get_after_def)
  have "x w \<le> length (word_history s w) - 1" if "w < ?W" for w using q(3) that by (force simp: good_def)
  with ne have "\<forall>w < ?W. x w \<le> ?ix 0 w \<and> (\<forall>t. ?ix t w \<le> ?ix (Suc t) w \<and> ?ix t w < length (word_history s w))"
    by simp
  moreover have "(\<Union>r\<in>{q..found + 1}. w_view (last (word_history s (word_of ?b r)))) =
      (\<Union>r\<in>{q..found + 1}. w_view (word_history s (word_of ?b r) ! ?ix (load_of q r) (word_of ?b r)))"
    using ne [OF word_of_less [OF wf]] by (simp add: last_conv_nth)
  ultimately have "bits_look s q x found
      (\<Union>r\<in>{q..found + 1}. w_view (last (word_history s (word_of ?b r)))) (\<lambda>w. length (word_history s w) - 1)"
    unfolding bits_look_def Let_def using scan by (intro exI [of _ ?ix]) simp
  moreover have "front s - 1 \<le> found"
  proof (rule ccontr)
    assume "\<not> front s - 1 \<le> found"
    then have pub: "is_published s (found + 1)" using front_least(2) [OF inv(1), of "found + 1"] found(2) q(1) by simp
    then have r: "q \<le> found + 1" "found + 1 < q + laps s"
      using claims_published_le [OF inv(1) pub] found(2) q(2) by auto
    note W = word_of_less [OF wf, of "found + 1"]
    have "x (word_of ?b (found + 1)) \<le> length (word_history s (word_of ?b (found + 1))) - 1"
      using q(3) W by (force simp: good_def)
    from seen_parity [OF inv q r this] ne [OF W] newest [OF W] pub found(4) show False
      by (auto simp: mp_available_def mp_shown_def mp_bit_def word_of_eq is_published_def last_conv_nth)
  qed
  ultimately show ?thesis using found(1) by blast
qed

lemma owned_live: "owned (h_phase h) \<noteq> {} \<Longrightarrow> live h"
  by (cases "h_phase h") (auto simp: live_def)

lemma no_handle_left:
  assumes "claims_inv s" "count_inv s" "live_count (shared s) = 0" "lost s = {}"
  shows "front s = claimed s + 1"
proof (rule front_unique [OF assms(1)])
  have "\<not> live (handles s k)" for k using assms(2,3) by (auto simp: count_inv_def)
  then have "owned (h_phase (handles s k)) = {}" for k using owned_live by blast
  then have "is_published s q \<longleftrightarrow> 0 \<le> q \<and> q \<le> claimed s" for q using assms(1,4) by (auto simp: claims_inv_def)
  then show "\<not> is_published s (claimed s + 1)" "\<forall>q. 0 \<le> q \<and> q < claimed s + 1 \<longrightarrow> is_published s q" by simp_all
  show "0 \<le> claimed s + 1" using assms(1) by (auto simp: claims_inv_def)
qed

interpretation mpmc: live_source "\<lambda>s. claims_inv s \<and> words_inv s \<and> writes_inv s \<and> count_inv s" bits_look good front
  "\<lambda>s. claimed s - laps s" performed "\<lambda>s. ring_buffer (shared s)" event_at shutdown_history
  complete
proof unfold_locales
  fix s :: "'a mp_system" and q found :: sequence and x x' V v w m
  assume ok: "claims_inv s \<and> words_inv s \<and> writes_inv s \<and> count_inv s"
  show "found < front s \<and> before (performed s) {} found \<subseteq> before (performed s) {} (q - 1) \<union> V
      \<and> (q \<le> found \<longrightarrow> good s x' found)"
    if "0 \<le> q" "claimed s - laps s < q" "good s x (q - 1)" "bits_look s q x found V x'"
    using ok that by (intro bits_look_sound) auto
  show "ring_read (ring_buffer (shared s)) q = event_at s q"
    if "0 \<le> q" "claimed s - laps s < q" "q < front s"
    using ok that front_least(2) [of s q] by (simp add: writes_inv_def)
  show "0 \<le> front s \<and> front s < 2 ^ 62" using ok front_least(3,4) [of s] by (auto simp: claims_inv_def)
  show "m = -1 \<or> front s \<le> m \<and> (m = front s \<longrightarrow> complete s)" if m: "m \<in> set (shutdown_history s)"
  proof (cases "m = -1")
    case False
    then have end_mark: "m = claimed s + 1" "live_count (shared s) = 0" using ok m by (auto simp: count_inv_def split: if_splits)
    have "lost s = {}" if "claimed s + 1 = front s"
      using ok that lost_front [of s] by fastforce
    with end_mark show ?thesis using ok front_least(4) [of s] by auto
  qed simp
  show "\<exists>found V x'. bits_look s q x found V x' \<and> front s - 1 \<le> found"
    if "0 \<le> q" "claimed s - laps s < q" "q \<le> front s" "good s x (q - 1)"
    using bits_look_newest [of s q x] ok that by auto
  show "front s \<in> set (shutdown_history s)" if "complete s"
    using ok that no_handle_left [of s] by (auto simp: count_inv_def)
qed (rule good_mono)

section \<open>The invariant holds at the start\<close>

lemma new_bits_set:
  assumes "mp_barrier_new n = Inr b" "i div 64 < length (available b)"
  shows "bit (available b ! (i div 64)) (i mod 64)"
proof -
  have "available b = map (\<lambda>_. NOT 0) [0..<length (available b)]"
    using assms(1) by (auto simp: mp_barrier_new_def Let_def split: if_splits)
  then have "available b ! (i div 64) = NOT 0" using assms(2) by (metis (no_types, lifting) length_map nth_map)
  then show ?thesis by (simp add: bit_not_iff)
qed

lemma mp_inv_init:
  assumes fresh: "mp_fresh p \<sigma>" and wf: "wf_config cfg (consumer_barrier p)"
  shows "mp_inv cfg (consumer_barrier p) (mp_init p \<sigma>)"
proof -
  let ?s = "mp_init p \<sigma>" and ?b = "producer_barrier \<sigma>"
  have ring: "wf_ring (ring_buffer \<sigma>)" and new: "mp_barrier_new (length (slots (ring_buffer \<sigma>))) = Inr ?b"
    and clear: "sequence_clear_of_consumers p = capacity (ring_buffer \<sigma>) - 1" and count: "live_count \<sigma> = 1"
    using fresh by (simp_all add: mp_fresh_def)
  note b = mp_barrier_new_wf [OF new] ring [unfolded wf_ring_def]
  have size: "mp_size ?b = capacity (ring_buffer \<sigma>)" and wfb: "wf_mp ?b" and cur: "mp_current ?b = -1"
    using b by (simp_all add: NONE_def)
  have pub: "\<not> is_published ?s q" for q
    by (auto simp: is_published_def shown_by_def mp_init_def not_less pos_imp_zdiv_nonneg_iff)
  have front: "front ?s = 0" by (simp add: front_def pub)
  have none: "owned (h_phase (handles ?s k)) = {}" for k by (simp add: mp_init_def)
  have ones: "bit (available ?b ! (i div 64)) (i mod 64)" if "i div 64 < length (available ?b)" for i
    by (rule new_bits_set [OF new that])
  have "claims_inv ?s" using pub none by (simp add: claims_inv_def) (simp add: mp_init_def cur NONE_def)
  moreover have "words_inv ?s" using ring wfb size ones by (auto simp: words_inv_def mp_init_def simp del: of_nat_Suc)
  moreover have "writes_inv ?s" using pub by (simp add: writes_inv_def) (simp add: mp_init_def)
  moreover have "count_inv ?s"
  proof -
    have "{k. live (handles ?s k)} = {0}" by (auto simp: mp_init_def live_def)
    then show ?thesis by (simp add: count_inv_def) (simp add: mp_init_def count cur NONE_def live_def)
  qed
  moreover have "handle_inv cfg (consumer_barrier p) ?s (handles ?s k)" for k
    using cur clear size
    by (auto simp: handle_inv_def mp_init_def NONE_def room_for_def done_upto_def consumer_init_def before_def
        simp del: of_nat_Suc)
  moreover have "room_for cfg ?s (claimed ?s)"
    using cur size by (auto simp: room_for_def mp_init_def done_upto_def consumer_init_def NONE_def)
  moreover have "mp_crew cfg ?s"
  proof -
    have "good ?s (\<lambda>_. 0) (-1)" by (auto simp: good_def mp_init_def)
    then have "crew_inv cfg (good ?s) (\<lambda>_. consumer_init (\<lambda>_. 0)) {} 0 (event_at ?s) False"
      by (rule crew_inv_init [of "good ?s"])
    then show ?thesis using front by (simp add: mp_crew_def) (simp add: mp_init_def count)
  qed
  ultimately show ?thesis using wf by (simp add: mp_inv_def)
qed

end
