(* ===== verification/Mpmc_Steps.thy ===== *)
theory Mpmc_Steps
  imports Mpmc_System
begin

text \<open>
  Every step of the running multi-producer disruptor keeps the invariant of \<open>Mpmc_System\<close>: the claim
  loop, the writes, one flip of an availability word, the life of the handles and the consumers.
\<close>

section \<open>Every step keeps it\<close>

lemma set_handle_simps [simp]:
  "shared (set_handle k h s) = shared s" "claim_history (set_handle k h s) = claim_history s"
  "mutex_seen (set_handle k h s) = mutex_seen s" "word_history (set_handle k h s) = word_history s"
  "shutdown_history (set_handle k h s) = shutdown_history s" "consumer_at (set_handle k h s) = consumer_at s"
  "performed (set_handle k h s) = performed s" "event_at (set_handle k h s) = event_at s" "lost (set_handle k h s) = lost s"
  "handles (set_handle k h s) j = (if j = k then h else handles s j)"
  by (simp_all add: set_handle_def)

lemma set_handle_published [simp]: "is_published (set_handle k h s) = is_published s"
  by (simp add: fun_eq_iff is_published_def)

lemma set_handle_front [simp]: "front (set_handle k h s) = front s"
  by (simp add: front_def)

lemma set_handle_good [simp]: "good (set_handle k h s) = good s"
  by (simp add: fun_eq_iff good_def)

lemma set_handle_crew [simp]: "mp_crew cfg (set_handle k h s) = mp_crew cfg s"
  by (simp add: mp_crew_def)

lemma set_handle_room [simp]: "room_for cfg (set_handle k h s) = room_for cfg s"
  by (simp add: fun_eq_iff room_for_def)

lemma set_handle_words [simp]: "words_inv (set_handle k h s) = words_inv s"
  by (simp add: words_inv_def)

lemma set_handle_phase [simp]: "phase_inv (set_handle k h s) g ph = phase_inv s g ph"
  by (cases ph) simp_all

lemma set_handle_handle [simp]: "handle_inv cfg gate (set_handle k h s) = handle_inv cfg gate s"
  by (simp add: fun_eq_iff handle_inv_def)

lemma mp_inv_parts:
  assumes "mp_inv cfg gate s"
  shows "wf_config cfg gate" "claims_inv s" "words_inv s" "writes_inv s" "count_inv s"
    "\<And>k. handle_inv cfg gate s (handles s k)" "room_for cfg s (claimed s)" "mp_crew cfg s"
    "wf_mp (bits_of s)" "wf_ring (ring_buffer (shared s))" "laps s = capacity (ring_buffer (shared s))"
    "-1 \<le> claimed s" "claimed s + 1 < 2 ^ 62"
  using assms by (auto simp: mp_inv_def words_inv_def claims_inv_def)

text \<open>A step of one handle that claims, writes and publishes nothing.\<close>

lemma mp_inv_quiet:
  assumes inv: "mp_inv cfg gate s" and h: "h = handles s k" and h': "handle_inv cfg gate s h'"
    and own: "owned (h_phase h') = owned (h_phase h)" "unwritten (h_phase h') \<subseteq> unwritten (h_phase h)"
    and live: "live h" "live h'" "h_seen h \<le> h_seen h'"
  shows "mp_inv cfg gate (set_handle k h' s)" (is "mp_inv cfg gate ?s")
proof -
  note p = mp_inv_parts [OF inv]
  have owned: "owned (h_phase (handles ?s j)) = owned (h_phase (handles s j))" for j
    using own h by simp
  have "claims_inv ?s" using p(2) unfolding claims_inv_def owned by simp
  moreover have "writes_inv ?s"
  proof -
    have "q \<in> owned (h_phase (handles ?s j)) - unwritten (h_phase (handles ?s j))"
      if "q \<in> owned (h_phase (handles s j)) - unwritten (h_phase (handles s j))" for q j
      using that own h by (cases "j = k") auto
    with p(4) show ?thesis
      unfolding writes_inv_def set_handle_simps(1-9) set_handle_published by blast
  qed
  moreover have "count_inv ?s"
  proof -
    have alive: "live (handles ?s j) = live (handles s j)" for j using live h by simp
    have "claimed s \<le> mutex_seen s \<or> (\<exists>j. live (handles ?s j) \<and> claimed s \<le> h_seen (handles ?s j))"
      using p(5) live(3) h unfolding count_inv_def alive by (metis order_trans set_handle_simps(10))
    with p(5) show ?thesis unfolding count_inv_def alive by simp
  qed
  moreover have "handle_inv cfg gate ?s (handles ?s j)" for j using p(6) h' by simp
  ultimately show ?thesis using p(1,3,7,8) by (simp add: mp_inv_def)
qed

lemma may_read_le: "claims_inv s \<Longrightarrow> may_read s h v \<Longrightarrow> v \<in> set (claim_history s) \<and> -1 \<le> v \<and> v \<le> claimed s \<and> h_seen h \<le> v"
  by (auto simp: may_read_def claims_inv_def)

lemma mp_inv_begin:
  assumes inv: "mp_inv cfg gate s" and h: "h = handles s k" "h_phase h = Free" and n: "n < 2 ^ 62" and v: "may_read s h v"
  shows "mp_inv cfg gate (set_handle k (h\<lparr>h_phase := Checking v n fs, h_seen := v\<rparr>) s)"
proof (rule mp_inv_quiet [OF inv h(1)])
  show "handle_inv cfg gate s (h\<lparr>h_phase := Checking v n fs, h_seen := v\<rparr>)"
    using mp_inv_parts(6) [OF inv, of k] h n may_read_le [OF mp_inv_parts(2) [OF inv] v]
    by (simp add: handle_inv_def live_def)
qed (use h v in \<open>simp_all add: live_def may_read_def\<close>)

lemma mp_inv_lose:
  assumes inv: "mp_inv cfg gate s" and h: "h = handles s k" "h_phase h = Racing cur n fs" and v: "may_read s h v"
  shows "mp_inv cfg gate (set_handle k (h\<lparr>h_phase := Checking v n fs, h_seen := v\<rparr>) s)"
proof (rule mp_inv_quiet [OF inv h(1)])
  show "handle_inv cfg gate s (h\<lparr>h_phase := Checking v n fs, h_seen := v\<rparr>)"
    using mp_inv_parts(6) [OF inv, of k] h may_read_le [OF mp_inv_parts(2) [OF inv] v]
    by (simp add: handle_inv_def live_def)
qed (use h v in \<open>simp_all add: live_def may_read_def\<close>)

lemma mp_inv_free:
  assumes inv: "mp_inv cfg gate s" and h: "h = handles s k"
    and phase: "(\<exists>cur n fs. h_phase h = Checking cur n fs) \<or> (\<exists>q u. h_phase h = Flipping q u \<and> \<not> q \<le> u)"
  shows "mp_inv cfg gate (set_handle k (h\<lparr>h_phase := Free\<rparr>) s)"
proof (rule mp_inv_quiet [OF inv h])
  show "handle_inv cfg gate s (h\<lparr>h_phase := Free\<rparr>)"
    using mp_inv_parts(6) [OF inv, of k] h phase by (auto simp: handle_inv_def live_def)
qed (use phase in \<open>auto simp: live_def\<close>)

text \<open>The fullness check, on arbitrarily old loads.\<close>

lemma check_room_cases:
  assumes inv: "mp_inv cfg gate s" and load: "may_load (consumer_at s) gate msgs" and gate: "consumer_barrier p = gate"
    and cur: "-1 \<le> cur" "cur < 2 ^ 62" "n < 2 ^ 62"
    and room: "mp_check_room gate_get_after (i64 (int n)) cur (i64 (cur + i64 (int n))) ((shared s)\<lparr>consumers := m\<rparr>) p = Inr p'"
    and m: "m = loaded msgs"
  obtains (fast) "p' = p" "cur + int n \<le> sequence_clear_of_consumers p" "i64 (cur + i64 (int n)) = cur + int n"
  | (slow) rear where "p' = p\<lparr>sequence_clear_of_consumers := rear + laps s\<rparr>" "i64 (cur + i64 (int n)) = cur + int n"
      "cur + int n \<le> rear + laps s" "sequence_clear_of_consumers p < cur + int n" "room_for cfg s (rear + laps s)"
      "before (performed s) (set (all_consumers cfg)) rear \<subseteq> acquired gate msgs"
proof -
  note parts = mp_inv_parts [OF inv]
  define rear where "rear = gate_get_after gate (loaded msgs) cur"
  have front: "front s < 2 ^ 62" using front_least(4) [OF parts(2)] parts(13) by simp
  note rear = gate_result [OF parts(8) [unfolded mp_crew_def] parts(1) load front rear_def]
  have N: "0 < laps s" "laps s \<le> 2 ^ 62" using wf_ring_capacity [OF parts(10)] wf_ring_pos [OF parts(10)] parts(11) by auto
  have "int n < 4611686018427387904" using cur(3) by simp
  then have wraps: "i64 (int n) = int n" "i64 (cur + i64 (int n)) = cur + int n"
    using cur by (auto simp: in_i64_iff intro!: i64_id)
  have free: "free_slots (ring_buffer (shared s)) cur rear = rear - cur + laps s"
    using cur rear(1,3) front N parts(11) by (subst free_slots_eq [OF parts(10)]) (auto simp: in_i64_iff)
  have sum: "i64 (rear + laps s) = rear + laps s"
    using rear(1,3) front N by (intro i64_id) (auto simp: in_i64_iff)
  have eq: "mp_check_room gate_get_after (int n) cur (cur + int n) ((shared s)\<lparr>consumers := m\<rparr>) p =
      (if sequence_clear_of_consumers p < cur + int n
       then if rear - cur + laps s < int n then Inl (EMissingFreeSlots (u64 (i64 (int n - (rear - cur + laps s)))))
         else Inr (p\<lparr>sequence_clear_of_consumers := rear + laps s\<rparr>)
       else Inr p)"
    unfolding mp_check_room_def Let_def by (simp add: gate m rear_def [symmetric] free sum del: of_nat_Suc)
  show thesis
  proof (cases "sequence_clear_of_consumers p < cur + int n")
    case False
    with room eq wraps fast show ?thesis by simp
  next
    case True
    with room eq wraps have "\<not> rear - cur + laps s < int n" "p' = p\<lparr>sequence_clear_of_consumers := rear + laps s\<rparr>"
      by (auto split: if_splits)
    with True rear(2,4) wraps show ?thesis
      by (intro slow [of rear]) (auto simp: room_for_def simp del: set_concat)
  qed
qed

lemma mp_inv_check:
  assumes inv: "mp_inv cfg gate s" and h: "h = handles s k" "h_phase h = Checking cur n fs" "p = h_producer h"
    and load: "may_load (consumer_at s) (consumer_barrier p) msgs"
    and room: "mp_check_room gate_get_after (i64 (int n)) cur (i64 (cur + i64 (int n)))
      ((shared s)\<lparr>consumers := loaded msgs\<rparr>) p = Inr p'"
  shows "mp_inv cfg gate (set_handle k (h\<lparr>h_producer := p', h_phase := Racing cur n fs,
      h_view := (if sequence_clear_of_consumers p < i64 (cur + i64 (int n))
        then h_view h \<union> acquired (consumer_barrier p) msgs else h_view h)\<rparr>) s)" (is "mp_inv cfg gate (set_handle k ?h s)")
proof (rule mp_inv_quiet [OF inv h(1)])
  note parts = mp_inv_parts [OF inv]
  have own: "handle_inv cfg gate s h" using parts(6) h(1) by simp
  have live: "live h" using h(2) by (simp add: live_def)
  have gate: "consumer_barrier p = gate" using own live h(3) by (simp add: handle_inv_def)
  have cur: "cur \<in> set (claim_history s)" "n < 2 ^ 62" using own h(2) by (simp_all add: handle_inv_def)
  then have b: "-1 \<le> cur" "cur < 2 ^ 62" using parts(2) by (force simp: claims_inv_def)+
  show "handle_inv cfg gate s ?h"
  proof (rule check_room_cases [OF inv load [unfolded gate] gate b cur(2) room refl], goal_cases)
    case 1
    then show ?thesis using own live h cur by (auto simp: handle_inv_def live_def simp del: set_concat)
  next
    case (2 rear)
    then show ?thesis using own live h cur gate by (auto simp: handle_inv_def live_def simp del: set_concat)
  qed
qed (use h in \<open>simp_all add: live_def\<close>)

lemma mp_inv_finish:
  assumes inv: "mp_inv cfg gate s" and h: "h = handles s k" "h_phase h = Writing fs it n"
    and upper: "upper = claimed_sequence (h_producer h)"
  shows "mp_inv cfg gate (set_handle k (h\<lparr>h_phase := Flipping (i64 (i64 (upper - i64 (int n)) + 1)) upper\<rparr>) s)"
    (is "mp_inv cfg gate (set_handle k ?h s)")
proof (rule mp_inv_quiet [OF inv h(1)])
  have own: "handle_inv cfg gate s h" using mp_inv_parts(6) [OF inv] h(1) by simp
  then have b: "n < 2 ^ 62" "last_sequence it + 1 < 2 ^ 62" "upper = last_sequence it" "0 \<le> last_sequence it - int n + 1"
    using h(2) upper by (auto simp: handle_inv_def)
  have "int n < 4611686018427387904" using b(1) by simp
  with b have lower: "i64 (i64 (upper - i64 (int n)) + 1) = last_sequence it - int n + 1"
    by (simp add: in_i64_iff i64_id)
  show "handle_inv cfg gate s ?h"
    using own h(2) b lower by (auto simp: handle_inv_def live_def simp del: set_concat)
  show "owned (h_phase ?h) = owned (h_phase h)" using h(2) b(3) lower by simp
qed (use h in \<open>simp_all add: live_def\<close>)

text \<open>A successful compare-exchange claims the next sequences.\<close>

lemma published_cong:
  "slot_mask (bits_of s') = slot_mask (bits_of s) \<Longrightarrow> word_history s' = word_history s \<Longrightarrow> is_published s' = is_published s"
  by (simp add: fun_eq_iff is_published_def shown_by_def word_of_eq slot_index_def)

lemma front_cong: "is_published s' = is_published s \<Longrightarrow> front s' = front s"
  by (simp add: front_def)

lemma good_cong:
  "slot_mask (bits_of s') = slot_mask (bits_of s) \<Longrightarrow> length (available (bits_of s')) = length (available (bits_of s)) \<Longrightarrow>
   word_history s' = word_history s \<Longrightarrow> good s' = good s"
  by (simp add: fun_eq_iff good_def shown_by_def word_of_eq slot_index_def)

lemma mp_inv_win:
  assumes inv: "mp_inv cfg gate s" and h: "h = handles s k" "h_phase h = Racing cur n fs"
    and bound: "cur + int n + 1 < 2 ^ 62"
    and cas: "mp_compare_exchange cur (i64 (cur + i64 (int n))) (bits_of s) = (Inr old, b)"
  defines "n_next \<equiv> i64 (cur + i64 (int n))"
  shows "mp_inv cfg gate (set_handle k (h\<lparr>h_producer := (h_producer h)\<lparr>claimed_sequence := n_next\<rparr>,
        h_phase := Writing fs (batch_iter_new (i64 (i64 (n_next - i64 (int n)) + 1)) n_next) n, h_seen := n_next\<rparr>)
      (s\<lparr>shared := (shared s)\<lparr>producer_barrier := b\<rparr>, claim_history := claim_history s @ [n_next]\<rparr>))"
    (is "mp_inv cfg gate (set_handle k ?h ?u)")
proof -
  let ?s = "set_handle k ?h ?u"
  note parts = mp_inv_parts [OF inv]
  have own: "handle_inv cfg gate s h" using parts(6) h(1) by simp
  then have n: "n < 2 ^ 62" "cur \<in> set (claim_history s)" "cur + int n \<le> sequence_clear_of_consumers (h_producer h)"
    using h(2) by (simp_all add: handle_inv_def)
  have live: "live h" using h(2) by (simp add: live_def)
  have cur: "-1 \<le> cur" using n(2) parts(2) by (auto simp: claims_inv_def)
  have "int n < 4611686018427387904" using n(1) by simp
  then have wraps: "n_next = cur + int n" "i64 (i64 (n_next - i64 (int n)) + 1) = cur + 1"
    using cur bound by (auto simp: n_next_def in_i64_iff i64_id)
  have claimed: "claimed s = cur" and b: "b = (bits_of s)\<lparr>mp_cursor := cursor_new (cur + int n)\<rparr>"
    using cas wraps(1) [unfolded n_next_def]
    by (auto simp: mp_compare_exchange_def compare_exchange_def mp_current_def relaxed_value_def cursor_new_def
        split_beta split: if_splits)
  then have claimed': "mp_current b = cur + int n" by (simp add: mp_current_def relaxed_value_def cursor_new_def)
  have pub: "is_published ?s = is_published s" by (rule published_cong) (simp_all add: b)
  have good: "good ?s = good s" by (rule good_cong) (simp_all add: b)
  have words: "wf_mp b = wf_mp (bits_of s)" "available b = available (bits_of s)" "slot_mask b = slot_mask (bits_of s)"
    "word_of b = word_of (bits_of s)" "shown_by b = shown_by (bits_of s)" "slot_index b = slot_index (bits_of s)"
    by (auto simp: b wf_mp_def fun_eq_iff word_of_eq slot_index_def shown_by_def)
  have owned: "owned (h_phase (handles ?s j)) = (if j = k then {cur + 1..cur + int n} else owned (h_phase (handles s j)))" for j
    by (simp add: wraps batch_iter_new_def)
  have old_k: "owned (h_phase (handles s k)) = {}" using h by simp
  have old: "q \<in> owned (h_phase (handles s j)) \<Longrightarrow> 0 \<le> q \<and> q \<le> cur" for q j
    using parts(2) claimed unfolding claims_inv_def by blast
  have "claims_inv ?s"
    unfolding claims_inv_def pub owned
  proof (intro conjI)
    show "\<forall>q. is_published s q \<or> (\<exists>j. q \<in> (if j = k then {cur + 1..cur + int n} else owned (h_phase (handles s j))))
        \<or> q \<in> lost ?s \<longleftrightarrow> 0 \<le> q \<and> q \<le> claimed ?s"
    proof
      fix q
      have "is_published s q \<or> (\<exists>j. q \<in> owned (h_phase (handles s j))) \<or> q \<in> lost s \<longleftrightarrow> 0 \<le> q \<and> q \<le> cur"
        using parts(2) claimed unfolding claims_inv_def by blast
      moreover have "(\<exists>j. q \<in> (if j = k then {cur + 1..cur + int n} else owned (h_phase (handles s j)))) \<longleftrightarrow>
          cur + 1 \<le> q \<and> q \<le> cur + int n \<or> (\<exists>j. q \<in> owned (h_phase (handles s j)))"
        using old_k by (auto split: if_split_asm)
      ultimately show "is_published s q \<or> (\<exists>j. q \<in> (if j = k then {cur + 1..cur + int n} else owned (h_phase (handles s j))))
          \<or> q \<in> lost ?s \<longleftrightarrow> 0 \<le> q \<and> q \<le> claimed ?s"
        using cur claimed' by auto
    qed
    show "\<forall>j q. q \<in> (if j = k then {cur + 1..cur + int n} else owned (h_phase (handles s j)))
        \<longrightarrow> \<not> is_published s q \<and> q \<notin> lost ?s"
    proof (intro allI impI)
      fix j q assume q: "q \<in> (if j = k then {cur + 1..cur + int n} else owned (h_phase (handles s j)))"
      show "\<not> is_published s q \<and> q \<notin> lost ?s"
      proof (cases "j = k")
        case True
        with q have "\<not> q \<le> claimed s" using claimed by simp
        then have "\<not> is_published s q \<and> q \<notin> lost s" using parts(2) unfolding claims_inv_def by blast
        then show ?thesis by simp
      next
        case False
        with q have "q \<in> owned (h_phase (handles s j))" by simp
        then have "\<not> is_published s q \<and> q \<notin> lost s" using parts(2) unfolding claims_inv_def by blast
        then show ?thesis by simp
      qed
    qed
    show "\<forall>j j'. j \<noteq> j' \<longrightarrow> (if j = k then {cur + 1..cur + int n} else owned (h_phase (handles s j)))
        \<inter> (if j' = k then {cur + 1..cur + int n} else owned (h_phase (handles s j'))) = {}"
      using parts(2) old by (force simp: claims_inv_def)
  qed (use parts(2) claimed claimed' cur bound wraps in \<open>auto simp: claims_inv_def\<close>)
  moreover have "words_inv ?s" using parts(3) by (simp add: words_inv_def words)
  moreover have "writes_inv ?s"
  proof -
    have "is_published s q \<or> (\<exists>j. q \<in> owned (h_phase (handles ?s j)) - unwritten (h_phase (handles ?s j)))
        \<or> q \<in> lost s"
      if wr: "Wr q \<in> performed s" for q
    proof -
      consider "is_published s q \<or> q \<in> lost s" | j where "q \<in> owned (h_phase (handles s j)) - unwritten (h_phase (handles s j))"
        using parts(4) wr unfolding writes_inv_def by blast
      then show ?thesis
      proof cases
        case (2 j)
        then have "j \<noteq> k" using old_k by auto
        with 2 have "q \<in> owned (h_phase (handles ?s j)) - unwritten (h_phase (handles ?s j))" by simp
        then show ?thesis by blast
      qed blast
    qed
    moreover have "ring_read (ring_buffer (shared s)) q = event_at s q"
      if "is_published s q" "claimed ?s - laps ?s < q" for q
      using that parts(4) claimed claimed' by (simp add: writes_inv_def words)
    ultimately show ?thesis unfolding writes_inv_def pub by simp
  qed
  moreover have "count_inv ?s"
  proof -
    have alive: "live (handles ?s j) = live (handles s j)" for j using live h(1) by (simp add: live_def)
    have "live_count (shared s) \<noteq> 0" using parts(5) live h(1) by (auto simp: count_inv_def)
    moreover have "\<exists>j. live (handles s j) \<and> claimed ?s \<le> h_seen (handles ?s j)"
      using live h(1) claimed' wraps(1) by (intro exI [of _ k]) simp
    ultimately show ?thesis
      using parts(5) claimed claimed' unfolding count_inv_def alive by simp blast
  qed
  moreover have "handle_inv cfg gate ?s (handles ?s j)" for j
  proof (cases "j = k")
    case True
    have "Wr q \<notin> performed s" if "cur < q" for q
      using written_claimed [OF parts(2,4), of q] claimed that by auto
    then show ?thesis
      using True own live claimed' bound cur n words wraps
      by (auto simp: handle_inv_def live_def batch_iter_new_def room_for_def simp del: set_concat)
  next
    case False
    have "phase_inv ?s (handles s j) ph" if "phase_inv s (handles s j) ph" for ph
      using that by (cases ph) auto
    moreover have "handle_inv cfg gate s (handles s j)" by (rule parts(6))
    ultimately show ?thesis
      using False claimed claimed' words by (auto simp: handle_inv_def room_for_def simp del: set_concat)
  qed
  moreover have "room_for cfg ?s (claimed ?s)"
    using own live n(3) claimed' words by (force simp: handle_inv_def room_for_def simp del: set_concat)
  moreover have "mp_crew cfg ?s"
    using parts(8) good front_cong [OF pub] by (simp add: mp_crew_def)
  ultimately show ?thesis using parts(1) by (simp add: mp_inv_def)
qed

text \<open>A slot whose next round is claimed has been passed by all consumers.\<close>

lemma room_front:
  assumes inv: "mp_inv cfg gate s" and room: "room_for cfg s v"
  shows "v - laps s < front s"
proof -
  note parts = mp_inv_parts [OF inv]
  obtain g where "g \<in> set (last (stages cfg))" using last_stage(3) [OF parts(1)] by (metis list.set_sel(1))
  moreover have "last (stages cfg) \<in> set (stages cfg)" using parts(1) by (simp add: wf_config_def)
  ultimately have g: "g \<in> set (all_consumers cfg)" by auto
  from crew_bounds [OF parts(8) [unfolded mp_crew_def] g] bspec [OF room [unfolded room_for_def] g]
  show ?thesis by simp
qed

lemma owned_front: "claims_inv s \<Longrightarrow> q \<in> owned (h_phase (handles s k)) \<Longrightarrow> front s \<le> q \<and> q \<le> claimed s"
  using front_le [of s q] unfolding claims_inv_def by blast

lemma owned_apart: "claims_inv s \<Longrightarrow> q \<in> owned (h_phase (handles s k)) \<Longrightarrow> q \<in> owned (h_phase (handles s j)) \<Longrightarrow> j = k"
  unfolding claims_inv_def by blast

lemma crew_grow:
  assumes crew: "mp_crew cfg s" and "consumer_at s' = consumer_at s" and front: "front s \<le> front s'"
    and "complete s \<Longrightarrow> complete s' \<and> front s' = front s"
    and "\<forall>q < front s. 0 \<le> q \<longrightarrow> event_at s' q = event_at s q" "\<forall>x v. good s x v \<longrightarrow> good s' x v"
    and "performed s' = performed s \<or> (\<exists>q \<ge> front s. performed s' = insert (Wr q) (performed s))"
  shows "mp_crew cfg s'"
  unfolding mp_crew_def assms(2)
  by (rule crew_inv_grow [OF crew [unfolded mp_crew_def] front]) (use assms(4-) in simp_all)

lemma mp_inv_fill:
  assumes inv: "mp_inv cfg gate s" and h: "h = handles s k" "h_phase h = Writing (f # fs) it n"
    and next_item: "batch_iter_next (ring_buffer (shared s)) it = (Some slot, it')"
  shows "mp_inv cfg gate (set_handle k (h\<lparr>h_phase := Writing fs it' n, h_view := insert (Wr (current it)) (h_view h)\<rparr>)
      (s\<lparr>shared := (shared s)\<lparr>ring_buffer := update_at (ring_buffer (shared s)) slot f\<rparr>,
        performed := insert (Wr (current it)) (performed s)\<rparr>))" (is "mp_inv cfg gate (set_handle k ?h ?u)")
proof -
  let ?s = "set_handle k ?h ?u" and ?q = "current it" and ?rb = "ring_buffer (shared s)"
  note parts = mp_inv_parts [OF inv]
  have own: "handle_inv cfg gate s h" using parts(6) h(1) by simp
  have live: "live h" using h(2) by (simp add: live_def)
  have it: "n < 2 ^ 62" "last_sequence it + 1 < 2 ^ 62" "last_sequence it - int n + 1 \<le> ?q" "0 \<le> last_sequence it - int n + 1"
    using own h(2) by (simp_all add: handle_inv_def)
  have q: "?q \<le> last_sequence it" "slot = ring_get ?rb ?q" "it' = it\<lparr>current := i64 (?q + 1)\<rparr>"
    using next_item by (auto simp: batch_iter_next_def split: if_splits)
  have wrap: "i64 (?q + 1) = ?q + 1" using it q by (intro i64_id) (simp add: in_i64_iff)
  have mine: "?q \<in> owned (h_phase (handles s k))" using h it q by simp
  then have unpub: "\<not> is_published s ?q" and low: "front s \<le> ?q" "?q \<le> claimed s" "0 \<le> ?q"
    using parts(2) owned_front [OF parts(2)] front_least(3) [OF parts(2)] unfolding claims_inv_def by (blast, force+)
  have pub: "is_published ?s = is_published s" by (rule published_cong) simp_all
  have good: "good ?s = good s" by (rule good_cong) simp_all
  have owned: "owned (h_phase (handles ?s j)) = owned (h_phase (handles s j))" for j
    using h q(3) by simp
  have "claims_inv ?s" using parts(2) unfolding claims_inv_def pub owned by simp
  moreover have "words_inv ?s"
  proof -
    have "Wr r \<in> w_view m" if "Wr r \<in> insert (Wr ?q) (performed s)" "m \<in> set (word_history s (word_of (bits_of s) r))"
      "shown_by (bits_of s) m r" for r m
      using that word_facts(6) [OF parts(3) refl that(2)] shown_by_published [OF parts(3) low(3), of m] unpub by auto
    with parts(3) show ?thesis unfolding words_inv_def by simp
  qed
  moreover have "writes_inv ?s"
  proof -
    have "is_published s r \<or> (\<exists>j. r \<in> owned (h_phase (handles ?s j)) - unwritten (h_phase (handles ?s j)))
        \<or> r \<in> lost s"
      if wr: "Wr r \<in> insert (Wr ?q) (performed s)" for r
    proof -
      have mono: "unwritten (h_phase (handles ?s j)) \<subseteq> unwritten (h_phase (handles s j)) - {?q}" for j
      proof (cases "j = k")
        case True
        then show ?thesis using h q(3) wrap by auto
      next
        case False
        then have "?q \<notin> owned (h_phase (handles s j))" using owned_apart [OF parts(2) mine] by blast
        moreover have "unwritten (h_phase (handles s j)) \<subseteq> owned (h_phase (handles s j))"
          using parts(6) [of j] by (cases "h_phase (handles s j)") (auto simp: handle_inv_def)
        ultimately show ?thesis using False by auto
      qed
      show ?thesis
      proof (cases "r = ?q")
        case True
        then show ?thesis using mine mono [of k] unfolding owned by blast
      next
        case False
        then have "Wr r \<in> performed s" using wr by simp
        with parts(4) mono show ?thesis unfolding writes_inv_def owned by blast
      qed
    qed
    moreover have "ring_read (update_at ?rb slot f) r = event_at s r" if r: "is_published s r" "claimed s - laps s < r" for r
    proof -
      have "r \<le> claimed s" "r \<noteq> ?q" using claims_published_le [OF parts(2) r(1)] unpub r(1) by auto
      moreover have "claimed s - laps s < ?q" using room_front [OF inv parts(7)] low(1) by simp
      ultimately have "\<bar>?q - r\<bar> < laps s" "?q \<noteq> r" using low(2) r(2) by linarith+
      then have "?q mod laps s \<noteq> r mod laps s" using mod_window_inj [of ?q "laps s" r] by blast
      then show ?thesis
        using parts(4) r parts(11) ring_read_update [OF parts(10), of ?q f r] q(2) by (simp add: writes_inv_def)
    qed
    ultimately show ?thesis unfolding writes_inv_def pub by simp
  qed
  moreover have "count_inv ?s"
  proof -
    have alive: "live (handles ?s j) = live (handles s j)" "h_seen (handles ?s j) = h_seen (handles s j)" for j
      using live h(1) by (simp_all add: live_def)
    show ?thesis using parts(5) unfolding count_inv_def alive by simp
  qed
  moreover have "handle_inv cfg gate ?s (handles ?s j)" for j
  proof -
    have hj: "handle_inv cfg gate s (handles s j)" by (rule parts(6))
    have view: "before (insert (Wr ?q) (performed s)) A (v - laps s) = before (performed s) A (v - laps s)"
      if "room_for cfg s v" for v A
      using room_front [OF inv that] low(1) by (intro before_insert_Wr) simp
    have mono: "phase_inv ?s (handles s j) ph" if "phase_inv s (handles s j) ph" for ph
      using that by (cases ph) auto
    show ?thesis
    proof (cases "j = k")
      case True
      have "room_for cfg s (sequence_clear_of_consumers (h_producer h))"
        "before (performed s) (set (all_consumers cfg)) (sequence_clear_of_consumers (h_producer h) - laps s) \<subseteq> h_view h"
        using own live by (simp_all add: handle_inv_def del: of_nat_Suc)
      with True own live h(2) it q(1,3) wrap view
      show ?thesis by (auto simp: handle_inv_def live_def room_for_def simp del: set_concat of_nat_Suc)
    next
      case False
      then have apart: "?q \<notin> owned (h_phase (handles s j))" using owned_apart [OF parts(2) mine] by blast
      show ?thesis
        using False hj mono apart view
        by (auto simp: handle_inv_def room_for_def simp del: set_concat of_nat_Suc)
    qed
  qed
  moreover have "room_for cfg ?s (claimed ?s)" using parts(7) by (simp add: room_for_def)
  moreover have "mp_crew cfg ?s"
    by (rule crew_grow [OF parts(8)]) (use good front_cong [OF pub] low(1) in auto)
  ultimately show ?thesis using parts(1) by (simp add: mp_inv_def)
qed

text \<open>One flip publishes exactly the sequences of its part of the word.\<close>

lemma word_end_bounds:
  assumes "q \<le> upper"
  shows "q \<le> word_end q upper" "word_end q upper \<le> upper" "t \<in> {q..word_end q upper} \<Longrightarrow> t div 64 = q div 64"
proof -
  have m: "0 \<le> q mod 64" "q mod 64 < 64" "q = 64 * (q div 64) + q mod 64" by simp_all
  show "q \<le> word_end q upper" "word_end q upper \<le> upper" using m(2) assms by (auto simp: word_end_def)
  assume "t \<in> {q..word_end q upper}"
  then have "q \<le> t" "t \<le> q - q mod 64 + 63" by (auto simp: word_end_def)
  then have "64 * (q div 64) \<le> t" "t < 64 * (q div 64) + 64" using m by linarith+
  then show "t div 64 = q div 64" by (intro int_div_pos_eq [where r = "t - 64 * (q div 64)"]) auto
qed

lemma word_of_div:
  assumes "wf_mp b"
  shows "int (word_of b t) = (t div 64) mod (mp_size b div 64)"
proof -
  from assms obtain k where k: "6 \<le> k" "Suc (slot_mask b) = 2 ^ k" by (rule wf_mp_exp)
  from le_imp_power_dvd [OF k(1), of "2::int"] have "64 dvd mp_size b" using k(2) by simp
  then obtain c where c: "mp_size b = 64 * c" ..
  then have "0 < c" by (smt (verit) of_nat_0_less_iff zero_less_Suc)
  have "int (word_of b t) = (t mod mp_size b) div 64"
    by (simp add: word_of_eq slot_index_mod [OF assms] zdiv_int del: of_nat_Suc)
  also have "\<dots> = (t div 64) mod c"
    unfolding c using zmod_zmult2_eq [of c t 64] \<open>0 < c\<close> by simp
  finally show ?thesis by (simp add: c del: of_nat_Suc)
qed

lemma word_of_segment:
  assumes "wf_mp b" "q \<le> upper" "t \<in> {q..word_end q upper}"
  shows "word_of b t = word_of b q"
  using word_of_div [OF assms(1), of t] word_of_div [OF assms(1), of q] word_end_bounds(3) [OF assms(2,3)] by simp

lemma segment_inj:
  assumes "wf_mp b" "q \<le> upper"
  shows "inj_on (slot_index b) {q..word_end q upper}"
proof (rule inj_onI)
  fix t u assume tu: "t \<in> {q..word_end q upper}" "u \<in> {q..word_end q upper}" "slot_index b t = slot_index b u"
  have "t mod 64 = u mod 64"
    using slot_index_mod_64 [OF assms(1), of t] slot_index_mod_64 [OF assms(1), of u] tu(3) by metis
  moreover have "t div 64 = u div 64"
    using word_end_bounds(3) [OF assms(2) tu(1)] word_end_bounds(3) [OF assms(2) tu(2)] by metis
  ultimately have "64 * (t div 64) + t mod 64 = 64 * (u div 64) + u mod 64" by (simp only:)
  then show "t = u" by (simp only: mult_div_mod_eq)
qed

lemma publish_list_bits:
  assumes "wf_mp b" "inj_on (slot_index b) (set ss)" "distinct ss" "i < Suc (slot_mask b)"
  shows "mp_bit (available (fold mp_publish ss b)) i = (mp_bit (available b) i \<noteq> (i \<in> slot_index b ` set ss))"
  using assms
proof (induction ss arbitrary: b)
  case (Cons t ss)
  have idx: "slot_index (mp_publish t b) = slot_index b" by (simp add: fun_eq_iff)
  have "mp_bit (available (fold mp_publish ss (mp_publish t b))) i =
      (mp_bit (available (mp_publish t b)) i \<noteq> (i \<in> slot_index b ` set ss))"
    using Cons.prems Cons.IH [of "mp_publish t b"] by (simp add: idx)
  moreover have "slot_index b t \<notin> slot_index b ` set ss" using Cons.prems(2,3) by auto
  ultimately show ?case using mp_bit_publish [OF Cons.prems(1,4), of t] by auto
qed simp

lemma publish_list_other_words:
  assumes "\<forall>t\<in>set ss. word_of b t \<noteq> w"
  shows "available (fold mp_publish ss b) ! w = available b ! w"
  using assms
proof (induction ss arbitrary: b)
  case (Cons t ss)
  have "word_of (mp_publish t b) u = word_of b u" for u by (simp add: word_of_eq)
  then have "available (fold mp_publish ss (mp_publish t b)) ! w = available (mp_publish t b) ! w"
    using Cons by simp
  moreover have "available (mp_publish t b) ! w = available b ! w"
    using Cons.prems by (simp add: mp_publish_def fetch_xor_def split_def Let_def word_of_def)
  ultimately show ?case by simp
qed simp

lemma publish_list_frame [simp]:
  "wf_mp (fold mp_publish ss b) = wf_mp b" "length (available (fold mp_publish ss b)) = length (available b)"
  "slot_index (fold mp_publish ss b) = slot_index b" "word_of (fold mp_publish ss b) = word_of b"
  "shown_by (fold mp_publish ss b) = shown_by b"
  by (induction ss arbitrary: b) (auto simp: fun_eq_iff word_of_eq shown_by_def)

lemma flips_exact:
  assumes inv: "mp_inv cfg gate s" and q: "0 \<le> q" "q \<le> claimed s" "\<not> is_published s q"
  shows "int (w_flips (last (word_history s (word_of (bits_of s) q))) (slot_index (bits_of s) q)) = q div laps s"
proof -
  note parts = mp_inv_parts [OF inv]
  let ?f = "w_flips (last (word_history s (word_of (bits_of s) q))) (slot_index (bits_of s) q)"
  have "int ?f \<le> q div laps s" using q(1,3) by (simp add: is_published_def shown_by_def not_less)
  moreover have "q div laps s \<le> int ?f"
  proof (cases "q < laps s")
    case True
    with q(1) show ?thesis by simp
  next
    case False
    let ?p = "q - laps s"
    note lap = slot_index_lap [OF parts(9), of ?p]
    have "?p < front s" using room_front [OF inv parts(7)] q(2) by simp
    then have "is_published s ?p" using False front_least(2) [OF parts(2)] by simp
    then show ?thesis using lap by (simp add: is_published_def shown_by_def del: of_nat_Suc)
  qed
  ultimately show ?thesis by simp
qed

text \<open>The state after the flip of \<open>q..r\<close> by a handle with view \<open>V\<close>.\<close>

definition flipped :: "sequence \<Rightarrow> sequence \<Rightarrow> access set \<Rightarrow> 'e mp_system \<Rightarrow> 'e mp_system" where
  "flipped q r V s = (let b = bits_of s; b' = publish_range_relaxed q (r - q + 1) b; w = word_of b q in
     s\<lparr>shared := (shared s)\<lparr>producer_barrier := b'\<rparr>,
       word_history := (word_history s)(w := word_history s w @ [flip_message b b' q r V (last (word_history s w))]),
       event_at := record_events (ring_buffer (shared s)) q r (event_at s)\<rparr>)"

definition may_flip :: "config \<Rightarrow> dependent \<Rightarrow> 'e mp_system \<Rightarrow> nat \<Rightarrow> sequence \<Rightarrow> sequence \<Rightarrow> sequence \<Rightarrow> bool" where
  "may_flip cfg gate s k q upper r \<longleftrightarrow> mp_inv cfg gate s \<and> h_phase (handles s k) = Flipping q upper
     \<and> q \<le> upper \<and> r = word_end q upper"

lemma flip_range:
  assumes "may_flip cfg gate s k q upper r"
  shows "0 \<le> q" "q \<le> r" "r \<le> upper" "r + 1 < 2 ^ 62" "wf_mp (bits_of s)"
    "t \<in> {q..upper} \<Longrightarrow> \<not> is_published s t \<and> front s \<le> t \<and> t \<le> claimed s"
proof -
  have inv: "mp_inv cfg gate s" and h: "h_phase (handles s k) = Flipping q upper" "q \<le> upper" "r = word_end q upper"
    using assms by (simp_all add: may_flip_def)
  note parts = mp_inv_parts [OF inv]
  show "0 \<le> q" "q \<le> r" "r \<le> upper" "r + 1 < 2 ^ 62" "wf_mp (bits_of s)"
    using parts(6) [of k] h word_end_bounds [OF h(2)] parts(9) by (auto simp: handle_inv_def)
  assume t: "t \<in> {q..upper}"
  then have "t \<in> owned (h_phase (handles s k))" using h by simp
  then show "\<not> is_published s t \<and> front s \<le> t \<and> t \<le> claimed s"
    using owned_front [OF parts(2)] parts(2) unfolding claims_inv_def by blast
qed

lemma flip_bits:
  assumes "may_flip cfg gate s k q upper r"
  defines "b' \<equiv> publish_range_relaxed q (r - q + 1) (bits_of s)"
  shows "b' = fold mp_publish [q..r] (bits_of s)"
    "i < Suc (slot_mask (bits_of s)) \<Longrightarrow>
      mp_bit (available b') i = (mp_bit (available (bits_of s)) i \<noteq> (i \<in> slot_index (bits_of s) ` {q..r}))"
    "w \<noteq> word_of (bits_of s) q \<Longrightarrow> available b' ! w = available (bits_of s) ! w"
    "t \<in> {q..r} \<Longrightarrow> word_of (bits_of s) t = word_of (bits_of s) q"
proof -
  note range = flip_range [OF assms(1)] and wf = flip_range(5) [OF assms(1)]
  have q: "q \<le> upper" "r = word_end q upper" using assms(1) by (simp_all add: may_flip_def)
  show fold: "b' = fold mp_publish [q..r] (bits_of s)"
    using publish_range_relaxed_fold [OF wf, of q "r - q + 1"] range by (simp add: b'_def)
  show "mp_bit (available b') i = (mp_bit (available (bits_of s)) i \<noteq> (i \<in> slot_index (bits_of s) ` {q..r}))"
    if "i < Suc (slot_mask (bits_of s))"
    using publish_list_bits [OF wf _ _ that, of "[q..r]"] segment_inj [OF wf q(1)] q(2) by (simp add: fold)
  show word: "word_of (bits_of s) t = word_of (bits_of s) q" if "t \<in> {q..r}" for t
    using word_of_segment [OF wf q(1)] that unfolding q(2) by blast
  show "available b' ! w = available (bits_of s) ! w" if w: "w \<noteq> word_of (bits_of s) q"
    unfolding fold
  proof (rule publish_list_other_words, rule ballI)
    fix t assume "t \<in> set [q..r]"
    then have "t \<in> {q..r}" by simp
    from word [OF this] w show "word_of (bits_of s) t \<noteq> w" by metis
  qed
qed

lemma flipped_simps:
  "ring_buffer (shared (flipped q r V s)) = ring_buffer (shared s)"
  "live_count (shared (flipped q r V s)) = live_count (shared s)"
  "handles (flipped q r V s) = handles s" "claim_history (flipped q r V s) = claim_history s"
  "mutex_seen (flipped q r V s) = mutex_seen s" "shutdown_history (flipped q r V s) = shutdown_history s"
  "consumer_at (flipped q r V s) = consumer_at s" "performed (flipped q r V s) = performed s"
  "bits_of (flipped q r V s) = publish_range_relaxed q (r - q + 1) (bits_of s)"
  "lost (flipped q r V s) = lost s"
  "event_at (flipped q r V s) t = (if q \<le> t \<and> t \<le> r then ring_read (ring_buffer (shared s)) t else event_at s t)"
  "word_history (flipped q r V s) w = (if w = word_of (bits_of s) q
     then word_history s w @ [flip_message (bits_of s) (bits_of (flipped q r V s)) q r V (last (word_history s w))]
     else word_history s w)"
  by (simp_all add: flipped_def Let_def)

lemma flipped_bits_simps:
  assumes "may_flip cfg gate s k q upper r"
  shows "claimed (flipped q r V s) = claimed s" "laps (flipped q r V s) = laps s"
    "slot_index (bits_of (flipped q r V s)) = slot_index (bits_of s)" "word_of (bits_of (flipped q r V s)) = word_of (bits_of s)"
    "shown_by (bits_of (flipped q r V s)) = shown_by (bits_of s)" "wf_mp (bits_of (flipped q r V s)) = wf_mp (bits_of s)"
    "length (available (bits_of (flipped q r V s))) = length (available (bits_of s))"
  using flip_bits(1) [OF assms] by (simp_all add: flipped_simps(9))

lemma flip_message_shown:
  assumes flip: "may_flip cfg gate s k q upper r" and t: "0 \<le> t" "word_of (bits_of s) t = word_of (bits_of s) q"
  shows "shown_by (bits_of s) (flip_message (bits_of s) b' q r V (last (word_history s (word_of (bits_of s) q)))) t
    \<longleftrightarrow> is_published s t \<or> t \<in> {q..r}"
proof (cases "slot_index (bits_of s) t \<in> slot_index (bits_of s) ` {q..r}")
  case False
  then show ?thesis using t by (auto simp: flip_message_def shown_by_def is_published_def)
next
  case True
  let ?b = "bits_of s" and ?last = "last (word_history s (word_of (bits_of s) q))"
  note range = flip_range [OF flip] and wf = flip_range(5) [OF flip]
  have inv: "mp_inv cfg gate s" and q: "q \<le> upper" "r = word_end q upper" using flip by (simp_all add: may_flip_def)
  from True obtain u where u: "u \<in> {q..r}" "slot_index ?b t = slot_index ?b u" by blast
  have bounds: "0 \<le> u" "u \<le> claimed s" "\<not> is_published s u" using u(1) range(1,3) range(6) [of u] by auto
  have flips: "int (w_flips ?last (slot_index ?b u)) = u div laps s"
    using flips_exact [OF inv bounds] flip_bits(4) [OF flip u(1)] by simp
  have "shown_by ?b (flip_message ?b b' q r V ?last) t \<longleftrightarrow> t div laps s \<le> u div laps s"
    using True flips u(2) by (auto simp: flip_message_def shown_by_def)
  moreover have "is_published s t \<longleftrightarrow> t div laps s < u div laps s"
    using flips u(2) t by (simp add: is_published_def shown_by_def)
  moreover have "t div laps s = u div laps s \<longleftrightarrow> t = u"
  proof
    assume same: "t div laps s = u div laps s"
    have "nat (t mod laps s) = nat (u mod laps s)" using u(2) unfolding slot_index_mod [OF wf] .
    then have "t mod laps s = u mod laps s" by (subst (asm) eq_nat_nat_iff) simp_all
    with same have "laps s * (t div laps s) + t mod laps s = laps s * (u div laps s) + u mod laps s" by (simp only:)
    then show "t = u" by (simp only: mult_div_mod_eq)
  qed simp
  moreover have "t \<in> {q..r} \<longleftrightarrow> t = u"
    using u inj_onD [OF segment_inj [OF wf q(1)], of t u] q(2) by auto
  ultimately show ?thesis by linarith
qed

lemma flip_published:
  assumes flip: "may_flip cfg gate s k q upper r"
  shows "is_published (flipped q r V s) t \<longleftrightarrow> is_published s t \<or> t \<in> {q..r}"
proof (cases "0 \<le> t \<and> word_of (bits_of s) t = word_of (bits_of s) q")
  case True
  then have t: "0 \<le> t" "word_of (bits_of s) t = word_of (bits_of s) q" by simp_all
  have "last (word_history (flipped q r V s) (word_of (bits_of s) q)) =
      flip_message (bits_of s) (bits_of (flipped q r V s)) q r V (last (word_history s (word_of (bits_of s) q)))"
    unfolding flipped_simps(12) [of q r V s] by simp
  then have "is_published (flipped q r V s) t \<longleftrightarrow> shown_by (bits_of s)
      (flip_message (bits_of s) (bits_of (flipped q r V s)) q r V (last (word_history s (word_of (bits_of s) q)))) t"
    by (simp only: is_published_def flipped_bits_simps(4,5) [OF flip] t simp_thms)
  then show ?thesis unfolding flip_message_shown [OF flip t] .
next
  case False
  then show ?thesis
    using flip_bits(4) [OF flip, of t] flip_range(1) [OF flip]
    unfolding is_published_def flipped_bits_simps [OF flip] by (auto simp: flipped_simps(12))
qed

lemma flip_words:
  assumes flip: "may_flip cfg gate s k q upper r"
    and view: "\<forall>t. Wr t \<in> performed s \<and> t \<in> {q..upper} \<longrightarrow> Wr t \<in> V"
  shows "words_inv (flipped q r V s)"
proof -
  let ?s = "flipped q r V s" and ?w = "word_of (bits_of s) q"
  let ?m = "flip_message (bits_of s) (bits_of ?s) q r V (last (word_history s ?w))"
  have inv: "mp_inv cfg gate s" using flip by (simp add: may_flip_def)
  note parts = mp_inv_parts [OF inv] and range = flip_range [OF flip]
  have each: "word_history s w \<noteq> []" "w_value (last (word_history s w)) = available (bits_of s) ! w"
    "sorted_wrt (\<lambda>m m'. \<forall>i. w_flips m i \<le> w_flips m' i) (word_history s w)"
    "\<forall>m\<in>set (word_history s w). (\<forall>i. i div 64 = w \<longrightarrow> bit (w_value m) (i mod 64) = even (w_flips m i))
       \<and> (\<forall>q. Wr q \<in> performed s \<and> word_of (bits_of s) q = w \<and> shown_by (bits_of s) m q \<longrightarrow> Wr q \<in> w_view m)"
    if "w < length (available (bits_of s))" for w
    using parts(3) that unfolding words_inv_def by blast+
  have w: "?w < length (available (bits_of s))" by (rule word_of_less [OF parts(9)])
  have new_value: "w_value ?m = available (bits_of ?s) ! ?w" by (simp add: flip_message_def)
  have "bit (w_value ?m) (i mod 64) = even (w_flips ?m i)" if i: "i div 64 = ?w" for i
  proof -
    have "length (available (bits_of s)) * 64 \<le> Suc (slot_mask (bits_of s))" using parts(9) by (simp add: wf_mp_def)
    moreover have "i < (?w + 1) * 64" using i by (metis Suc_eq_plus1 div_less_iff_less_mult lessI zero_less_numeral)
    moreover have "(?w + 1) * 64 \<le> length (available (bits_of s)) * 64" using w by (intro mult_le_mono1) simp
    ultimately have "i < Suc (slot_mask (bits_of s))" by (meson less_le_trans)
    from flip_bits(2) [OF flip this] have "bit (available (bits_of ?s) ! ?w) (i mod 64) =
        (bit (available (bits_of s) ! ?w) (i mod 64) \<noteq> (i \<in> slot_index (bits_of s) ` {q..r}))"
      by (simp add: flipped_simps(9) mp_bit_def i)
    moreover have "bit (available (bits_of s) ! ?w) (i mod 64) = even (w_flips (last (word_history s ?w)) i)"
      using each(1,2,4) [OF w] i by (metis last_in_set)
    ultimately show ?thesis unfolding new_value by (auto simp: flip_message_def)
  qed
  moreover have "Wr t \<in> w_view ?m" if t: "Wr t \<in> performed s" "word_of (bits_of s) t = ?w" "shown_by (bits_of s) ?m t" for t
  proof -
    have "0 \<le> t"
      using written_claimed [OF parts(2,4) t(1)] by simp
    with t flip_message_shown [OF flip] have "is_published s t \<or> t \<in> {q..r}" by blast
    moreover have "Wr t \<in> w_view (last (word_history s ?w))" if "is_published s t"
      using that t each(1,4) [OF w] by (metis is_published_def last_in_set)
    moreover have "Wr t \<in> V" if "t \<in> {q..r}" using that view t(1) range(3) by auto
    ultimately show ?thesis by (auto simp: flip_message_def)
  qed
  moreover have "w_flips m i \<le> w_flips ?m i" if "m \<in> set (word_history s ?w)" for m i
  proof -
    have "w_flips m i \<le> w_flips (last (word_history s ?w)) i" by (rule word_facts(4) [OF parts(3) refl that])
    then show ?thesis by (auto simp: flip_message_def)
  qed
  moreover have "available (bits_of ?s) ! w = available (bits_of s) ! w" if "w \<noteq> ?w" for w
    using flip_bits(3) [OF flip that] by (simp add: flipped_simps(9))
  ultimately show ?thesis
    using each parts(9-11) new_value unfolding words_inv_def flipped_bits_simps [OF flip] flipped_simps(1,8)
    by (auto simp: flipped_simps(12) sorted_wrt_append)
qed

lemma mp_inv_flip:
  assumes inv: "mp_inv cfg gate s" and h: "h = handles s k" "h_phase h = Flipping q upper"
    and q: "q \<le> upper" "r = word_end q upper"
  shows "mp_inv cfg gate (set_handle k (h\<lparr>h_phase := Flipping (r + 1) upper\<rparr>) (flipped q r (h_view h) s))"
    (is "mp_inv cfg gate (set_handle k ?h ?u)")
proof -
  let ?s = "set_handle k ?h ?u"
  have flip: "may_flip cfg gate s k q upper r" using inv h q by (simp add: may_flip_def)
  note parts = mp_inv_parts [OF inv] and range = flip_range [OF flip] and same = flipped_bits_simps [OF flip]
  have own: "handle_inv cfg gate s h" using parts(6) h(1) by simp
  have live: "live h" using h(2) by (simp add: live_def)
  have pub: "is_published ?u t \<longleftrightarrow> is_published s t \<or> t \<in> {q..r}" for t by (rule flip_published [OF flip])
  have owned: "owned (h_phase (handles ?s j)) = owned (h_phase (handles s j)) - {q..r}" for j
  proof (cases "j = k")
    case True
    then show ?thesis using h range(2,3) by auto
  next
    case False
    have "{q..r} \<subseteq> owned (h_phase (handles s k))" using h range(3) by auto
    then have "owned (h_phase (handles s j)) \<inter> {q..r} = {}" using parts(2) False unfolding claims_inv_def by blast
    then show ?thesis using False by (auto simp: flipped_simps)
  qed
  have mine: "t \<in> owned (h_phase (handles s k))" if "t \<in> {q..r}" for t using that h range(3) by auto
  have "claims_inv ?s"
  proof -
    have "is_published ?s t \<or> (\<exists>j. t \<in> owned (h_phase (handles ?s j))) \<longleftrightarrow>
        is_published s t \<or> (\<exists>j. t \<in> owned (h_phase (handles s j)))" for t
      unfolding owned set_handle_published pub using mine by blast
    then have "is_published ?s t \<or> (\<exists>j. t \<in> owned (h_phase (handles ?s j))) \<or> t \<in> lost s \<longleftrightarrow>
        is_published s t \<or> (\<exists>j. t \<in> owned (h_phase (handles s j))) \<or> t \<in> lost s" for t
      by blast
    moreover have "t \<in> owned (h_phase (handles ?s j)) \<longrightarrow> \<not> is_published ?s t \<and> t \<notin> lost s" for j t
      unfolding owned set_handle_published pub using parts(2) unfolding claims_inv_def by blast
    moreover have "t \<in> lost s \<longrightarrow> \<not> is_published ?s t" for t
      unfolding set_handle_published pub using parts(2) mine unfolding claims_inv_def by blast
    moreover have "owned (h_phase (handles ?s j)) \<inter> owned (h_phase (handles ?s j')) = {}" if "j \<noteq> j'" for j j'
      unfolding owned using parts(2) that unfolding claims_inv_def by blast
    ultimately show ?thesis
      using parts(2) same(1) unfolding claims_inv_def by (simp add: flipped_simps(4,10))
  qed
  moreover have "words_inv ?s"
    unfolding set_handle_words by (rule flip_words [OF flip]) (use own h(2) in \<open>auto simp: handle_inv_def\<close>)
  moreover have "writes_inv ?s"
  proof -
    have "is_published ?s t \<or> (\<exists>j. t \<in> owned (h_phase (handles ?s j)) - unwritten (h_phase (handles ?s j)))
        \<or> t \<in> lost s"
      if wr: "Wr t \<in> performed s" for t
    proof -
      have "unwritten (h_phase (handles ?s j)) \<subseteq> unwritten (h_phase (handles s j))" for j
        by (auto simp: flipped_simps)
      then show ?thesis
        using parts(4) wr unfolding writes_inv_def owned set_handle_published pub by blast
    qed
    moreover have "ring_read (ring_buffer (shared s)) t = event_at ?s t"
      if "is_published ?s t" "claimed s - laps s < t" for t
      using that parts(4) pub by (auto simp: writes_inv_def flipped_simps)
    ultimately show ?thesis unfolding writes_inv_def using same(1,2) by (simp add: flipped_simps(1,8,10))
  qed
  moreover have "count_inv ?s"
  proof -
    have alive: "live (handles ?s j) = live (handles s j)" "h_seen (handles ?s j) = h_seen (handles s j)" for j
      using live h(1) by (simp_all add: live_def flipped_simps)
    show ?thesis using parts(5) same(1) unfolding count_inv_def alive by (simp add: flipped_simps)
  qed
  moreover have "handle_inv cfg gate ?s (handles ?s j)" for j
  proof -
    have mono: "phase_inv ?u g ph = phase_inv s g ph" for g ph
      by (cases ph) (simp_all add: flipped_simps)
    have "handle_inv cfg gate ?u g = handle_inv cfg gate s g" for g
      unfolding handle_inv_def room_for_def mono by (simp add: flipped_simps(7,8) same del: of_nat_Suc set_concat)
    moreover have "handle_inv cfg gate s ?h"
      using own live h(2) range(1-3) by (auto simp: handle_inv_def live_def simp del: of_nat_Suc set_concat)
    ultimately show ?thesis using parts(6) by (simp add: flipped_simps(3))
  qed
  moreover have "room_for cfg ?s (claimed ?s)"
    using parts(7) same by (simp add: room_for_def flipped_simps(7) del: of_nat_Suc set_concat)
  moreover have "mp_crew cfg ?s"
  proof (rule crew_grow [OF parts(8)])
    show "front s \<le> front ?s"
      using front_least(1,3) [OF \<open>claims_inv ?s\<close>] pub by (intro front_le [OF parts(2)]) auto
    show "complete ?s \<and> front ?s = front s" if "complete s"
      using that parts(5) live h(1) by (auto simp: count_inv_def)
    show "\<forall>t < front s. 0 \<le> t \<longrightarrow> event_at ?s t = event_at s t"
      using range(3) range(6) by (force simp: flipped_simps(11))
    show "\<forall>x v. good s x v \<longrightarrow> good ?s x v"
    proof (intro allI impI)
      fix x v assume g: "good s x v"
      have len: "x (word_of (bits_of s) t) < length (word_history s (word_of (bits_of s) t))" for t
        using g word_of_less [OF parts(9), of t] by (simp add: good_def)
      show "good ?s x v"
        using g len unfolding good_def set_handle_simps same
        by (auto simp: flipped_simps(12) nth_append less_Suc_eq)
    qed
  qed (simp_all add: flipped_simps)
  ultimately show ?thesis using parts(1) by (simp add: mp_inv_def)
qed

text \<open>Clone and drop: handles come and go, with the count.\<close>

lemma no_early_access:
  assumes inv: "mp_inv cfg gate s" and v: "v \<le> 0"
  shows "before (performed s) A (v - laps s) = {}"
proof -
  note parts = mp_inv_parts [OF inv]
  have "0 < laps s" using wf_ring_pos [OF parts(10)] parts(11) by simp
  moreover have "0 \<le> q" if "Wr q \<in> performed s" for q
    using written_claimed [OF parts(2,4) that] by simp
  moreover have "0 \<le> q" if "Rd i q \<in> performed s" for i q
    using crew_inv_reads [OF parts(8) [unfolded mp_crew_def] that] by simp
  ultimately show ?thesis
    using v by (force simp: before_def split: access.splits)
qed

text \<open>Such a step leaves all but the handles and the count alone.\<close>

lemma mp_inv_life:
  assumes inv: "mp_inv cfg gate s" and own: "owned (h_phase (handles s k)) = {}" "owned (h_phase h') = {}"
    and h': "handle_inv cfg gate s h'" and count: "count_inv (set_handle k h' (s\<lparr>shared := (shared s)\<lparr>live_count := c,
      shutdown_at_sequence := d\<rparr>, mutex_seen := m, shutdown_history := ds\<rparr>))"
    and "live_count (shared s) \<noteq> 0"
  shows "mp_inv cfg gate (set_handle k h' (s\<lparr>shared := (shared s)\<lparr>live_count := c,
      shutdown_at_sequence := d\<rparr>, mutex_seen := m, shutdown_history := ds\<rparr>))" (is "mp_inv cfg gate ?s")
proof -
  note parts = mp_inv_parts [OF inv]
  have pub: "is_published ?s = is_published s" by (rule published_cong) simp_all
  have good: "good ?s = good s" by (rule good_cong) simp_all
  have owned: "owned (h_phase (handles ?s j)) = owned (h_phase (handles s j))" for j using own by simp
  have "claims_inv ?s" using parts(2) unfolding claims_inv_def pub owned by simp
  moreover have "words_inv ?s" using parts(3) by (simp add: words_inv_def)
  moreover have "writes_inv ?s"
  proof -
    have moved: "\<exists>j. q \<in> owned (h_phase (handles ?s j)) - unwritten (h_phase (handles ?s j))"
      if "q \<in> owned (h_phase (handles s j)) - unwritten (h_phase (handles s j))" for q j
      using that own by (intro exI [of _ j]) (cases "j = k"; auto)
    have "is_published s q \<or> (\<exists>j. q \<in> owned (h_phase (handles ?s j)) - unwritten (h_phase (handles ?s j)))
        \<or> q \<in> lost s"
      if "Wr q \<in> performed s" for q
      using parts(4) that moved unfolding writes_inv_def by blast
    moreover have "ring_read (ring_buffer (shared s)) q = event_at s q"
      if "is_published s q" "claimed s - laps s < q" for q
      using parts(4) that unfolding writes_inv_def by blast
    ultimately show ?thesis unfolding writes_inv_def pub by simp
  qed
  moreover have "handle_inv cfg gate ?s (handles ?s j)" for j
  proof -
    have phase: "phase_inv ?s g ph = phase_inv s g ph" for g ph by (cases ph) simp_all
    have "handle_inv cfg gate ?s g = handle_inv cfg gate s g" for g
      unfolding handle_inv_def phase by (simp add: room_for_def del: set_concat)
    then show ?thesis using parts(6) h' by simp
  qed
  moreover have "room_for cfg ?s (claimed ?s)" using parts(7) by (simp add: room_for_def del: set_concat)
  moreover have "mp_crew cfg ?s"
    by (rule crew_grow [OF parts(8)]) (use good front_cong [OF pub] assms(6) in auto)
  ultimately show ?thesis using parts(1) count by (simp add: mp_inv_def)
qed

lemma mp_inv_clone:
  assumes inv: "mp_inv cfg gate s" and h: "h = handles s k" "h_phase h = Free" and new: "h_phase (handles s k') = NoHandle"
    and clone: "mp_clone (h_producer h) (shared s) = Some (p', \<sigma>)"
  shows "mp_inv cfg gate (set_handle k' (h\<lparr>h_producer := p'\<rparr>) (s\<lparr>shared := \<sigma>\<rparr>))" (is "mp_inv cfg gate ?s")
proof -
  note parts = mp_inv_parts [OF inv]
  let ?L = "{j. live (handles s j)}" and ?h = "h\<lparr>h_producer := p'\<rparr>"
  have live: "live h" using h(2) by (simp add: live_def)
  have count: "live_count (shared s) = int (card ?L)" "finite ?L" using parts(5) by (simp_all add: count_inv_def)
  have "?L \<noteq> {}" using live h(1) by blast
  with count have pos: "0 < live_count (shared s)" by (simp add: card_gt_0_iff)
  have small: "live_count (shared s) \<le> i64_MAX div 2"
    and p': "consumer_barrier p' = consumer_barrier (h_producer h)" "sequence_clear_of_consumers p' = 0"
    and \<sigma>: "\<sigma> = (shared s)\<lparr>live_count := i64 (live_count (shared s) + 1)\<rparr>"
    using clone by (auto simp: mp_clone_def Let_def split: if_splits)
  then have max: "live_count (shared s) + 1 \<le> 2 ^ 62" by (simp add: i64_MAX_def)
  then have next_count: "i64 (live_count (shared s) + 1) = live_count (shared s) + 1"
    using pos by (intro i64_id) (simp add: in_i64_iff)
  have state: "s\<lparr>shared := \<sigma>\<rparr> = s\<lparr>shared := (shared s)\<lparr>live_count := live_count (shared s) + 1,
      shutdown_at_sequence := shutdown_at_sequence (shared s)\<rparr>, mutex_seen := mutex_seen s,
      shutdown_history := shutdown_history s\<rparr>"
    by (simp add: \<sigma> next_count)
  show ?thesis
    unfolding state
  proof (rule mp_inv_life [OF inv])
    have "0 < laps s" using wf_ring_pos [OF parts(10)] parts(11) by simp
    then have "room_for cfg s 0"
      using crew_bounds(4) [OF parts(8) [unfolded mp_crew_def]] by (force simp: room_for_def simp del: set_concat of_nat_Suc)
    then show "handle_inv cfg gate s ?h"
      using parts(6) [of k] live h p' no_early_access [OF inv, of 0]
      by (auto simp: handle_inv_def live_def simp del: set_concat of_nat_Suc)
    let ?s = "set_handle k' ?h (s\<lparr>shared := (shared s)\<lparr>live_count := live_count (shared s) + 1,
      shutdown_at_sequence := shutdown_at_sequence (shared s)\<rparr>, mutex_seen := mutex_seen s,
      shutdown_history := shutdown_history s\<rparr>)"
    have apart: "k' \<noteq> k" using new h by auto
    have L: "{j. live (handles ?s j)} = insert k' ?L" using h(2) by (auto simp: live_def)
    have "k' \<notin> ?L" using new by (simp add: live_def)
    then have card: "finite {j. live (handles ?s j)}" "card {j. live (handles ?s j)} = Suc (card ?L)"
      unfolding L using count(2) by simp_all
    have "claimed s \<le> mutex_seen s \<or> (\<exists>j. live (handles ?s j) \<and> claimed s \<le> h_seen (handles ?s j))"
    proof (cases "claimed s \<le> mutex_seen s")
      case False
      then obtain j where j: "live (handles s j)" "claimed s \<le> h_seen (handles s j)" using parts(5) by (auto simp: count_inv_def)
      then have "j \<noteq> k'" using new by (auto simp: live_def)
      with j show ?thesis by (intro disjI2 exI [of _ j]) simp
    qed simp
    with card parts(5) max pos show "count_inv ?s" unfolding count_inv_def by (simp add: count(1))
    show "owned (h_phase (handles s k')) = {}" "owned (h_phase ?h) = {}" using new h(2) by simp_all
  qed (use pos in simp)
qed

lemma live_after_drop:
  assumes "finite {j. live (handles s j)}" "live (handles s k)" "\<not> live h'"
  shows "{j. live (handles (set_handle k h' s) j)} = {j. live (handles s j)} - {k}"
    "card ({j. live (handles s j)} - {k}) = card {j. live (handles s j)} - 1" "0 < card {j. live (handles s j)}"
  using assms by (auto simp: card_gt_0_iff)

lemma mp_inv_drop:
  assumes inv: "mp_inv cfg gate s" and h: "h = handles s k" "h_phase h = Free"
    and c: "c = i64 (live_count (shared s) - 1)"
    and marks: "if live_count (shared s) = 1 then d = i64 (v + 1) \<and> ds = shutdown_history s @ [i64 (v + 1)]
        \<and> may_read s h v \<and> mutex_seen s \<le> v
      else d = shutdown_at_sequence (shared s) \<and> ds = shutdown_history s"
  shows "mp_inv cfg gate (set_handle k (h\<lparr>h_phase := Gone\<rparr>) (s\<lparr>shared := (shared s)\<lparr>live_count := c,
      shutdown_at_sequence := d\<rparr>, mutex_seen := max (mutex_seen s) (h_seen h), shutdown_history := ds\<rparr>))"
proof (rule mp_inv_life [OF inv])
  note parts = mp_inv_parts [OF inv]
  let ?L = "{j. live (handles s j)}" and ?h = "h\<lparr>h_phase := Gone\<rparr>"
  let ?t = "s\<lparr>shared := (shared s)\<lparr>live_count := c, shutdown_at_sequence := d\<rparr>,
      mutex_seen := max (mutex_seen s) (h_seen h), shutdown_history := ds\<rparr>"
  let ?s = "set_handle k ?h ?t"
  have live: "live h" "\<not> live ?h" using h(2) by (simp_all add: live_def)
  have count: "live_count (shared s) = int (card ?L)" "finite ?L" "live_count (shared s) \<le> 2 ^ 62"
    using parts(5) by (simp_all add: count_inv_def)
  have L: "{j. live (handles ?s j)} = ?L - {k}" "card (?L - {k}) = card ?L - 1" "0 < card ?L"
    using live_after_drop [of ?t k ?h] count(2) live h(1) by (auto simp: card_gt_0_iff)
  then have pos: "0 < live_count (shared s)" using count(1) by simp
  have less: "c = live_count (shared s) - 1" unfolding c using pos count(3) by (intro i64_id) (simp add: in_i64_iff)
  then have c': "c = int (card {j. live (handles ?s j)})" unfolding L(1) using L(2,3) count(1) by simp
  have seen: "h_seen h \<le> claimed s" using parts(6) [of k] live(1) h(1) by (simp add: handle_inv_def)
  have cover: "claimed s \<le> max (mutex_seen s) (h_seen h)
      \<or> (\<exists>j. live (handles ?s j) \<and> claimed s \<le> h_seen (handles ?s j))"
  proof (cases "claimed s \<le> max (mutex_seen s) (h_seen h)")
    case False
    then obtain j where j: "live (handles s j)" "claimed s \<le> h_seen (handles s j)" using parts(5) by (auto simp: count_inv_def)
    then have "j \<noteq> k" using False h(1) by auto
    with j show ?thesis by (intro disjI2 exI [of _ j]) simp
  qed simp
  have ds: "set ds = {-1} \<union> (if c = 0 then {claimed s + 1} else {})"
  proof (cases "live_count (shared s) = 1")
    case True
    then obtain x where x: "?L = {x}" using count(1) by (auto simp: card_1_singleton_iff)
    moreover have "k \<in> ?L" using live(1) h(1) by simp
    ultimately have "?L = {k}" by (metis singletonD)
    then have "claimed s \<le> mutex_seen s \<or> claimed s \<le> h_seen h" using parts(5) h(1) by (auto simp: count_inv_def)
    moreover have "h_seen h \<le> v" "mutex_seen s \<le> v" "v \<le> claimed s"
      using marks True may_read_le [OF parts(2), of h v] by auto
    ultimately have "v = claimed s" by linarith
    moreover have "i64 (claimed s + 1) = claimed s + 1" using parts(12,13) by (intro i64_id) (simp add: in_i64_iff)
    ultimately show ?thesis using True marks parts(5) less by (auto simp: count_inv_def)
  next
    case False
    then show ?thesis using marks parts(5) less pos by (auto simp: count_inv_def)
  qed
  show "count_inv ?s"
    unfolding count_inv_def
  proof (intro conjI)
    show "finite {j. live (handles ?s j)}" unfolding L(1) using count(2) by simp
    show "live_count (shared ?s) = int (card {j. live (handles ?s j)})" unfolding c' [symmetric] by simp
    show "live_count (shared ?s) \<le> 2 ^ 62" using less count(3) by simp
    show "mutex_seen ?s \<le> claimed ?s" using seen parts(5) by (simp add: count_inv_def)
    show "claimed ?s \<le> mutex_seen ?s \<or> (\<exists>j. live (handles ?s j) \<and> claimed ?s \<le> h_seen (handles ?s j))"
      using cover by simp
    show "set (shutdown_history ?s) = {-1} \<union> (if live_count (shared ?s) = 0 then {claimed ?s + 1} else {})"
      using ds by simp
  qed
  show "handle_inv cfg gate s ?h" using parts(6) [of k] h live(2) by (simp add: handle_inv_def)
  show "owned (h_phase (handles s k)) = {}" "owned (h_phase ?h) = {}" "live_count (shared s) \<noteq> 0" using h pos by simp_all
qed

text \<open>A panic of the closure: what the handle had claimed is lost.\<close>

lemma mp_inv_unwind:
  assumes inv: "mp_inv cfg gate s" and h: "h = handles s k" "h_phase h = Writing fs it n"
  shows "mp_inv cfg gate (set_handle k (h\<lparr>h_phase := Free\<rparr>) (s\<lparr>lost := lost s \<union> owned (h_phase h)\<rparr>))"
    (is "mp_inv cfg gate ?s")
proof -
  note parts = mp_inv_parts [OF inv]
  have own: "handle_inv cfg gate s h" using parts(6) h(1) by simp
  have live: "live h" using h(2) by (simp add: live_def)
  then have busy: "live_count (shared s) \<noteq> 0" using parts(5) h(1) by (auto simp: count_inv_def)
  have pub: "is_published ?s = is_published s" by (rule published_cong) simp_all
  have good: "good ?s = good s" by (rule good_cong) simp_all
  have owned: "owned (h_phase (handles ?s j)) = (if j = k then {} else owned (h_phase (handles s j)))" for j by simp
  have lost: "lost ?s = lost s \<union> owned (h_phase (handles s k))" using h(1) by simp
  have split: "(\<exists>j. q \<in> owned (h_phase (handles ?s j))) \<or> q \<in> lost ?s \<longleftrightarrow>
      (\<exists>j. q \<in> owned (h_phase (handles s j))) \<or> q \<in> lost s" for q
    unfolding owned lost by (auto split: if_splits)
  have "claims_inv ?s"
  proof -
    have "q \<in> owned (h_phase (handles ?s j)) \<longrightarrow> \<not> is_published s q \<and> q \<notin> lost ?s" for j q
    proof (cases "j = k")
      case False
      then show ?thesis unfolding owned lost using parts(2) owned_apart [OF parts(2), of q j k] unfolding claims_inv_def by auto
    qed (simp add: owned)
    moreover have "q \<in> lost ?s \<longrightarrow> \<not> is_published s q" for q
      unfolding lost using parts(2) unfolding claims_inv_def by blast
    moreover have "owned (h_phase (handles ?s j)) \<inter> owned (h_phase (handles ?s j')) = {}" if "j \<noteq> j'" for j j'
      unfolding owned using parts(2) that unfolding claims_inv_def by simp
    moreover have "claimed ?s = claimed s" "claim_history ?s = claim_history s" by simp_all
    ultimately show ?thesis using parts(2) unfolding claims_inv_def pub split by (simp only:) blast
  qed
  moreover have "words_inv ?s" using parts(3) by (simp add: words_inv_def)
  moreover have "writes_inv ?s"
  proof -
    have "is_published s q \<or> (\<exists>j. q \<in> owned (h_phase (handles ?s j)) - unwritten (h_phase (handles ?s j))) \<or> q \<in> lost ?s"
      if wr: "Wr q \<in> performed s" for q
    proof -
      consider "is_published s q \<or> q \<in> lost s" | j where "q \<in> owned (h_phase (handles s j)) - unwritten (h_phase (handles s j))"
        using parts(4) wr unfolding writes_inv_def by blast
      then show ?thesis
      proof cases
        case (2 j)
        then show ?thesis unfolding lost by (cases "j = k") auto
      qed (auto simp: lost)
    qed
    moreover have "ring_read (ring_buffer (shared s)) q = event_at s q" if "is_published s q" "claimed s - laps s < q" for q
      using that parts(4) by (simp add: writes_inv_def)
    ultimately show ?thesis unfolding writes_inv_def pub by simp
  qed
  moreover have "count_inv ?s"
  proof -
    have alive: "live (handles ?s j) = live (handles s j)" "h_seen (handles ?s j) = h_seen (handles s j)" for j
      using h by (simp_all add: live_def)
    show ?thesis using parts(5) unfolding count_inv_def alive by simp
  qed
  moreover have "handle_inv cfg gate ?s (handles ?s j)" for j
  proof -
    have phase: "phase_inv ?s g ph = phase_inv s g ph" for g ph by (cases ph) simp_all
    have "handle_inv cfg gate ?s g = handle_inv cfg gate s g" for g
      unfolding handle_inv_def phase by (simp add: room_for_def del: set_concat)
    moreover have "handle_inv cfg gate s (h\<lparr>h_phase := Free\<rparr>)"
      using own h(2) by (simp add: handle_inv_def live_def del: set_concat)
    ultimately show ?thesis using parts(6) by simp
  qed
  moreover have "room_for cfg ?s (claimed ?s)" using parts(7) by (simp add: room_for_def del: set_concat)
  moreover have "mp_crew cfg ?s"
    by (rule crew_grow [OF parts(8)]) (use good busy front_cong [OF pub] in auto)
  ultimately show ?thesis using parts(1) by (simp add: mp_inv_def)
qed

text \<open>A consumer's step.\<close>

lemma mp_inv_consume:
  assumes inv: "mp_inv cfg gate s"
    and step: "cons_step cfg (bits_look s) (shutdown_history s) (ring_buffer (shared s)) (consumer_at s, performed s) (cs, P)"
  shows "mp_inv cfg gate (s\<lparr>consumer_at := cs, performed := P\<rparr>)" (is "mp_inv cfg gate ?s")
proof -
  note parts = mp_inv_parts [OF inv]
  have ok: "claims_inv s \<and> words_inv s \<and> writes_inv s \<and> count_inv s" using parts by blast
  note crew = parts(8) [unfolded mp_crew_def]
  have lag: "\<forall>i\<in>set (all_consumers cfg). claimed s - laps s \<le> done_upto (consumer_at s i)"
    using parts(7) unfolding room_for_def .
  from mpmc.crew_step_effect [OF step crew ok] obtain i c where i: "i \<in> set (all_consumers cfg)"
    and c: "cs = (consumer_at s)(i := c)" "done_upto (consumer_at s i) \<le> done_upto c"
    and P: "P = performed s \<or> P = insert (Rd i (next_seq (consumer_at s i))) (performed s)" .
  have wr: "Wr q \<in> P \<longleftrightarrow> Wr q \<in> performed s" for q using P by auto
  have pub: "is_published ?s = is_published s" by (rule published_cong) simp_all
  have room: "room_for cfg ?s v" if "room_for cfg s v" for v
    using that c unfolding room_for_def by (auto simp del: set_concat of_nat_Suc dest: bspec)
  have view: "before P (set (all_consumers cfg)) (v - laps s) = before (performed s) (set (all_consumers cfg)) (v - laps s)"
    if "room_for cfg s v" for v
  proof -
    have "v - laps s < next_seq (consumer_at s i)"
      using bspec [OF that [unfolded room_for_def] i] crew_bounds(3) [OF crew i] by simp
    then show ?thesis
      using P before_insert_Rd [of i "set (all_consumers cfg)" "v - laps s" _ "performed s"] by blast
  qed
  have "claims_inv ?s" using parts(2) unfolding claims_inv_def pub by simp
  moreover have "words_inv ?s" using parts(3) wr by (simp add: words_inv_def)
  moreover have "writes_inv ?s" using parts(4) wr unfolding writes_inv_def pub by simp
  moreover have "count_inv ?s" using parts(5) by (simp add: count_inv_def)
  moreover have "handle_inv cfg gate ?s (handles ?s j)" for j
  proof -
    have "phase_inv ?s g ph = phase_inv s g ph" for g ph by (cases ph) simp_all
    then show ?thesis
      using parts(6) [of j] room view wr unfolding handle_inv_def by (simp del: set_concat of_nat_Suc)
  qed
  moreover have "room_for cfg ?s (claimed ?s)" using room [OF parts(7)] by simp
  moreover have "mp_crew cfg ?s"
  proof -
    have "good ?s = good s" by (rule good_cong) simp_all
    with mpmc.crew_step [OF step crew parts(1) ok lag] show ?thesis by (simp add: mp_crew_def front_cong [OF pub])
  qed
  ultimately show ?thesis using parts(1) by (simp add: mp_inv_def)
qed

section \<open>The invariant of all reachable states\<close>

lemma mp_inv_step: "mp_step cfg s s' \<Longrightarrow> mp_inv cfg gate s \<Longrightarrow> mp_inv cfg gate s'"
proof (induction rule: mp_step.induct)
  case Begin
  then show ?case by (intro mp_inv_begin)
next
  case Check
  then show ?case by - (hypsubst, rule mp_inv_check; (assumption | rule refl))
next
  case Refuse
  then show ?case by - (rule mp_inv_free; blast)
next
  case Win
  then show ?case by - (hypsubst, rule mp_inv_win; (assumption | rule refl))
next
  case Lose
  then show ?case by (intro mp_inv_lose)
next
  case Fill
  then show ?case by - (hypsubst, rule mp_inv_fill; (assumption | rule refl))
next
  case Finish
  then show ?case by (intro mp_inv_finish)
next
  case Unwind
  then show ?case by (intro mp_inv_unwind)
next
  case (Flip h s k q upper r b b' w)
  then have "mp_inv cfg gate (set_handle k (h\<lparr>h_phase := Flipping (r + 1) upper\<rparr>) (flipped q r (h_view h) s))"
    by (intro mp_inv_flip)
  with Flip show ?case by (simp add: flipped_def Let_def)
next
  case Return
  then show ?case by - (rule mp_inv_free; blast)
next
  case Clone
  then show ?case by (intro mp_inv_clone)
next
  case (Drop h s k \<sigma>)
  from mp_inv_drop [OF Drop(5,1,2) refl, of "shutdown_at_sequence (shared s)" _ "shutdown_history s"] Drop(3,4)
  show ?case by simp
next
  case (LastDrop h s k \<sigma> v)
  from mp_inv_drop [OF LastDrop(7,1,2) refl, of "i64 (v + 1)" v "shutdown_history s @ [i64 (v + 1)]"] LastDrop(3-6)
  show ?case by simp
next
  case Consume
  then show ?case by - (rule mp_inv_consume)
qed

lemma mp_inv_reachable:
  assumes "mp_reachable cfg s"
  obtains gate where "mp_inv cfg gate s"
  using assms by (induction arbitrary: thesis rule: mp_reachable.induct) (blast intro: mp_inv_init mp_inv_step)+

text \<open>Runs in which only the consumers step.\<close>

definition mp_consumes :: "config \<Rightarrow> 'e mp_system \<Rightarrow> 'e mp_system \<Rightarrow> bool" where
  "mp_consumes cfg s s' \<longleftrightarrow> (\<exists>cs P. cons_step cfg (bits_look s) (shutdown_history s) (ring_buffer (shared s))
     (consumer_at s, performed s) (cs, P) \<and> s' = s\<lparr>consumer_at := cs, performed := P\<rparr>)"

lemma mp_consumes_step: "mp_consumes cfg s s' \<Longrightarrow> mp_step cfg s s'"
  unfolding mp_consumes_def by (blast intro: mp_step.Consume)

end
