(* ===== verification/Mpmc_Schedule.thy ===== *)
theory Mpmc_Schedule
  imports Mpmc_Steps Consumer_Schedule
begin

text \<open>
  A scheduler for the running multi-producer disruptor that always loads the newest values: it
  extends the one of \<open>Consumer_Schedule\<close> by the producer handles, and drives the concrete runs of the
  witnesses.
\<close>

datatype 'e mp_act = MpBegin nat nat "('e \<Rightarrow> 'e) list" | MpCheck nat | MpRace nat | MpFill nat | MpFinish nat
  | MpUnwind nat | MpFlip nat | MpReturn nat | MpClone nat nat | MpDrop nat | MpConsume cons_act

definition newest_positions :: "(nat \<Rightarrow> word_message list) \<Rightarrow> nat \<Rightarrow> nat" where
  "newest_positions hist w = length (hist w) - 1"

definition bits_latest :: "'e mp_system \<Rightarrow> sequence \<Rightarrow> (nat \<Rightarrow> nat) \<Rightarrow> sequence \<times> access set \<times> (nat \<Rightarrow> nat)" where
  "bits_latest s q x = (case mp_get_after (bits_of s) q of
     None \<Rightarrow> (q - 1, {}, x)
   | Some found \<Rightarrow> (found, \<Union>r\<in>set [q..found + 1]. w_view (last (word_history s (word_of (bits_of s) r))),
       newest_positions (word_history s)))"

fun mp_perform :: "config \<Rightarrow> 'e mp_act \<Rightarrow> 'e mp_system \<Rightarrow> 'e mp_system" where
  "mp_perform cfg (MpBegin k n fs) s = (let h = handles s k in (case h_phase h of
     Free \<Rightarrow> if int n < 2 ^ 62 then set_handle k (h\<lparr>h_phase := Checking (claimed s) n fs, h_seen := claimed s\<rparr>) s else s
   | _ \<Rightarrow> s))"
| "mp_perform cfg (MpCheck k) s = (let h = handles s k; p = h_producer h; msgs = newest_of (consumer_at s) in
     (case h_phase h of Checking cur n fs \<Rightarrow>
       (let n_next = i64 (cur + i64 (int n)) in
        (case mp_check_room gate_get_after (i64 (int n)) cur n_next ((shared s)\<lparr>consumers := loaded msgs\<rparr>) p of
          Inr p' \<Rightarrow> set_handle k (h\<lparr>h_producer := p', h_phase := Racing cur n fs,
            h_view := (if sequence_clear_of_consumers p < n_next
              then h_view h \<union> acquired (consumer_barrier p) msgs else h_view h)\<rparr>) s
        | Inl e \<Rightarrow> set_handle k (h\<lparr>h_phase := Free\<rparr>) s))
     | _ \<Rightarrow> s))"
| "mp_perform cfg (MpRace k) s = (let h = handles s k in
     (case h_phase h of Racing cur n fs \<Rightarrow>
       (let n_next = i64 (cur + i64 (int n)) in
        (case mp_compare_exchange cur n_next (bits_of s) of
          (Inr old, b) \<Rightarrow> if cur + int n + 1 < 2 ^ 62
            then set_handle k (h\<lparr>h_producer := (h_producer h)\<lparr>claimed_sequence := n_next\<rparr>,
                h_phase := Writing fs (batch_iter_new (i64 (i64 (n_next - i64 (int n)) + 1)) n_next) n, h_seen := n_next\<rparr>)
              (s\<lparr>shared := (shared s)\<lparr>producer_barrier := b\<rparr>, claim_history := claim_history s @ [n_next]\<rparr>)
            else s
        | (Inl new, b) \<Rightarrow> if claimed s \<noteq> cur
            then set_handle k (h\<lparr>h_phase := Checking (claimed s) n fs, h_seen := claimed s\<rparr>) s else s))
     | _ \<Rightarrow> s))"
| "mp_perform cfg (MpFill k) s = (let h = handles s k; \<sigma> = shared s in
     (case h_phase h of Writing (f # fs) it n \<Rightarrow>
       (case batch_iter_next (ring_buffer \<sigma>) it of
         (Some slot, it') \<Rightarrow> set_handle k (h\<lparr>h_phase := Writing fs it' n, h_view := insert (Wr (current it)) (h_view h)\<rparr>)
           (s\<lparr>shared := \<sigma>\<lparr>ring_buffer := update_at (ring_buffer \<sigma>) slot f\<rparr>,
             performed := insert (Wr (current it)) (performed s)\<rparr>)
       | _ \<Rightarrow> s)
     | _ \<Rightarrow> s))"
| "mp_perform cfg (MpFinish k) s = (let h = handles s k; upper = claimed_sequence (h_producer h) in
     (case h_phase h of Writing [] it n \<Rightarrow>
       set_handle k (h\<lparr>h_phase := Flipping (i64 (i64 (upper - i64 (int n)) + 1)) upper\<rparr>) s
     | _ \<Rightarrow> s))"
| "mp_perform cfg (MpUnwind k) s = (let h = handles s k in
     (case h_phase h of Writing fs it n \<Rightarrow>
       set_handle k (h\<lparr>h_phase := Free\<rparr>) (s\<lparr>lost := lost s \<union> owned (h_phase h)\<rparr>)
     | _ \<Rightarrow> s))"
| "mp_perform cfg (MpFlip k) s = (let h = handles s k; b = bits_of s in
     (case h_phase h of Flipping q upper \<Rightarrow>
       (let r = word_end q upper; b' = publish_range_relaxed q (r - q + 1) b; w = word_of b q in
        if q \<le> upper then set_handle k (h\<lparr>h_phase := Flipping (r + 1) upper\<rparr>)
          (s\<lparr>shared := (shared s)\<lparr>producer_barrier := b'\<rparr>,
            word_history := (word_history s)(w := word_history s w
              @ [flip_message b b' q r (h_view h) (last (word_history s w))]),
            event_at := record_events (ring_buffer (shared s)) q r (event_at s)\<rparr>)
        else s)
     | _ \<Rightarrow> s))"
| "mp_perform cfg (MpReturn k) s = (let h = handles s k in
     (case h_phase h of Flipping q upper \<Rightarrow> if q \<le> upper then s else set_handle k (h\<lparr>h_phase := Free\<rparr>) s | _ \<Rightarrow> s))"
| "mp_perform cfg (MpClone k k') s = (let h = handles s k in
     (case (h_phase h, h_phase (handles s k'), mp_clone (h_producer h) (shared s)) of
       (Free, NoHandle, Some (p', \<sigma>)) \<Rightarrow> set_handle k' (h\<lparr>h_producer := p'\<rparr>) (s\<lparr>shared := \<sigma>\<rparr>)
     | _ \<Rightarrow> s))"
| "mp_perform cfg (MpDrop k) s = (let h = handles s k; \<sigma> = shared s; v = claimed s in
     (case h_phase h of Free \<Rightarrow>
       if live_count \<sigma> \<noteq> 1
       then set_handle k (h\<lparr>h_phase := Gone\<rparr>)
         (s\<lparr>shared := \<sigma>\<lparr>live_count := i64 (live_count \<sigma> - 1)\<rparr>, mutex_seen := max (mutex_seen s) (h_seen h)\<rparr>)
       else set_handle k (h\<lparr>h_phase := Gone\<rparr>)
         (s\<lparr>shared := \<sigma>\<lparr>live_count := i64 (live_count \<sigma> - 1), shutdown_at_sequence := i64 (v + 1)\<rparr>,
           mutex_seen := max (mutex_seen s) (h_seen h), shutdown_history := shutdown_history s @ [i64 (v + 1)]\<rparr>)
     | _ \<Rightarrow> s))"
| "mp_perform cfg (MpConsume a) s =
     (case cons_perform cfg (bits_latest s) (shutdown_history s) (ring_buffer (shared s)) a (consumer_at s, performed s) of
       (cs, P) \<Rightarrow> s\<lparr>consumer_at := cs, performed := P\<rparr>)"

lemma nat_less_two_power: "int n < 2 ^ k \<longleftrightarrow> n < 2 ^ k"
  by (metis of_nat_less_iff of_nat_numeral of_nat_power)

lemma bits_latest_looks:
  assumes inv: "mp_inv cfg gate s" and i: "i \<in> set (all_consumers cfg)" "waits cfg i = OnProducer"
    and latest: "bits_latest s (next_seq (consumer_at s i)) (c_seen (consumer_at s i)) = (found, V, x)"
  shows "bits_look s (next_seq (consumer_at s i)) (c_seen (consumer_at s i)) found V x"
proof -
  let ?c = "consumer_at s i"
  note parts = mp_inv_parts [OF inv] and crew = mp_inv_parts(8) [OF inv, unfolded mp_crew_def]
  obtain j where j: "j < length (stages cfg)" "i \<in> set (stages cfg ! j)" using i(1) all_consumers_stage by blast
  then have "if j = 0 then waits cfg i = OnProducer else waits cfg i \<noteq> OnProducer"
    using parts(1) unfolding wf_config_def by meson
  then have "j = 0" using i(2) by (simp split: if_splits)
  then have "good s (c_seen ?c) (next_seq ?c - 1)"
    using crew_inv_good [OF crew, of i] crew_inv_cons [OF crew j] j by (auto simp: cons_inv_def Let_def intro: good_mono)
  moreover have "claimed s < next_seq ?c + laps s"
    using bspec [OF parts(7) [unfolded room_for_def] i(1)] crew_bounds(3) [OF crew i(1)] by simp
  ultimately obtain found' where "mp_get_after (bits_of s) (next_seq ?c) = Some found'"
    "bits_look s (next_seq ?c) (c_seen ?c) found'
       (\<Union>r\<in>{next_seq ?c..found' + 1}. w_view (last (word_history s (word_of (bits_of s) r))))
       (\<lambda>w. length (word_history s w) - 1)"
    using bits_look_newest [OF parts(2,3) crew_bounds(1) [OF crew i(1)]] by blast
  with latest show ?thesis by (auto simp: bits_latest_def newest_positions_def [abs_def])
qed

lemma newest_claim:
  assumes "mp_inv cfg gate s" "live (handles s k)"
  shows "may_read s (handles s k) (claimed s)"
  using assms mp_inv_parts(2,6) [OF assms(1)] by (auto simp: may_read_def claims_inv_def handle_inv_def)

lemma newest_may_load:
  assumes inv: "mp_inv cfg gate s"
  shows "may_load (consumer_at s) gate (newest_of (consumer_at s))"
  using dependents_known(1) [OF mp_inv_parts(1) [OF inv]] crew_history_nonempty [OF mp_inv_parts(8) [OF inv, unfolded mp_crew_def]]
  by (auto simp: may_load_def newest_of_def simp del: set_concat)

lemma mp_perform_consumes:
  assumes inv: "mp_inv cfg gate s"
  shows "mp_perform cfg (MpConsume a) s = s \<or> mp_consumes cfg s (mp_perform cfg (MpConsume a) s)"
proof -
  note step = cons_perform_step [OF mp_inv_parts(8) [OF inv, unfolded mp_crew_def] mp_inv_parts(1) [OF inv],
      of "bits_latest s" "bits_look s" "shutdown_history s" "ring_buffer (shared s)" a, OF bits_latest_looks [OF inv]]
  obtain cs P where cp: "cons_perform cfg (bits_latest s) (shutdown_history s) (ring_buffer (shared s)) a
      (consumer_at s, performed s) = (cs, P)" by fastforce
  have "mp_perform cfg (MpConsume a) s = s\<lparr>consumer_at := cs, performed := P\<rparr>"
    by (simp only: mp_perform.simps cp prod.case)
  moreover have "(cs, P) = (consumer_at s, performed s) \<or> mp_consumes cfg s (s\<lparr>consumer_at := cs, performed := P\<rparr>)"
    using step unfolding cp mp_consumes_def by blast
  ultimately show ?thesis by auto
qed

lemma mp_perform_step:
  assumes inv: "mp_inv cfg gate s"
  shows "mp_perform cfg a s = s \<or> mp_step cfg s (mp_perform cfg a s)"
proof (cases a)
  case (MpBegin k n fs)
  show ?thesis
  proof (cases "h_phase (handles s k) = Free \<and> int n < 2 ^ 62")
    case True
    then have "may_read s (handles s k) (claimed s)" by (intro newest_claim [OF inv]) (simp add: live_def)
    moreover have "n < 2 ^ 62" using True nat_less_two_power by blast
    ultimately show ?thesis
      using True mp_step.Begin [OF refl, of s k n "claimed s" cfg fs] by (simp add: MpBegin Let_def)
  next
    case False
    then show ?thesis by (auto simp: MpBegin Let_def split: mp_phase.split)
  qed
next
  case (MpCheck k)
  show ?thesis
  proof (cases "h_phase (handles s k)")
    case (Checking cur n fs)
    let ?p = "h_producer (handles s k)" and ?msgs = "newest_of (consumer_at s)"
    have "consumer_barrier ?p = gate"
      using mp_inv_parts(6) [OF inv, of k] Checking by (simp add: handle_inv_def live_def)
    with newest_may_load [OF inv] have load: "may_load (consumer_at s) (consumer_barrier ?p) ?msgs" by simp
    note no_merge = i64_add_right i64_add_left i64_diff_right i64_diff_left
    show ?thesis
    proof (cases "mp_check_room gate_get_after (i64 (int n)) cur (i64 (cur + i64 (int n))) ((shared s)\<lparr>consumers := loaded ?msgs\<rparr>) ?p")
      case (Inl e)
      with mp_step.Refuse [OF refl Checking refl refl load Inl] show ?thesis
        by (simp add: MpCheck Checking Let_def del: no_merge)
    next
      case (Inr p')
      with mp_step.Check [OF refl Checking refl refl load Inr] show ?thesis
        by (simp add: MpCheck Checking Let_def del: no_merge)
    qed
  qed (simp_all add: MpCheck)
next
  case (MpRace k)
  have "may_read s (handles s k) (claimed s)" if "h_phase (handles s k) = Racing cur n fs" for cur n fs
    using that by (intro newest_claim [OF inv]) (simp add: live_def)
  then show ?thesis
    unfolding MpRace
    by (auto simp: Let_def simp del: i64_add_right i64_add_left i64_diff_right i64_diff_left
        intro!: mp_step.Win [OF refl _ refl] mp_step.Lose [OF refl] split: mp_phase.split sum.split prod.split)
next
  case (MpFill k)
  then show ?thesis
    by (auto simp: Let_def intro!: mp_step.Fill split: mp_phase.split list.split option.split prod.split)
next
  case (MpFinish k)
  then show ?thesis
    by (auto simp: Let_def simp del: i64_add_right i64_add_left i64_diff_right i64_diff_left
        intro!: mp_step.Finish split: mp_phase.split list.split)
next
  case (MpUnwind k)
  then show ?thesis
    using mp_step.Unwind [OF refl, of s k _ _ _ cfg] by (cases "h_phase (handles s k)") (simp_all add: Let_def)
next
  case (MpFlip k)
  then show ?thesis
    by (auto simp: Let_def intro!: mp_step.Flip split: mp_phase.split)
next
  case (MpReturn k)
  then show ?thesis
    by (auto simp: Let_def intro!: mp_step.Return split: mp_phase.split)
next
  case (MpClone k k')
  then show ?thesis
    by (auto simp: Let_def intro!: mp_step.Clone split: mp_phase.split option.split)
next
  case (MpDrop k)
  have "may_read s (handles s k) (claimed s)" if "h_phase (handles s k) = Free"
    using that by (intro newest_claim [OF inv]) (simp add: live_def)
  moreover have "mutex_seen s \<le> claimed s" using mp_inv_parts(5) [OF inv] by (simp add: count_inv_def)
  ultimately show ?thesis
    unfolding MpDrop using mp_step.LastDrop [OF refl _ refl, of s k "claimed s" cfg]
    by (auto simp: Let_def intro!: mp_step.Drop split: mp_phase.split)
next
  case (MpConsume a)
  with mp_perform_consumes [OF inv, of a] mp_consumes_step show ?thesis by blast
qed

lemma mp_reachable_performs:
  assumes "mp_fresh p \<sigma>" "wf_config cfg (consumer_barrier p)"
  shows "mp_reachable cfg (fold (mp_perform cfg) acts (mp_init p \<sigma>))"
proof (induction acts rule: rev_induct)
  case Nil
  with assms show ?case by (simp add: mp_reachable.Start)
next
  case (snoc a acts)
  from mp_inv_reachable [OF snoc] obtain gate where "mp_inv cfg gate (fold (mp_perform cfg) acts (mp_init p \<sigma>))" .
  from mp_perform_step [OF this, of a] mp_reachable.Step [OF snoc] snoc show ?case by auto
qed

end
