(* ===== verification/Mpmc_Safety.thy ===== *)
theory Mpmc_Safety
  imports Mpmc_Schedule
begin

text \<open>
  What the invariant of \<open>Mpmc_System\<close> gives: exclusive claims, ordering of the slot accesses, delivery
  and stage order of a running disruptor with any number of producer handles.
\<close>

section \<open>Concrete runs\<close>

text \<open>
  Two stages of one thread each over 64 slots, and two handles: the second claims sequence 1 and
  publishes it before the first has published sequence 0.
\<close>

definition mp_ex_cfg :: config where
  "mp_ex_cfg = \<lparr>stages = [[0], [1]], waits = (\<lambda>i. if i = 0 then OnProducer else OnConsumer (UniConsumerBarrier 0)),
     is_poller = (\<lambda>_. False)\<rparr>"

definition mp_ex_ring :: "int ring_buffer" where
  "mp_ex_ring = \<lparr>slots = replicate 64 0, index_mask = 63\<rparr>"

definition mp_ex_barrier :: mp_barrier where
  "mp_ex_barrier = (case mp_barrier_new 64 of Inr b \<Rightarrow> b)"

definition mp_ex_start :: "dependent multi_producer \<times> (int, cursors) mp_shared" where
  "mp_ex_start = multi_producer_new NONE mp_ex_ring mp_ex_barrier [] (OnConsumer (UniConsumerBarrier 1)) (\<lambda>_. cursor_new NONE)"

definition mp_ex_run :: "int mp_act list \<Rightarrow> int mp_system" where
  "mp_ex_run acts = fold (mp_perform mp_ex_cfg) acts (mp_init (fst mp_ex_start) (snd mp_ex_start))"

definition mp_ex_overtake :: "int mp_act list" where
  "mp_ex_overtake = [MpClone 0 1, MpBegin 0 1 [\<lambda>_. 7], MpCheck 0, MpRace 0, MpBegin 1 1 [\<lambda>_. 8], MpCheck 1, MpRace 1,
     MpFill 1, MpFinish 1, MpFlip 1, MpReturn 1]"

definition mp_ex_done :: "int mp_act list" where
  "mp_ex_done = mp_ex_overtake @ [MpFill 0, MpFinish 0, MpFlip 0, MpReturn 0]
     @ map MpConsume [DoLook 0, DoHandle 0, DoHandle 0, DoAdvance 0, DoLook 1, DoHandle 1, DoHandle 1, DoAdvance 1]"

lemma wf_mp_ex_cfg: "wf_config mp_ex_cfg (consumer_barrier (fst mp_ex_start))"
  by (simp add: wf_config_def mp_ex_cfg_def mp_ex_start_def multi_producer_new_def nth_Cons' less_Suc_eq)

lemma fresh_mp_ex: "mp_fresh (fst mp_ex_start) (snd mp_ex_start)"
proof -
  have two: "is_power_of_two 64" unfolding is_power_of_two_iff by (intro exI [of _ 6]) simp
  then have "wf_ring mp_ex_ring" by (simp add: wf_ring_def mp_ex_ring_def)
  moreover have "mp_barrier_new 64 = Inr mp_ex_barrier"
    by (simp add: mp_ex_barrier_def mp_barrier_new_def split: sum.split)
  ultimately show ?thesis
    by (simp add: mp_fresh_def mp_ex_start_def multi_producer_new_def mp_ex_ring_def ring_size_def i64_id in_i64_iff)
qed

lemma mp_ex_run_reachable: "mp_reachable mp_ex_cfg (mp_ex_run acts)"
  unfolding mp_ex_run_def by (rule mp_reachable_performs [OF fresh_mp_ex wf_mp_ex_cfg])

section \<open>Exclusive claims\<close>

lemma mp_reachable_crew:
  assumes "mp_reachable cfg s"
  shows "crew_inv cfg (good s) (consumer_at s) (performed s) (front s) (event_at s) (complete s)"
    "\<exists>gate. wf_config cfg gate"
  by (rule_tac [!] mp_inv_reachable [OF assms]) (auto simp: mp_inv_def mp_crew_def)

lemma window:
  assumes inv: "mp_inv cfg gate s" and "front s \<le> q" "q \<le> claimed s" "front s \<le> r" "r \<le> claimed s"
    and same: "ring_get (ring_buffer (shared s)) q = ring_get (ring_buffer (shared s)) r"
  shows "q = r"
proof -
  note parts = mp_inv_parts [OF inv]
  have "\<bar>q - r\<bar> < laps s" using room_front [OF inv parts(7)] assms(2-5) by linarith
  moreover have "q mod laps s = r mod laps s"
    using ring_get_eq_iff [OF parts(10), of q r] same parts(11) by metis
  ultimately show ?thesis by (rule mod_window_inj [rotated])
qed

text \<open>
  C9. Claims are exclusive: every sequence up to the claim cursor is published, or owned by a handle
  that still works on it, or lost to a panic, and only one of these; no sequence has two owners, and
  two sequences that are owned at the same time never share a slot, not even across laps.
\<close>

theorem claims_are_exclusive:
  assumes "mp_reachable cfg s"
  shows "(\<forall>q. 0 \<le> q \<and> q \<le> claimed s \<longleftrightarrow>
        is_published s q \<or> (\<exists>k. q \<in> owned (h_phase (handles s k))) \<or> q \<in> lost s)
    \<and> (\<forall>k q. q \<in> owned (h_phase (handles s k)) \<longrightarrow> \<not> is_published s q \<and> q \<notin> lost s)
    \<and> (\<forall>q. q \<in> lost s \<longrightarrow> \<not> is_published s q)
    \<and> (\<forall>k q j r. q \<in> owned (h_phase (handles s k)) \<and> r \<in> owned (h_phase (handles s j))
        \<and> ring_get (ring_buffer (shared s)) q = ring_get (ring_buffer (shared s)) r \<longrightarrow> k = j \<and> q = r)"
proof -
  from mp_inv_reachable [OF assms] obtain gate where inv: "mp_inv cfg gate s" .
  note parts = mp_inv_parts [OF inv]
  have "k = j \<and> q = r" if "q \<in> owned (h_phase (handles s k))" "r \<in> owned (h_phase (handles s j))"
    "ring_get (ring_buffer (shared s)) q = ring_get (ring_buffer (shared s)) r" for k q j r
  proof -
    have "q = r" using window [OF inv _ _ _ _ that(3)] owned_front [OF parts(2)] that(1,2) by blast
    with that owned_apart [OF parts(2)] show ?thesis by blast
  qed
  with parts(2) show ?thesis unfolding claims_inv_def by blast
qed

theorem claims_are_exclusive_witness:
  "owned (h_phase (handles (mp_ex_run mp_ex_overtake) 0)) = {0} \<and> is_published (mp_ex_run mp_ex_overtake) 1
   \<and> \<not> is_published (mp_ex_run mp_ex_overtake) 0"
proof -
  let ?s = "mp_ex_run mp_ex_overtake"
  have "case h_phase (handles ?s 0) of Writing fs it n \<Rightarrow> last_sequence it = 0 \<and> n = 1 | _ \<Rightarrow> False" by code_simp
  then have own: "owned (h_phase (handles ?s 0)) = {0}" by (auto split: mp_phase.splits)
  moreover have "is_published ?s 1" by code_simp
  ultimately show ?thesis using claims_are_exclusive [OF mp_ex_run_reachable, of mp_ex_overtake] by blast
qed

section \<open>No data races\<close>

lemma mp_write_ordered:
  assumes inv: "mp_inv cfg gate s" and h: "h_phase (handles s k) = Writing fs it n"
    and next_item: "batch_iter_next (ring_buffer (shared s)) it = (Some slot, it')"
  shows "slot_accesses (ring_buffer (shared s)) (performed s) slot \<subseteq> h_view (handles s k)"
proof
  fix x assume x: "x \<in> slot_accesses (ring_buffer (shared s)) (performed s) slot"
  let ?h = "handles s k" and ?w = "current it" and ?rb = "ring_buffer (shared s)"
  note parts = mp_inv_parts [OF inv] and crew = mp_inv_parts(8) [OF inv, unfolded mp_crew_def]
  have w: "?w \<le> last_sequence it" and slot: "slot = ring_get ?rb ?w"
    using next_item by (auto simp: batch_iter_next_def split: if_splits)
  have own: "handle_inv cfg gate s ?h" and live: "live ?h" using parts(6) h by (simp_all add: live_def)
  then have clear: "last_sequence it \<le> sequence_clear_of_consumers (h_producer ?h)"
    and low: "last_sequence it - int n + 1 \<le> ?w"
    and view: "before (performed s) (set (all_consumers cfg)) (sequence_clear_of_consumers (h_producer ?h) - laps s) \<subseteq> h_view ?h"
    using h by (simp_all add: handle_inv_def del: set_concat of_nat_Suc)
  have mine: "?w \<in> owned (h_phase ?h)" using h w low by simp
  note front = owned_front [OF parts(2) mine]
  have early: "x \<in> h_view ?h" if "x \<in> performed s" "ring_get ?rb q = ring_get ?rb ?w" "q < ?w"
    "x = Wr q \<or> (\<exists>i\<in>set (all_consumers cfg). x = Rd i q)" for q
  proof -
    have "q \<le> ?w - laps s" using lap_below [OF parts(10) that(2,3)] parts(11) by simp
    then have "x \<in> before (performed s) (set (all_consumers cfg)) (sequence_clear_of_consumers (h_producer ?h) - laps s)"
      using that(1,4) w clear by (auto simp: before_def simp del: set_concat)
    with view show ?thesis by blast
  qed
  show "x \<in> h_view ?h"
  proof (cases x)
    case (Wr q)
    then have q: "Wr q \<in> performed s" "ring_get ?rb q = ring_get ?rb ?w" using x slot by (auto simp: slot_accesses_def)
    have le: "q \<le> claimed s"
      using written_claimed [OF parts(2,4) q(1)] by simp
    show ?thesis
    proof (cases "q < front s")
      case True
      then show ?thesis using early [of q] q Wr front by simp
    next
      case False
      then have "q = ?w" using window [OF inv _ le _ _ q(2)] front by simp
      then show ?thesis using own q(1) mine Wr unfolding handle_inv_def by blast
    qed
  next
    case (Rd i q)
    then have q: "Rd i q \<in> performed s" "ring_get ?rb q = ring_get ?rb ?w"
      using x slot by (auto simp: slot_accesses_def ring_get_ref_eq)
    note i = crew_inv_reads [OF crew q(1)]
    then have "q < ?w" using crew_bounds(2) [OF crew, of i] front by simp
    then show ?thesis using early [of q] q Rd i by blast
  qed
qed

lemma mp_lag:
  assumes inv: "mp_inv cfg gate s" and i: "i \<in> set (all_consumers cfg)"
  shows "claimed s < next_seq (consumer_at s i) + laps s"
  using bspec [OF mp_inv_parts(7) [OF inv, unfolded room_for_def] i]
    crew_bounds(3) [OF mp_inv_parts(8) [OF inv, unfolded mp_crew_def] i] by simp

lemma mp_read_ordered:
  assumes inv: "mp_inv cfg gate s" and i: "i \<in> set (all_consumers cfg)"
    and phase: "c_phase (consumer_at s i) = Handling found" and more: "next_seq (consumer_at s i) \<le> found"
  shows "slot_writes (ring_buffer (shared s)) (performed s)
      (ring_get_ref (ring_buffer (shared s)) (next_seq (consumer_at s i))) \<subseteq> c_view (consumer_at s i)"
proof
  let ?c = "consumer_at s i"
  fix x assume x: "x \<in> slot_writes (ring_buffer (shared s)) (performed s)
      (ring_get_ref (ring_buffer (shared s)) (next_seq ?c))"
  note parts = mp_inv_parts [OF inv]
  from x obtain q where q: "x = Wr q" "Wr q \<in> performed s"
    "ring_get (ring_buffer (shared s)) (next_seq ?c) = ring_get (ring_buffer (shared s)) q"
    by (auto simp: slot_writes_def slot_accesses_def ring_get_ref_eq split: access.splits)
  have "q \<le> claimed s" using written_claimed [OF parts(2,4) q(2)] by simp
  with mp_lag [OF inv i] have "q < next_seq ?c + laps s" by simp
  then have "q \<le> next_seq ?c" using lap_below [OF parts(10) q(3)] parts(11) by (cases "next_seq ?c < q") auto
  with crew_read_ordered [OF parts(8) [unfolded mp_crew_def] i phase more q(2)] q(1) show "x \<in> c_view ?c" by simp
qed

text \<open>
  C1. With any number of producer handles there are no data races, on any interleaving and with any
  stale loads: when a handle is about to write a slot, every access ever made to that slot, by any
  handle or consumer, happens before the write; when a consumer is about to read a slot, every write
  ever made to it happens before the read.
\<close>

theorem mp_slot_accesses_never_race:
  assumes "mp_reachable cfg s"
  shows "(\<forall>k f fs it n slot it'. h_phase (handles s k) = Writing (f # fs) it n
        \<and> batch_iter_next (ring_buffer (shared s)) it = (Some slot, it')
        \<longrightarrow> slot_accesses (ring_buffer (shared s)) (performed s) slot \<subseteq> h_view (handles s k))
    \<and> (\<forall>i\<in>set (all_consumers cfg). \<forall>found. c_phase (consumer_at s i) = Handling found
        \<and> next_seq (consumer_at s i) \<le> found \<longrightarrow>
        slot_writes (ring_buffer (shared s)) (performed s)
          (ring_get_ref (ring_buffer (shared s)) (next_seq (consumer_at s i))) \<subseteq> c_view (consumer_at s i))"
  using mp_inv_reachable [OF assms] mp_write_ordered mp_read_ordered by metis

theorem mp_slot_accesses_never_race_witness:
  "let s = mp_ex_run (take 16 mp_ex_done) in
     slot_writes (ring_buffer (shared s)) (performed s) 0 = {Wr 0}
     \<and> slot_writes (ring_buffer (shared s)) (performed s) 0 \<subseteq> c_view (consumer_at s 0)"
  unfolding Let_def
proof
  let ?s = "mp_ex_run (take 16 mp_ex_done)"
  show "slot_writes (ring_buffer (shared ?s)) (performed ?s) 0 = {Wr 0}" by code_simp
  have "case c_phase (consumer_at ?s 0) of Handling found \<Rightarrow> next_seq (consumer_at ?s 0) \<le> found | _ \<Rightarrow> False" by code_simp
  then obtain found where "c_phase (consumer_at ?s 0) = Handling found" "next_seq (consumer_at ?s 0) \<le> found"
    by (auto split: cons_phase.splits)
  moreover have "ring_get_ref (ring_buffer (shared ?s)) (next_seq (consumer_at ?s 0)) = 0" by code_simp
  moreover have "0 \<in> set (all_consumers mp_ex_cfg)" by (simp add: mp_ex_cfg_def)
  ultimately show "slot_writes (ring_buffer (shared ?s)) (performed ?s) 0 \<subseteq> c_view (consumer_at ?s 0)"
    using mp_slot_accesses_never_race [OF mp_ex_run_reachable, of "take 16 mp_ex_done"] by metis
qed

text \<open>
  C30. Neither the handles nor the consumers overrun: no claim, finished or not, is a lap ahead of any
  consumer, and no consumer is ahead of the first unpublished sequence, however far others have
  published out of order beyond it.
\<close>

theorem mp_within_a_lap:
  assumes "mp_reachable cfg s" "i \<in> set (all_consumers cfg)"
  shows "claimed s < next_seq (consumer_at s i) + laps s
    \<and> next_seq (consumer_at s i) \<le> front s \<and> \<not> is_published s (front s)"
proof -
  from mp_inv_reachable [OF assms(1)] obtain gate where inv: "mp_inv cfg gate s" .
  from mp_lag [OF inv assms(2)] crew_bounds(2) [OF mp_reachable_crew(1) [OF assms(1)] assms(2)]
    front_least(1) [OF mp_inv_parts(2) [OF inv]] show ?thesis by blast
qed

theorem mp_within_a_lap_witness:
  "is_published (mp_ex_run mp_ex_overtake) 1 \<and> claimed (mp_ex_run mp_ex_overtake) < 0 + 64"
proof
  have "0 \<in> set (all_consumers mp_ex_cfg)" by (simp add: mp_ex_cfg_def)
  from mp_within_a_lap [OF mp_ex_run_reachable this, of mp_ex_overtake]
  have "claimed (mp_ex_run mp_ex_overtake) < next_seq (consumer_at (mp_ex_run mp_ex_overtake) 0) + laps (mp_ex_run mp_ex_overtake)"
    by blast
  moreover have "next_seq (consumer_at (mp_ex_run mp_ex_overtake) 0) = 0" by code_simp
  moreover have "laps (mp_ex_run mp_ex_overtake) = 64" by code_simp
  ultimately show "claimed (mp_ex_run mp_ex_overtake) < 0 + 64" by metis
qed code_simp

section \<open>Delivery\<close>

text \<open>
  What is published stays: no step of any thread takes a publication back or changes its event.
\<close>

theorem mp_published_events_stay:
  assumes "mp_reachable cfg s" "mp_step cfg s s'" "is_published s q"
  shows "is_published s' q \<and> event_at s' q = event_at s q"
  using assms(2)
proof cases
  case (Win h k cur n fs n_next old b)
  then have "is_published s' = is_published s"
    by (intro published_cong) (auto simp: mp_compare_exchange_def compare_exchange_def split_beta split: if_splits prod.splits)
  with Win(1) assms(3) show ?thesis by simp
next
  case (Fill h k f fs it n \<sigma> slot it')
  then have "is_published s' = is_published s" by (intro published_cong) simp_all
  with Fill(1) assms(3) show ?thesis by simp
next
  case (Unwind h k fs it n)
  then have "is_published s' = is_published s" by (intro published_cong) simp_all
  with Unwind(1) assms(3) show ?thesis by simp
next
  case (Flip h k q' upper r b b' w)
  from mp_inv_reachable [OF assms(1)] obtain gate where "mp_inv cfg gate s" .
  then have flip: "may_flip cfg gate s k q' upper r" using Flip by (simp add: may_flip_def)
  have s': "s' = set_handle k (h\<lparr>h_phase := Flipping (r + 1) upper\<rparr>) (flipped q' r (h_view h) s)"
    using Flip by (simp add: flipped_def Let_def)
  have "q \<notin> {q'..r}" using flip_range(3,6) [OF flip] assms(3) by force
  with assms(3) flip_published [OF flip, of "h_view h" q] show ?thesis by (auto simp: s' flipped_simps(11))
next
  case (Clone h k k' p' \<sigma>)
  then have "is_published s' = is_published s"
    by (intro published_cong) (auto simp: mp_clone_def Let_def split: if_splits)
  with Clone(1) assms(3) show ?thesis by simp
next
  case (Drop h k \<sigma>)
  then have "is_published s' = is_published s" by (intro published_cong) simp_all
  with Drop(1) assms(3) show ?thesis by simp
next
  case (LastDrop h k \<sigma> v)
  then have "is_published s' = is_published s" by (intro published_cong) simp_all
  with LastDrop(1) assms(3) show ?thesis by simp
next
  case (Consume cs P)
  then have "is_published s' = is_published s" by (intro published_cong) simp_all
  with Consume(1) assms(3) show ?thesis by simp
qed (use assms(3) in simp_all)

lemma mp_ex_run_step:
  "mp_ex_run (acts @ [a]) \<noteq> mp_ex_run acts \<Longrightarrow> mp_step mp_ex_cfg (mp_ex_run acts) (mp_ex_run (acts @ [a]))"
  using mp_inv_reachable [OF mp_ex_run_reachable [of acts]] mp_perform_step [of mp_ex_cfg _ "mp_ex_run acts" a]
  by (metis (no_types, lifting) fold_append fold_simps comp_apply mp_ex_run_def)

theorem mp_published_events_stay_witness:
  "event_at (mp_ex_run (mp_ex_overtake @ [MpFill 0])) 1 = 8 \<and> is_published (mp_ex_run (mp_ex_overtake @ [MpFill 0])) 1"
proof -
  let ?s = "mp_ex_run mp_ex_overtake" and ?t = "mp_ex_run (mp_ex_overtake @ [MpFill 0])"
  have "slots (ring_buffer (shared ?s)) ! 0 = 0" "slots (ring_buffer (shared ?t)) ! 0 = 7" by code_simp+
  then have "mp_step mp_ex_cfg ?s ?t" by (intro mp_ex_run_step) force
  moreover have "is_published ?s 1" "event_at ?s 1 = 8" by code_simp+
  ultimately show ?thesis using mp_published_events_stay [OF mp_ex_run_reachable] by metis
qed

text \<open>
  C3. Every thread and every poller is given published events only, unchanged and in order, none
  twice; and a thread's handler has been called with exactly the first of them, with consecutive
  sequences from 0 on, however the producers interleaved.
\<close>

theorem mp_consumers_deliver_in_order:
  assumes "mp_reachable cfg s" "i \<in> set (all_consumers cfg)"
  shows "sorted_wrt (<) (map fst (c_log (consumer_at s i)))
    \<and> (\<forall>(q, e, b)\<in>set (c_log (consumer_at s i)). is_published s q \<and> e = event_at s q)
    \<and> (\<not> is_poller cfg i \<longrightarrow> map (\<lambda>(q, e, b). (q, e)) (c_log (consumer_at s i)) =
        map (\<lambda>q. (q, event_at s q)) [0..int (length (c_log (consumer_at s i))) - 1])"
proof -
  let ?c = "consumer_at s i"
  note crew = mp_reachable_crew(1) [OF assms(1)]
  from mp_inv_reachable [OF assms(1)] obtain gate where "mp_inv cfg gate s" .
  note claims = mp_inv_parts(2) [OF this]
  have "\<forall>(q, e, b)\<in>set (c_log ?c). is_published s q \<and> e = event_at s q"
    using crew_delivery(2) [OF crew assms(2)] front_least(2) [OF claims] by fastforce
  moreover have "map (\<lambda>(q, e, b). (q, e)) (c_log ?c) = map (\<lambda>q. (q, event_at s q)) [0..int (length (c_log ?c)) - 1]"
    if "\<not> is_poller cfg i"
  proof -
    have "length (c_log ?c) = nat (next_seq ?c)"
      using arg_cong [OF crew_delivery(3) [OF crew assms(2) that], of length] by simp
    with crew_events [OF crew assms(2) that] crew_bounds(1) [OF crew assms(2)] show ?thesis by simp
  qed
  ultimately show ?thesis using crew_delivery(1) [OF crew assms(2)] by blast
qed

theorem mp_consumers_deliver_in_order_witness:
  "length (c_log (consumer_at (mp_ex_run mp_ex_done) 1)) = 2
   \<and> map (\<lambda>(q, e, b). (q, e)) (c_log (consumer_at (mp_ex_run mp_ex_done) 1)) =
       map (\<lambda>q. (q, event_at (mp_ex_run mp_ex_done) q)) [0..1]"
proof
  have all: "1 \<in> set (all_consumers mp_ex_cfg)" "\<not> is_poller mp_ex_cfg 1" by (simp_all add: mp_ex_cfg_def)
  show log: "length (c_log (consumer_at (mp_ex_run mp_ex_done) 1)) = 2" by code_simp
  show "map (\<lambda>(q, e, b). (q, e)) (c_log (consumer_at (mp_ex_run mp_ex_done) 1)) =
      map (\<lambda>q. (q, event_at (mp_ex_run mp_ex_done) q)) [0..1]"
    using mp_consumers_deliver_in_order [OF mp_ex_run_reachable all(1), of mp_ex_done] all(2)
    by (simp add: log [unfolded One_nat_def])
qed

end
