(* ===== verification/Mpmc_Shutdown.thy ===== *)
theory Mpmc_Shutdown
  imports Mpmc_Safety
begin

text \<open>
  The end of a running multi-producer disruptor (\<open>Drop for MultiProducer\<close> in \<open>src/producer/multi.rs\<close>).
  The last drop, whichever handle it is, reads the claim cursor \<open>Relaxed\<close>; because every earlier drop
  held the mutex it still reads the newest claim, and stores the mark just behind it. After that only
  consumers step, and \<open>drop_bound\<close> bounds the steps of threads, whatever the pollers do in between, as for a
  single producer.
\<close>

section \<open>Catching up\<close>

lemma mp_consumes_advances:
  "(\<exists>s'. mp_consumes cfg s s' \<and> thread_advances cfg (consumer_at s) (consumer_at s')) \<longleftrightarrow>
   (\<exists>cs P. cons_step cfg (bits_look s) (shutdown_history s) (ring_buffer (shared s))
      (consumer_at s, performed s) (cs, P) \<and> thread_advances cfg (consumer_at s) cs)"
  unfolding mp_consumes_def by (auto 0 3)

lemma mp_consumes_run:
  assumes run: "mp_reachable cfg s" and steps: "thread_run cfg consumer_at (mp_consumes cfg) n s s'"
  shows "mp_reachable cfg s' \<and> (\<exists>cs P. s' = s\<lparr>consumer_at := cs, performed := P\<rparr>)
    \<and> n + drop_bound cfg (front s) (consumer_at s') \<le> drop_bound cfg (front s) (consumer_at s)"
  using steps run
proof (induction rule: thread_run.induct)
  case (Start s)
  then show ?case by (auto intro!: exI [of _ "consumer_at s"] exI [of _ "performed s"])
next
  case (Step n s u s')
  from Step.IH [OF Step.prems] obtain cs P where IH: "mp_reachable cfg u" "u = s\<lparr>consumer_at := cs, performed := P\<rparr>"
    "n + drop_bound cfg (front s) (consumer_at u) \<le> drop_bound cfg (front s) (consumer_at s)" by blast
  have front: "front u = front s" unfolding IH(2) by (intro front_cong published_cong) simp_all
  from Step.hyps(2) obtain cs' P' where step: "cons_step cfg (bits_look u) (shutdown_history u) (ring_buffer (shared u))
      (consumer_at u, performed u) (cs', P')" "s' = u\<lparr>consumer_at := cs', performed := P'\<rparr>"
    unfolding mp_consumes_def by blast
  from mp_inv_reachable [OF IH(1)] obtain gate where "mp_inv cfg gate u" .
  then have "claims_inv u \<and> words_inv u \<and> writes_inv u \<and> count_inv u" using mp_inv_parts(2-5) by blast
  from mpmc.crew_step_bound [OF step(1) mp_reachable_crew(1) [OF IH(1)] this] IH(3)
  have "(if thread_moves cfg (consumer_at u) cs' then Suc n else n) + drop_bound cfg (front s) cs'
    \<le> drop_bound cfg (front s) (consumer_at s)" by (simp add: front)
  moreover have "mp_reachable cfg s'" using mp_reachable.Step [OF IH(1) mp_consumes_step [OF Step.hyps(2)]] .
  moreover have "s' = s\<lparr>consumer_at := cs', performed := P'\<rparr>" using step(2) IH(2) by simp
  ultimately show ?case by auto
qed

text \<open>
  C20. No published event gets stuck: whenever the producers pause, in any state they may be in, the
  consumer threads can take at most \<open>drop_bound\<close> steps, however the pollers move in between. Where no thread
  can take another but a panic, every thread has handled everything published before the first gap, in order, unless
  it has panicked itself, a thread of an earlier stage has, or a poller of an earlier stage has not been
  polled up to that gap.
\<close>

theorem mp_consumers_catch_up:
  assumes run: "mp_reachable cfg s" and steps: "thread_run cfg consumer_at (mp_consumes cfg) n s s'"
  shows "n \<le> drop_bound cfg (front s) (consumer_at s)
    \<and> ((\<nexists>s''. mp_consumes cfg s' s'' \<and> thread_advances cfg (consumer_at s') (consumer_at s'')) \<longrightarrow>
    (\<forall>j < length (stages cfg). \<forall>i\<in>set (stages cfg ! j).
      \<not> is_poller cfg i \<and> unobstructed cfg (front s) (consumer_at s') j \<and> c_phase (consumer_at s' i) \<noteq> Crashed \<longrightarrow>
      map (\<lambda>(q, e, b). (q, e)) (c_log (consumer_at s' i)) = map (\<lambda>q. (q, event_at s q)) [0..front s - 1]))"
proof -
  from mp_consumes_run [OF assms] obtain cs P where s': "mp_reachable cfg s'" "s' = s\<lparr>consumer_at := cs, performed := P\<rparr>"
    "n + drop_bound cfg (front s) (consumer_at s') \<le> drop_bound cfg (front s) (consumer_at s)" by blast
  have same: "front s' = front s" "event_at s' = event_at s"
    unfolding s'(2) by (intro front_cong published_cong, simp_all)
  from mp_inv_reachable [OF s'(1)] obtain gate where "mp_inv cfg gate s'" .
  note parts = mp_inv_parts [OF this]
  have "claims_inv s' \<and> words_inv s' \<and> writes_inv s' \<and> count_inv s'" using parts(2-5) by blast
  then have "map (\<lambda>(q, e, b). (q, e)) (c_log (consumer_at s' i)) = map (\<lambda>q. (q, event_at s' q)) [0..front s' - 1]"
    if "\<nexists>s''. mp_consumes cfg s' s'' \<and> thread_advances cfg (consumer_at s') (consumer_at s'')"
      "j < length (stages cfg)" "i \<in> set (stages cfg ! j)" "\<not> is_poller cfg i"
      "unobstructed cfg (front s') (consumer_at s') j" "c_phase (consumer_at s' i) \<noteq> Crashed" for i j
    using mpmc.stuck_crew_caught_up(1) [OF parts(8) [unfolded mp_crew_def] parts(1) _ parts(7) [unfolded room_for_def] _ that(2-6)]
      that(1) unfolding mp_consumes_advances by blast
  moreover have "n \<le> drop_bound cfg (front s) (consumer_at s)" using s'(3) by linarith
  ultimately show ?thesis unfolding same by blast
qed

theorem mp_consumers_catch_up_witness:
  "let s = mp_ex_run (take 15 mp_ex_done); s' = mp_ex_run (take 17 mp_ex_done) in
     thread_run mp_ex_cfg consumer_at (mp_consumes mp_ex_cfg) 2 s s' \<and> 2 \<le> drop_bound mp_ex_cfg (front s) (consumer_at s)"
proof -
  let ?s = "mp_ex_run (take 15 mp_ex_done)" and ?t = "mp_perform mp_ex_cfg (MpConsume (DoLook 0))"
    and ?u = "mp_perform mp_ex_cfg (MpConsume (DoHandle 0))"
  have run: "?u (?t ?s) = mp_ex_run (take 17 mp_ex_done)" and mid: "?t ?s = mp_ex_run (take 16 mp_ex_done)"
    by (simp_all add: mp_ex_run_def mp_ex_done_def mp_ex_overtake_def take_Cons' del: mp_perform.simps)
  have "c_phase (consumer_at (mp_ex_run (take 16 mp_ex_done)) 0) \<noteq> c_phase (consumer_at ?s 0)"
    "next_seq (consumer_at (mp_ex_run (take 17 mp_ex_done)) 0) \<noteq> next_seq (consumer_at (mp_ex_run (take 16 mp_ex_done)) 0)"
    by code_simp+
  moreover have "0 \<in> set (threads mp_ex_cfg)" by (simp add: threads_def mp_ex_cfg_def)
  ultimately have moves: "thread_moves mp_ex_cfg (consumer_at ?s) (consumer_at (?t ?s))"
    "thread_moves mp_ex_cfg (consumer_at (?t ?s)) (consumer_at (?u (?t ?s)))"
    unfolding thread_moves_def mid run [unfolded mid] by metis+
  then have "?t ?s \<noteq> ?s" "?u (?t ?s) \<noteq> ?t ?s" unfolding thread_moves_def by metis+
  moreover have "mp_reachable mp_ex_cfg (?t ?s)" unfolding mid by (rule mp_ex_run_reachable)
  ultimately have "mp_consumes mp_ex_cfg ?s (?t ?s)" "mp_consumes mp_ex_cfg (?t ?s) (?u (?t ?s))"
    using mp_perform_consumes mp_inv_reachable mp_ex_run_reachable by metis+
  with moves have steps: "thread_run mp_ex_cfg consumer_at (mp_consumes mp_ex_cfg) 2 ?s (mp_ex_run (take 17 mp_ex_done))"
    unfolding run numeral_2_eq_2 by (blast intro: thread_run.Start thread_run_Suc)
  from mp_consumers_catch_up [OF mp_ex_run_reachable steps] steps show ?thesis unfolding Let_def by blast
qed

section \<open>After the last drop\<close>

lemma mp_stopped_stays:
  assumes "mp_step cfg s s'" "c_phase (consumer_at s i) = Crashed \<or> c_phase (consumer_at s i) = Ended"
  shows "consumer_at s' i = consumer_at s i"
  using assms(1)
proof cases
  case (Consume cs P)
  then show ?thesis using stopped_stays [OF Consume(2) assms(2)] by simp
qed simp_all

lemma all_handles_gone:
  assumes "mp_reachable cfg s" "live_count (shared s) = 0"
  shows "\<not> live (handles s k)" "lost s = {} \<Longrightarrow> front s = claimed s + 1"
    "is_published s q \<longleftrightarrow> 0 \<le> q \<and> q \<le> claimed s \<and> q \<notin> lost s"
proof -
  from mp_inv_reachable [OF assms(1)] obtain gate where "mp_inv cfg gate s" .
  note parts = mp_inv_parts [OF this]
  show dead: "\<not> live (handles s k)" for k using parts(5) assms(2) by (auto simp: count_inv_def)
  show "front s = claimed s + 1" if "lost s = {}" by (rule no_handle_left [OF parts(2,5) assms(2) that])
  have "owned (h_phase (handles s k)) = {}" for k using dead owned_live by blast
  then show "is_published s q \<longleftrightarrow> 0 \<le> q \<and> q \<le> claimed s \<and> q \<notin> lost s"
    using parts(2) unfolding claims_inv_def by blast
qed

text \<open>
  C15. The shutdown mark is stored by the last handle only, and then it is the end of everything ever
  claimed, all of which is published unless a panic lost it: the relaxed load of the last drop cannot
  miss a claim.
\<close>

theorem last_drop_marks_the_end:
  assumes "mp_reachable cfg s" "m \<in> set (shutdown_history s)" "m \<noteq> NONE"
  shows "live_count (shared s) = 0 \<and> m = claimed s + 1 \<and> (\<forall>k. \<not> live (handles s k))
    \<and> (\<forall>q. is_published s q \<longleftrightarrow> 0 \<le> q \<and> q \<le> claimed s \<and> q \<notin> lost s)"
proof -
  from mp_inv_reachable [OF assms(1)] obtain gate where "mp_inv cfg gate s" .
  from mp_inv_parts(5) [OF this] assms(2,3) have "live_count (shared s) = 0" "m = claimed s + 1"
    by (auto simp: count_inv_def NONE_def split: if_splits)
  with all_handles_gone [OF assms(1)] show ?thesis by blast
qed

definition mp_ex_dropped :: "int mp_act list" where
  "mp_ex_dropped = mp_ex_done @ [MpDrop 0, MpDrop 1]"

theorem last_drop_marks_the_end_witness:
  "shutdown_history (mp_ex_run mp_ex_dropped) = [-1, 2] \<and> live_count (shared (mp_ex_run mp_ex_dropped)) = 0
   \<and> 2 = claimed (mp_ex_run mp_ex_dropped) + 1"
proof -
  have marks: "shutdown_history (mp_ex_run mp_ex_dropped) = [-1, 2]" by code_simp
  then have "2 \<in> set (shutdown_history (mp_ex_run mp_ex_dropped))" "(2::int) \<noteq> NONE" by (simp_all add: NONE_def)
  from last_drop_marks_the_end [OF mp_ex_run_reachable this] marks show ?thesis by blast
qed

text \<open>
  A consumer thread ends only when the last handle was dropped and no panic has lost a claim, and only
  once its handler has been called with every event that was ever published.
\<close>

theorem mp_ended_consumer_missed_nothing:
  assumes run: "mp_reachable cfg s" and i: "i \<in> set (all_consumers cfg)" "\<not> is_poller cfg i"
    and ended: "c_phase (consumer_at s i) = Ended"
  shows "live_count (shared s) = 0
    \<and> lost s = {}
    \<and> map (\<lambda>(q, e, b). (q, e)) (c_log (consumer_at s i)) = map (\<lambda>q. (q, event_at s q)) [0..claimed s]"
proof -
  note crew = mp_reachable_crew(1) [OF run]
  note e = crew_ended [OF crew i(1) ended]
  have "front s = claimed s + 1" using all_handles_gone(2) [OF run] e(1) by blast
  with e crew_events [OF crew i] show ?thesis by simp
qed

theorem mp_ended_consumer_missed_nothing_witness:
  "c_phase (consumer_at (mp_ex_run (mp_ex_dropped @ [MpConsume (DoGiveUp 0)])) 0) = Ended
   \<and> live_count (shared (mp_ex_run (mp_ex_dropped @ [MpConsume (DoGiveUp 0)]))) = 0"
proof
  show ended: "c_phase (consumer_at (mp_ex_run (mp_ex_dropped @ [MpConsume (DoGiveUp 0)])) 0) = Ended" by code_simp
  have "0 \<in> set (all_consumers mp_ex_cfg)" "\<not> is_poller mp_ex_cfg 0" by (simp_all add: mp_ex_cfg_def)
  from mp_ended_consumer_missed_nothing [OF mp_ex_run_reachable this ended]
  show "live_count (shared (mp_ex_run (mp_ex_dropped @ [MpConsume (DoGiveUp 0)]))) = 0" by blast
qed

lemma mp_step_after_drop:
  assumes run: "mp_reachable cfg s" and gone: "complete s" and step: "mp_step cfg s s'"
    and bound: "n + drop_bound cfg (claimed s + 1) (consumer_at s) \<le> B"
  shows "complete s' \<and> claimed s' = claimed s \<and> event_at s' = event_at s
    \<and> (if thread_moves cfg (consumer_at s) (consumer_at s') then Suc n else n)
      + drop_bound cfg (claimed s + 1) (consumer_at s') \<le> B"
proof -
  have dead: "h_phase (handles s k) = NoHandle \<or> h_phase (handles s k) = Gone" for k
    using all_handles_gone(1) [OF run conjunct1 [OF gone], of k] by (auto simp: live_def)
  from mp_inv_reachable [OF run] obtain gate where "mp_inv cfg gate s" .
  then have ok: "claims_inv s \<and> words_inv s \<and> writes_inv s \<and> count_inv s" using mp_inv_parts(2-5) by blast
  show ?thesis
    using step
  proof cases
    case (Consume cs P)
    have "n + drop_bound cfg (front s) (consumer_at s) \<le> B" using bound gone all_handles_gone(2) [OF run] by simp
    from mpmc.crew_step_bound [OF Consume(2) mp_reachable_crew(1) [OF run] ok this]
    show ?thesis using Consume(1) gone all_handles_gone(2) [OF run] by simp
  qed (use dead in \<open>metis mp_phase.distinct\<close>)+
qed

text \<open>
  C10. The last drop shuts the disruptor down, unless a panic has lost a claim: from then on the threads take
  at most \<open>drop_bound\<close> steps in any run, whatever the scheduler, the memory and the clients that poll do. Where no
  thread can take another but a panic, and no poller that was not polled to the end stands before a thread, the
  join of the consumer threads returns. If no thread has panicked, all have then ended with every
  published event handled; otherwise the join reaches a panicked thread and panics itself, it never
  waits for a thread that is stuck behind that one. A poller that stands before a thread and is not
  polled to the end keeps the join from returning: it waits, unless it meets a panicked thread.
\<close>

theorem last_drop_ends_every_consumer:
  assumes run: "mp_reachable cfg s" and gone: "live_count (shared s) = 0" "lost s = {}"
    and steps: "thread_run cfg consumer_at (mp_step cfg) n s s'"
  shows "n \<le> drop_bound cfg (claimed s + 1) (consumer_at s)
    \<and> ((\<nexists>s''. mp_step cfg s' s'' \<and> thread_advances cfg (consumer_at s') (consumer_at s'')) \<longrightarrow>
    (let phase = (\<lambda>i. c_phase (consumer_at s' i)); join = join_threads phase (threads cfg) in
     if poller_in_the_way cfg (claimed s + 1) (consumer_at s')
     then join \<noteq> Some (Inr ()) \<and> ((\<forall>i\<in>set (threads cfg). phase i \<noteq> Crashed) \<longrightarrow> join = None)
     else if \<exists>i\<in>set (threads cfg). phase i = Crashed
     then join = Some (Inl (Panic ''Consumer should not panic.''))
     else join = Some (Inr ()) \<and> (\<forall>i\<in>set (threads cfg). phase i = Ended
       \<and> map (\<lambda>(q, e, b). (q, e)) (c_log (consumer_at s' i)) = map (\<lambda>q. (q, event_at s q)) [0..claimed s])))"
    (is "_ \<and> (_ \<longrightarrow> ?outcome)")
proof -
  have after: "mp_reachable cfg s' \<and> complete s' \<and> claimed s' = claimed s \<and> event_at s' = event_at s
      \<and> n + drop_bound cfg (claimed s + 1) (consumer_at s') \<le> drop_bound cfg (claimed s + 1) (consumer_at s)"
    using steps run gone
  proof (induction rule: thread_run.induct)
    case (Step n s u s')
    from Step.IH [OF Step.prems] have IH: "mp_reachable cfg u" "complete u" "claimed u = claimed s" "event_at u = event_at s"
      "n + drop_bound cfg (claimed u + 1) (consumer_at u) \<le> drop_bound cfg (claimed s + 1) (consumer_at s)" by auto
    from mp_step_after_drop [OF IH(1,2) Step.hyps(2) IH(5)] mp_reachable.Step [OF IH(1) Step.hyps(2)] IH(3,4)
    show ?case by simp
  qed simp
  then have s': "mp_reachable cfg s'" and gone': "complete s'" by blast+
  from mp_inv_reachable [OF s'] obtain gate where inv: "mp_inv cfg gate s'" .
  note parts = mp_inv_parts [OF inv]
  have ok: "claims_inv s' \<and> words_inv s' \<and> writes_inv s' \<and> count_inv s'" using parts(2-5) by blast
  have front: "front s' = claimed s + 1" using all_handles_gone(2) [OF s'] after by simp
  have bound: "n \<le> drop_bound cfg (claimed s + 1) (consumer_at s)" using after by linarith
  show ?thesis
  proof (intro conjI impI, rule bound)
    assume "\<nexists>s''. mp_step cfg s' s'' \<and> thread_advances cfg (consumer_at s') (consumer_at s'')"
    then have stuck: "\<nexists>cs P. cons_step cfg (bits_look s') (shutdown_history s') (ring_buffer (shared s'))
        (consumer_at s', performed s') (cs, P) \<and> thread_advances cfg (consumer_at s') cs"
      using mp_step.Consume [of cfg s'] by fastforce
    note outcome = mpmc.stuck_crew_outcome [OF parts(8) [unfolded mp_crew_def] parts(1) ok gone'
        parts(7) [unfolded room_for_def] stuck]
    have "map (\<lambda>(q, e, b). (q, e)) (c_log (consumer_at s' i)) = map (\<lambda>q. (q, event_at s q)) [0..claimed s]"
      if "i \<in> set (threads cfg)" "c_phase (consumer_at s' i) = Ended" for i
      using mp_ended_consumer_missed_nothing [OF s' _ _ that(2)] that(1) after unfolding threads_iff by simp
    with outcome show ?outcome unfolding front Let_def by auto
  qed
qed

theorem last_drop_ends_every_consumer_witness:
  "let s = mp_ex_run mp_ex_dropped in
     thread_run mp_ex_cfg consumer_at (mp_step mp_ex_cfg) 2 s (mp_ex_run (mp_ex_dropped @ [MpConsume (DoGiveUp 0), MpConsume (DoGiveUp 1)])) \<and>
     2 \<le> drop_bound mp_ex_cfg (claimed s + 1) (consumer_at s) \<and>
     join_threads (\<lambda>i. c_phase (consumer_at (mp_ex_run (mp_ex_dropped @ [MpConsume (DoGiveUp 0), MpConsume (DoGiveUp 1)])) i))
       (threads mp_ex_cfg) = Some (Inr ())"
proof -
  let ?s = mp_ex_dropped and ?a = "MpConsume (DoGiveUp 0)" and ?b = "MpConsume (DoGiveUp 1)"
  have gone: "live_count (shared (mp_ex_run ?s)) = 0" "lost (mp_ex_run ?s) = {}" by code_simp+
  have phases: "c_phase (consumer_at (mp_ex_run ?s) 0) \<noteq> c_phase (consumer_at (mp_ex_run (?s @ [?a])) 0)"
    "c_phase (consumer_at (mp_ex_run (?s @ [?a])) 1) \<noteq> c_phase (consumer_at (mp_ex_run ((?s @ [?a]) @ [?b])) 1)"
    by code_simp+
  moreover have "0 \<in> set (threads mp_ex_cfg)" "1 \<in> set (threads mp_ex_cfg)" by (simp_all add: threads_def mp_ex_cfg_def)
  ultimately have moves: "thread_moves mp_ex_cfg (consumer_at (mp_ex_run ?s)) (consumer_at (mp_ex_run (?s @ [?a])))"
    "thread_moves mp_ex_cfg (consumer_at (mp_ex_run (?s @ [?a]))) (consumer_at (mp_ex_run ((?s @ [?a]) @ [?b])))"
    unfolding thread_moves_def by metis+
  from phases have "mp_step mp_ex_cfg (mp_ex_run ?s) (mp_ex_run (?s @ [?a]))"
    "mp_step mp_ex_cfg (mp_ex_run (?s @ [?a])) (mp_ex_run ((?s @ [?a]) @ [?b]))"
    by (metis mp_ex_run_step)+
  with moves have steps: "thread_run mp_ex_cfg consumer_at (mp_step mp_ex_cfg) (Suc (Suc 0))
      (mp_ex_run ?s) (mp_ex_run ((?s @ [?a]) @ [?b]))" by (blast intro: thread_run.Start thread_run_Suc)
  have threads: "set (threads mp_ex_cfg) = {0, 1}" and managed: "all_managed mp_ex_cfg"
    by (auto simp: threads_def mp_ex_cfg_def all_managed_def)
  have ended: "c_phase (consumer_at (mp_ex_run ((?s @ [?a]) @ [?b])) i) = Ended" if "i \<in> set (threads mp_ex_cfg)" for i
  proof -
    have "c_phase (consumer_at (mp_ex_run ((?s @ [?a]) @ [?b])) 0) = Ended \<and> c_phase (consumer_at (mp_ex_run ((?s @ [?a]) @ [?b])) 1) = Ended"
      by code_simp
    with that threads show ?thesis by auto
  qed
  then have "\<nexists>s''. mp_step mp_ex_cfg (mp_ex_run ((?s @ [?a]) @ [?b])) s''
      \<and> thread_advances mp_ex_cfg (consumer_at (mp_ex_run ((?s @ [?a]) @ [?b]))) (consumer_at s'')"
    using mp_stopped_stays unfolding thread_advances_def by metis
  with last_drop_ends_every_consumer [OF mp_ex_run_reachable gone steps] steps ended
  show ?thesis by (simp add: numeral_2_eq_2 Let_def no_poller_in_the_way [OF managed])
qed

section \<open>A claim lost to a panic\<close>

lemma lost_stays:
  assumes "mp_step cfg s s'"
  shows "lost s \<subseteq> lost s'"
  using assms by cases auto

text \<open>
  C19. A closure that panics inside a claim stops the disruptor for good: whatever happens later, the
  sequence is never published, no consumer passes it, no thread ends, and nothing is claimed a lap beyond it.
  So the join of the last drop, unless there is no thread but only pollers, does not return normally: it waits
  forever, unless it meets a thread that has panicked itself.
\<close>

theorem lost_claim_blocks_everyone:
  assumes run: "mp_reachable cfg s" and q: "q \<in> lost s" and steps: "(mp_step cfg ^^ n) s s'"
  shows "\<not> is_published s' q \<and> claimed s' < q + laps s'
    \<and> (\<forall>i\<in>set (all_consumers cfg). next_seq (consumer_at s' i) \<le> q \<and> c_phase (consumer_at s' i) \<noteq> Ended)
    \<and> (threads cfg \<noteq> [] \<longrightarrow> (let phase = (\<lambda>i. c_phase (consumer_at s' i)); join = join_threads phase (threads cfg) in
        join \<noteq> Some (Inr ()) \<and> ((\<forall>i\<in>set (threads cfg). phase i \<noteq> Crashed) \<longrightarrow> join = None)))"
proof -
  have after: "mp_reachable cfg s' \<and> q \<in> lost s'"
    using steps
  proof (induction n arbitrary: s')
    case 0
    with run q show ?case by simp
  next
    case (Suc n)
    then obtain u where u: "(mp_step cfg ^^ n) s u" "mp_step cfg u s'" by auto
    from Suc.IH [OF u(1)] lost_stays [OF u(2)] mp_reachable.Step [OF _ u(2)] show ?case by blast
  qed
  then have s': "mp_reachable cfg s'" and q': "q \<in> lost s'" by simp_all
  from mp_inv_reachable [OF s'] obtain gate where inv: "mp_inv cfg gate s'" .
  note parts = mp_inv_parts [OF inv] and crew = mp_reachable_crew(1) [OF s']
  note front = lost_front [OF parts(2) q']
  have "\<not> is_published s' q" using parts(2) q' unfolding claims_inv_def by blast
  moreover have "claimed s' < q + laps s'" using room_front [OF inv parts(7)] front by linarith
  moreover have none: "next_seq (consumer_at s' i) \<le> q \<and> c_phase (consumer_at s' i) \<noteq> Ended" if i: "i \<in> set (all_consumers cfg)" for i
    using crew_bounds(2) [OF crew i] front crew_ended(1) [OF crew i] q' by auto
  moreover have "join_threads (\<lambda>i. c_phase (consumer_at s' i)) (threads cfg) \<noteq> Some (Inr ())
      \<and> ((\<forall>i\<in>set (threads cfg). c_phase (consumer_at s' i) \<noteq> Crashed) \<longrightarrow>
         join_threads (\<lambda>i. c_phase (consumer_at s' i)) (threads cfg) = None)" if "threads cfg \<noteq> []"
  proof -
    from that have "\<exists>i\<in>set (threads cfg). c_phase (consumer_at s' i) \<noteq> Ended" using none threads_iff by (metis list.set_sel(1))
    then show ?thesis by (rule join_threads_held_up)
  qed
  ultimately show ?thesis by (simp add: Let_def del: set_concat)
qed

text \<open>The first handle panics and is dropped; the second publishes and is dropped.\<close>

definition mp_ex_panicked :: "int mp_act list" where
  "mp_ex_panicked = [MpClone 0 1, MpBegin 0 1 [\<lambda>_. 7], MpCheck 0, MpRace 0, MpUnwind 0, MpDrop 0,
     MpBegin 1 1 [\<lambda>_. 8], MpCheck 1, MpRace 1, MpFill 1, MpFinish 1, MpFlip 1, MpReturn 1]"

theorem lost_claim_blocks_everyone_witness:
  "shutdown_history (mp_ex_run (mp_ex_panicked @ [MpDrop 1])) = [-1, 2]
   \<and> is_published (mp_ex_run (mp_ex_panicked @ [MpDrop 1])) 1
   \<and> next_seq (consumer_at (mp_ex_run (mp_ex_panicked @ [MpDrop 1])) 0) \<le> 0
   \<and> join_threads (\<lambda>i. c_phase (consumer_at (mp_ex_run (mp_ex_panicked @ [MpDrop 1])) i)) (threads mp_ex_cfg) \<noteq> Some (Inr ())"
proof (intro conjI)
  let ?s = "mp_ex_run mp_ex_panicked" and ?t = "mp_ex_run (mp_ex_panicked @ [MpDrop 1])"
  show marks: "shutdown_history ?t = [-1, 2]" by code_simp
  show "is_published ?t 1" by code_simp
  have "shutdown_history ?s = [-1]" by code_simp
  with marks have "mp_step mp_ex_cfg ?s ?t" by (intro mp_ex_run_step) force
  then have "(mp_step mp_ex_cfg ^^ 1) ?s ?t" by (simp only: relpowp_1)
  moreover have "0 \<in> lost ?s" by code_simp
  ultimately have blocked: "(\<forall>i\<in>set (all_consumers mp_ex_cfg). next_seq (consumer_at ?t i) \<le> 0)
      \<and> (threads mp_ex_cfg \<noteq> [] \<longrightarrow> join_threads (\<lambda>i. c_phase (consumer_at ?t i)) (threads mp_ex_cfg) \<noteq> Some (Inr ()))"
    using lost_claim_blocks_everyone [OF mp_ex_run_reachable] unfolding Let_def by blast
  have "0 \<in> set (all_consumers mp_ex_cfg)" "threads mp_ex_cfg \<noteq> []" by (simp_all add: mp_ex_cfg_def threads_def)
  with blocked show "next_seq (consumer_at ?t 0) \<le> 0"
    "join_threads (\<lambda>i. c_phase (consumer_at ?t i)) (threads mp_ex_cfg) \<noteq> Some (Inr ())" by blast+
qed

section \<open>A thread that panics\<close>

text \<open>
  C17. A consumer thread that panics, in its handler, its wait strategy or the initialisation of its state,
  keeps its place for good: whatever happens later, no consumer of a later stage gets past what it had
  finished, and the producers claim no more than a lap beyond that, so that the slots of the batch it was in are
  never written again.
\<close>

theorem crashed_handler_stalls:
  assumes run: "mp_reachable cfg s" and j: "j < length (stages cfg)" "i \<in> set (stages cfg ! j)"
    and crashed: "c_phase (consumer_at s i) = Crashed" and steps: "(mp_step cfg ^^ n) s s'"
  shows "consumer_at s' i = consumer_at s i \<and> claimed s' \<le> done_upto (consumer_at s i) + laps s'
    \<and> (\<forall>k < length (stages cfg). j < k \<longrightarrow>
         (\<forall>g\<in>set (stages cfg ! k). next_seq (consumer_at s' g) \<le> done_upto (consumer_at s i) + 1))"
proof -
  have after: "mp_reachable cfg s' \<and> consumer_at s' i = consumer_at s i"
    using steps
  proof (induction n arbitrary: s')
    case 0
    with run show ?case by simp
  next
    case (Suc n)
    then obtain u where u: "(mp_step cfg ^^ n) s u" "mp_step cfg u s'" by auto
    note IH = Suc.IH [OF u(1)]
    have "consumer_at s' i = consumer_at u i" using mp_stopped_stays [OF u(2), of i] IH crashed by simp
    with IH mp_reachable.Step [OF _ u(2)] show ?case by simp
  qed
  then have s': "mp_reachable cfg s'" and same: "consumer_at s' i = consumer_at s i" by simp_all
  from mp_inv_reachable [OF s'] obtain gate where inv: "mp_inv cfg gate s'" .
  note parts = mp_inv_parts [OF inv] and crew = mp_reachable_crew(1) [OF s']
  have i: "i \<in> set (all_consumers cfg)" using j all_consumers_stage by blast
  from bspec [OF parts(7) [unfolded room_for_def] i] have "claimed s' \<le> done_upto (consumer_at s i) + laps s'"
    unfolding same by linarith
  moreover have "next_seq (consumer_at s' g) \<le> done_upto (consumer_at s i) + 1"
    if "k < length (stages cfg)" "j < k" "g \<in> set (stages cfg ! k)" for k g
    using crew_downstream [OF crew parts(1) that(2,1) j(2) that(3)] unfolding same .
  ultimately show ?thesis using same by blast
qed

definition mp_ex_crashed :: "int mp_act list" where
  "mp_ex_crashed = mp_ex_overtake @ [MpFill 0, MpFinish 0, MpFlip 0, MpReturn 0]
     @ map MpConsume [DoLook 0, DoHandle 0, DoCrash 0]"

theorem crashed_handler_stalls_witness:
  "length (c_log (consumer_at (mp_ex_run mp_ex_crashed) 0)) = 2
   \<and> next_seq (consumer_at (mp_ex_run (mp_ex_crashed @ [MpBegin 0 1 [\<lambda>_. 9]])) 1) \<le> 0"
proof
  let ?s = "mp_ex_run mp_ex_crashed" and ?t = "mp_ex_run (mp_ex_crashed @ [MpBegin 0 1 [\<lambda>_. 9]])"
  show "length (c_log (consumer_at ?s 0)) = 2" by code_simp
  have crashed: "c_phase (consumer_at ?s 0) = Crashed" by code_simp
  have "done_upto (consumer_at ?s 0) = -1" by code_simp
  moreover have "h_seen (handles ?s 0) \<noteq> h_seen (handles ?t 0)" by code_simp
  then have "mp_step mp_ex_cfg ?s ?t" by (intro mp_ex_run_step) force
  then have "(mp_step mp_ex_cfg ^^ 1) ?s ?t" by (simp only: relpowp_1)
  moreover have "0 < length (stages mp_ex_cfg)" "0 \<in> set (stages mp_ex_cfg ! 0)" "1 < length (stages mp_ex_cfg)"
    "1 \<in> set (stages mp_ex_cfg ! 1)" by (simp_all add: mp_ex_cfg_def)
  ultimately show "next_seq (consumer_at ?t 1) \<le> 0"
    using crashed_handler_stalls [OF mp_ex_run_reachable _ _ crashed, of 0 1 ?t] by force
qed

end
