(* ===== verification/Built_Mp_System.thy ===== *)
theory Built_Mp_System
  imports Built_System Mpmc_Shutdown
begin

text \<open>
  From the multi-producer builder to the running system: what a chain of calls has built is a start
  state of \<open>Mpmc_System\<close>, with the wiring the chain made.
\<close>

text \<open>The handle with its barrier as a value of \<open>dependent\<close>.\<close>

definition lift_handle :: "('c \<Rightarrow> dependent) \<Rightarrow> 'c multi_producer \<Rightarrow> dependent multi_producer" where
  "lift_handle h p = \<lparr>consumer_barrier = h (consumer_barrier p), claimed_sequence = claimed_sequence p,
     sequence_clear_of_consumers = sequence_clear_of_consumers p\<rparr>"

lemma mp_fresh_new:
  assumes rb: "wf_ring rb" and mb: "mp_barrier_new (length (slots rb)) = Inr mb"
    and new: "multi_producer_new sd rb mb hs cb m = (p, \<sigma>)"
  shows "mp_fresh (lift_handle h p) \<sigma>" "consumer_barrier (lift_handle h p) = h cb"
proof -
  have "i64 (ring_size rb - 1) = capacity rb - 1"
    using wf_ring_pos [OF rb] wf_ring_capacity [OF rb] rb
    by (subst ring_size_eq [OF rb]) (intro i64_id, simp add: in_i64_iff)
  with assms show "mp_fresh (lift_handle h p) \<sigma>" "consumer_barrier (lift_handle h p) = h cb"
    by (auto simp: mp_fresh_def multi_producer_new_def lift_handle_def)
qed

section \<open>Managed consumers only\<close>

lemma mp_call_spawned:
  assumes "mp_call cores c b w = Some (Inr (b', w'))" "c \<noteq> AddPoller" "\<forall>d\<in>set (consumers_of w). spawned d \<noteq> None"
  shows "\<forall>d\<in>set (consumers_of w'). spawned d \<noteq> None"
  using assms
  by (cases c; cases "mp_state b")
    (auto simp: mp_nc_handle_events_with_def mp_sc_handle_events_with_def mp_mc_handle_events_with_def
      mp_nc_handle_events_and_state_with_def mp_sc_handle_events_and_state_with_def
      mp_mc_handle_events_and_state_with_def add_event_handler_def add_event_handler_with_state_def
      start_processor_def start_processor_with_state_def new_cursor_def add_consumer_def Let_def split_def
      try_bind_Inr)

lemma mp_chain_spawned:
  assumes "mp_chain cores cs b w = Some (Inr (b', w'))" "AddPoller \<notin> set cs"
    and "\<forall>d\<in>set (consumers_of w). spawned d \<noteq> None"
  shows "\<forall>d\<in>set (consumers_of w'). spawned d \<noteq> None"
  using assms
proof (induction cs arbitrary: b w)
  case Nil
  then show ?case by simp
next
  case (Cons c cs)
  from Cons.prems(1) obtain b1 w1 where
    step: "mp_call cores c b w = Some (Inr (b1, w1))" "mp_chain cores cs b1 w1 = Some (Inr (b', w'))"
    by (auto simp del: mp_call.simps split: option.splits sum.splits)
  have "c \<noteq> AddPoller" "AddPoller \<notin> set cs" using Cons.prems(2) by auto
  then show ?case using Cons.IH [OF step(2)] mp_call_spawned [OF step(1)] Cons.prems(3) by blast
qed

section \<open>The start state\<close>

text \<open>
  C14. A disruptor built on the multi-producer builder starts in a state the theorems on running systems
  speak about: for a size that is a power of two from 64 and below \<open>2 ^ 63\<close>, and any chain of calls that
  type-checks, pins threads to existing cores only and ends with at least one consumer in its last stage,
  the build succeeds, and its first handle, its threads and its pollers
  form a start state with the wiring the chain made; without a poller, all consumers are threads.
\<close>

theorem built_mp_disruptor_is_reachable:
  assumes size: "n = 2 ^ k" "64 \<le> n" "n < 2 ^ 63" and chain: "chain_state calls NC = Some st" "st \<noteq> NC"
    and cores: "cores_exist cores calls"
  shows "\<exists>b0 b w sts p \<sigma>. build_multi_producer_unchecked n event_source f ws = Inr b0
    \<and> mp_chain cores calls b0 world_new = Some (Inr (b, w)) \<and> wired w sts
    \<and> (AddPoller \<notin> set calls \<longrightarrow> all_managed (config_of w sts))
    \<and> (if st = SC then \<exists>q. mp_sc_build b (cursors_at w) = Inr (q, \<sigma>) \<and> p = lift_handle OnConsumer q
       else \<exists>q. mp_mc_build b (cursors_at w) = Inr (q, \<sigma>) \<and> p = lift_handle OnGroup q)
    \<and> mp_reachable (config_of w sts) (mp_init p \<sigma>)"
proof -
  from mp_chain_builds [OF size chain(1) cores, of event_source f ws] obtain b0 b w fin stage rb mb where
    built: "build_multi_producer_unchecked n event_source f ws = Inr b0"
      "mp_chain cores calls b0 world_new = Some (Inr (b, w))" "st = state_of_stage stage"
      "builder_inv st (mp_context b) (mp_dependent_barrier b) w fin stage"
    and rb: "wf_ring rb" "length (slots rb) = n" and mb: "mp_barrier_new n = Inr mb"
    and result: "case stage of
        [] \<Rightarrow> True
      | [a] \<Rightarrow> mp_sc_build b (cursors_at w) = Inr (multi_producer_new (ctx_shutdown (mp_context b)) rb mb
          (ctx_handles (mp_context b)) (UniConsumerBarrier a) (cursors_at w))
      | _ \<Rightarrow> mp_mc_build b (cursors_at w) = Inr (multi_producer_new (ctx_shutdown (mp_context b)) rb mb
          (ctx_handles (mp_context b)) (MultiConsumerBarrier stage) (cursors_at w))" by blast
  have stage: "stage \<noteq> []" using built(3) chain(2) by auto
  let ?cfg = "config_of w (fin @ [stage])"
  have start: "mp_reachable ?cfg (mp_init (lift_handle h q) \<sigma>)"
    if "h cb \<noteq> OnProducer" "dependent_arcs (h cb) = stage"
      "multi_producer_new sd rb mb hs cb (cursors_at w) = (q, \<sigma>)" for h q \<sigma> sd hs cb
    using mp_fresh_new [OF rb(1) _ that(3), of h] built_config [OF built(4) stage that(1,2)] mb rb(2)
    by (intro mp_reachable.Start) simp_all
  have "\<exists>p \<sigma>. (if st = SC then \<exists>q. mp_sc_build b (cursors_at w) = Inr (q, \<sigma>) \<and> p = lift_handle OnConsumer q
       else \<exists>q. mp_mc_build b (cursors_at w) = Inr (q, \<sigma>) \<and> p = lift_handle OnGroup q)
    \<and> mp_reachable ?cfg (mp_init p \<sigma>)"
  proof (cases stage rule: state_of_stage.cases)
    case (2 a)
    obtain q \<sigma> where q: "multi_producer_new (ctx_shutdown (mp_context b)) rb mb (ctx_handles (mp_context b))
        (UniConsumerBarrier a) (cursors_at w) = (q, \<sigma>)" by fastforce
    have "mp_reachable ?cfg (mp_init (lift_handle OnConsumer q) \<sigma>)" by (rule start [OF _ _ q]) (simp_all add: 2)
    with result q built(3) 2 show ?thesis by auto
  next
    case (3 a a' as)
    obtain q \<sigma> where q: "multi_producer_new (ctx_shutdown (mp_context b)) rb mb (ctx_handles (mp_context b))
        (MultiConsumerBarrier stage) (cursors_at w) = (q, \<sigma>)" by fastforce
    have "mp_reachable ?cfg (mp_init (lift_handle OnGroup q) \<sigma>)" by (rule start [OF _ _ q]) simp_all
    moreover have "mp_mc_build b (cursors_at w) = Inr (q, \<sigma>)" using result q unfolding 3 by simp
    moreover have "st = MC" using built(3) 3 by simp
    ultimately show ?thesis by auto
  qed (use stage in simp)
  moreover have "AddPoller \<notin> set calls \<longrightarrow> all_managed ?cfg"
    using mp_chain_spawned [OF built(2)] all_managed_config [of w] by (simp add: world_new_def)
  ultimately show ?thesis using built(1,2) builder_inv_wired [OF built(4)] by blast
qed

theorem built_mp_disruptor_is_reachable_witness:
  "\<exists>b0 b w sts p \<sigma>. build_multi_producer_unchecked 64 (\<lambda>u. (0::int, u)) () BusySpin = Inr b0
    \<and> mp_chain None [HandleEventsWith Finished, HandleEventsAndStateWith Finished, AndThen, AddPoller]
        b0 world_new = Some (Inr (b, w)) \<and> wired w sts
    \<and> (\<exists>q. mp_sc_build b (cursors_at w) = Inr (q, \<sigma>) \<and> p = lift_handle OnConsumer q)
    \<and> mp_reachable (config_of w sts) (mp_init p \<sigma>)"
  using built_mp_disruptor_is_reachable [of 64 6 "[HandleEventsWith Finished, HandleEventsAndStateWith Finished,
      AndThen, AddPoller]" SC None "\<lambda>u. (0::int, u)" "()" BusySpin]
  by (simp add: cores_exist_def del: mp_chain.simps)

end
