(* ===== verification/Spmc_Operations.thy ===== *)
theory Spmc_Operations
  imports Spmc_Safety
begin

text \<open>
  The two models of a publication agree: in the running system its steps, interleaved with any steps of
  the consumers, compute what \<open>try_batch_publish\<close> and \<open>try_publish\<close> of \<open>Uni_Producer\<close> return, on the
  cursor values that the claim loaded. So the lemmas on the operations hold of the running system.
\<close>

section \<open>Midway through a publication\<close>

definition filling :: "'e prod_phase \<Rightarrow> bool" where
  "filling ph \<longleftrightarrow> (case ph of Filling fs it n \<Rightarrow> True | _ \<Rightarrow> False)"

text \<open>What is left to do in \<open>s\<close> is the rest of a batch of \<open>n\<close> with closure \<open>fs\<close> on the claimed \<open>p\<close>.\<close>

definition midway :: "('e, dependent) uni_producer \<Rightarrow> nat \<Rightarrow> ('e \<Rightarrow> 'e) list \<Rightarrow> 'e system \<Rightarrow> bool" where
  "midway p n fs s \<longleftrightarrow> (\<exists>rest it. p_phase s = Filling rest it n \<and> last_sequence it = i64 (sequence p + int n - 1)
     \<and> fst (run_updates rest (ring_buffer (producer s)) it) =
         fst (run_updates fs (ring_buffer p) (batch_iter_new (sequence p) (i64 (sequence p + int n - 1))))
     \<and> (\<exists>rb. producer s = p\<lparr>ring_buffer := rb\<rparr>))"

lemma i64_upper: "i64 (q + i64 n - 1) = i64 (q + n - 1)"
  using i64_add_left [of n "q - 1"] by (simp add: algebra_simps)

lemma uni_claim_upper:
  "uni_next_sequences get_after m n p = (Inr upper, p') \<Longrightarrow> upper = i64 (sequence p + int n - 1)"
  using i64_upper [of "sequence p" "int n"]
  by (auto simp: uni_next_sequences_def uni_claim_with_def Let_def diff_add_eq split: if_splits)

lemma midway_claim:
  assumes "sys_step cfg s s'" "p_phase s = Idle" "p_phase s' = Filling fs it n"
  obtains msgs u p where "may_load (consumer_at s) (consumer_barrier (producer s)) msgs"
    "uni_next_sequences gate_get_after (loaded msgs) n (producer s) = (Inr u, p)" "midway p n fs s'"
  using assms(1)
proof cases
  case (Claim p n' msgs upper p' fs')
  note same = uni_claim_keeps [OF Claim(7)]
  have "midway p' n fs s'"
    using Claim(1,3) assms(3) uni_claim_upper [OF Claim(7)] same
    by (auto simp: midway_def batch_iter_new_def intro: exI [of _ "ring_buffer p'"])
  with Claim assms(3) show thesis by (intro that [of msgs upper p']) simp_all
qed (use assms in auto)

lemma midway_step:
  assumes "sys_step cfg s s'" "midway p n fs s" "filling (p_phase s')"
  shows "midway p n fs s'"
  using assms(1)
proof cases
  case (Fill f rest it m p' slot it')
  then have "midway p n fs s" "it' = it\<lparr>current := i64 (current it + 1)\<rparr>" "m = n"
    using assms(2) by (auto simp: midway_def batch_iter_next_def split: if_splits)
  then show ?thesis using Fill assms(2) by (fastforce simp: midway_def)
qed (use assms(2,3) in \<open>auto simp: midway_def filling_def\<close>)

lemma midway_publish:
  assumes "sys_step cfg s s'" "midway p n fs s" "p_history s' \<noteq> p_history s"
  shows "uni_apply_updates n fs p = (i64 (sequence p + int n - 1), producer s') \<and> p_phase s' = Idle"
  using assms(1)
proof cases
  case (Publish rest it m p')
  from assms(2) Publish(2) have mid: "m = n" "last_sequence it = i64 (sequence p + int n - 1)"
    "fst (run_updates rest (ring_buffer (producer s)) it) =
       fst (run_updates fs (ring_buffer p) (batch_iter_new (sequence p) (i64 (sequence p + int n - 1))))"
    "\<exists>rb. producer s = p\<lparr>ring_buffer := rb\<rparr>"
    unfolding midway_def by auto
  have "run_updates rest (ring_buffer (producer s)) it = (ring_buffer (producer s), it)"
    using Publish(3,4) by (cases rest) (auto simp: batch_iter_next_def split: if_splits)
  with mid(3) have ring: "fst (run_updates fs (ring_buffer p) (batch_iter_new (sequence p) (i64 (sequence p + int n - 1)))) =
      ring_buffer (producer s)" by simp
  obtain rb where rb: "producer s = p\<lparr>ring_buffer := rb\<rparr>" using mid(4) by blast
  show ?thesis
    using Publish(1,3) ring mid(1,2) rb i64_upper [of "sequence p" "int n"] by (simp add: uni_apply_updates_def Let_def)
qed (use assms(2,3) in \<open>auto simp: midway_def\<close>)

section \<open>Publications are the operations\<close>

text \<open>
  C16. Every publication in the running system is an execution of \<open>try_batch_publish\<close>: from a claim in
  state \<open>s\<close> with closure \<open>fs\<close>, over any steps of the closure and of all consumers, to the release in
  state \<open>u\<close>, the handle ends as that operation leaves it, for some values of the consumers' cursors that
  the claim may have loaded. For a batch of one it is also what \<open>try_publish\<close> leaves.
\<close>

theorem publications_are_operations:
  assumes run: "reachable cfg s" and claim: "p_phase s = Idle" "sys_step cfg s r" "p_phase r = Filling fs it n"
    and steps: "((\<lambda>a b. sys_step cfg a b \<and> filling (p_phase b)) ^^ k) r t"
    and release: "sys_step cfg t u" "p_history u \<noteq> p_history t"
  shows "\<exists>msgs upper. may_load (consumer_at s) (consumer_barrier (producer s)) msgs
    \<and> uni_try_batch_publish gate_get_after (loaded msgs) n fs (producer s) = (Inr upper, producer u)
    \<and> (\<forall>f. n = 1 \<and> fs = [f] \<longrightarrow>
         uni_try_publish gate_get_after (loaded msgs) f (producer s) = (Inr upper, producer u))"
proof -
  from midway_claim [OF claim(2,1,3)] obtain msgs c p where load: "may_load (consumer_at s) (consumer_barrier (producer s)) msgs"
    and next_seq: "uni_next_sequences gate_get_after (loaded msgs) n (producer s) = (Inr c, p)" and mid: "midway p n fs r" .
  have "midway p n fs t"
    using steps by (induction k arbitrary: t) (use mid in \<open>auto intro: midway_step\<close>)
  from midway_publish [OF release(1) this release(2)]
  have apply_all: "uni_apply_updates n fs p = (i64 (sequence p + int n - 1), producer u)" by blast
  then have batch: "uni_try_batch_publish gate_get_after (loaded msgs) n fs (producer s) = (Inr (i64 (sequence p + int n - 1)), producer u)"
    using next_seq by (simp add: uni_try_batch_publish_def)
  have "uni_try_publish gate_get_after (loaded msgs) f (producer s) = (Inr (i64 (sequence p + int n - 1)), producer u)"
    if one: "n = 1" "fs = [f]" for f
  proof -
    have "sequence p = seq_of s" "0 \<le> seq_of s" "seq_of s < 2 ^ 62"
      using uni_claim_keeps [OF next_seq] reachable_parts(1) [OF run] by (simp_all add: producer_inv_def)
    then have "uni_apply_update f p = uni_apply_updates 1 [f] p" by (intro uni_apply_update_batch) simp_all
    then show ?thesis using apply_all one next_seq by (simp add: uni_try_publish_def)
  qed
  with load batch show ?thesis by blast
qed

text \<open>The second publication of a run, while the first consumer looks for events.\<close>

definition ex_second :: "int act list" where
  "ex_second = [DoClaim [\<lambda>_. 7] 1, DoFill, DoPublish, DoClaim [\<lambda>_. 8] 1, Consumer (DoLook 0), DoFill, DoPublish]"

theorem publications_are_operations_witness:
  "slots (ring_buffer (producer (ex_run [] ex_second))) = [7, 8]
   \<and> (\<exists>msgs upper fs. uni_try_batch_publish gate_get_after (loaded msgs) 1 fs (producer (ex_run [] (take 3 ex_second)))
        = (Inr upper, producer (ex_run [] ex_second)))"
proof
  show "slots (ring_buffer (producer (ex_run [] ex_second))) = [7, 8]" by code_simp
  let ?at = "\<lambda>n. ex_run [] (take n ex_second)"
  have next_run: "?at (Suc n) = perform (ex_cfg []) (ex_second ! n) (?at n)" if "n < 7" for n
    using that take_Suc_conv_app_nth [of n ex_second] by (simp add: ex_run_def ex_second_def)
  have step: "sys_step (ex_cfg []) (?at n) (?at (Suc n))" if "n < 7" "?at (Suc n) \<noteq> ?at n" for n
    using perform_step [OF ex_run_reachable [of "[]" "take n ex_second"], of "ex_second ! n"] next_run [OF that(1)] that(2) by metis
  have phases: "\<not> filling (p_phase (?at 3))" "filling (p_phase (?at 4))" "filling (p_phase (?at 5))" "filling (p_phase (?at 6))"
    "\<not> filling (p_phase (?at 7))" by code_simp+
  have idle: "p_phase (?at 3) = Idle"
  proof -
    have "case p_phase (?at 3) of Idle \<Rightarrow> True | _ \<Rightarrow> False" by code_simp
    then show ?thesis by (simp split: prod_phase.splits)
  qed
  have "case p_phase (?at 4) of Filling fs it n \<Rightarrow> n = 1 | _ \<Rightarrow> False" by code_simp
  then obtain fs it where claimed: "p_phase (?at 4) = Filling fs it 1" by (auto split: prod_phase.splits)
  have "sys_step (ex_cfg []) (?at 3) (?at 4)" using step [of 3] phases by force
  moreover have "sys_step (ex_cfg []) (?at 4) (?at 5)"
  proof -
    have "case c_phase (consumer_at (?at 5) 0) of Handling a \<Rightarrow> True | _ \<Rightarrow> False"
      "case c_phase (consumer_at (?at 4) 0) of Handling a \<Rightarrow> False | _ \<Rightarrow> True" by code_simp+
    then have "?at 5 \<noteq> ?at 4" by (auto split: cons_phase.splits)
    with step [of 4] show ?thesis by simp
  qed
  moreover have "sys_step (ex_cfg []) (?at 5) (?at 6)"
  proof -
    have "slots (ring_buffer (producer (?at 6))) = [7, 8]" "slots (ring_buffer (producer (?at 5))) \<noteq> [7, 8]" by code_simp+
    with step [of 5] show ?thesis by force
  qed
  moreover have "sys_step (ex_cfg []) (?at 6) (?at 7)" using step [of 6] phases by force
  moreover have "length (p_history (?at 7)) = 3" "length (p_history (?at 6)) = 2" by code_simp+
  then have "p_history (?at 7) \<noteq> p_history (?at 6)" by force
  moreover have "?at 7 = ex_run [] ex_second" by (simp add: ex_second_def)
  ultimately have "\<exists>msgs upper. uni_try_batch_publish gate_get_after (loaded msgs) 1 fs (producer (?at 3)) =
      (Inr upper, producer (ex_run [] ex_second))"
    using publications_are_operations [OF ex_run_reachable idle _ claimed, of "Suc (Suc 0)" "?at 6" "?at 7"] phases by auto
  then show "\<exists>msgs upper fs. uni_try_batch_publish gate_get_after (loaded msgs) 1 fs (producer (?at 3)) =
      (Inr upper, producer (ex_run [] ex_second))" by blast
qed

end
