(* ===== verification/Spmc_Refinement.thy ===== *)
theory Spmc_Refinement
  imports Spmc_Shutdown
begin

text \<open>
  The running single-producer disruptor implements the channel of \<open>Broadcast\<close>: the buffer is the ring,
  what is sent are the events in the order of their sequences.
\<close>

definition sys_channel :: "'e system \<Rightarrow> 'e channel" where
  "sys_channel s = channel_of (seq_of s) (\<lambda>q. published s ! nat q) (p_phase s = Dropped) (consumer_at s)"

lemma sys_channel_same:
  "seq_of s' = seq_of s \<Longrightarrow> published s' = published s \<Longrightarrow> (p_phase s' = Dropped \<longleftrightarrow> p_phase s = Dropped) \<Longrightarrow>
   consumer_at s' = consumer_at s \<Longrightarrow> sys_channel s' = sys_channel s"
  by (simp add: sys_channel_def)

lemma sys_step_refines:
  assumes run: "reachable cfg s" and step: "sys_step cfg s s'"
  shows "sys_channel s' = sys_channel s \<or> channel_step cfg (nat (size_of s)) (sys_channel s) (sys_channel s')"
  using step
proof cases
  case (Claim p n msgs upper p' fs)
  then show ?thesis using uni_claim_keeps [OF Claim(7)] by (intro disjI1 sys_channel_same) simp_all
next
  case (Fill f fs it n p slot it')
  then show ?thesis by (intro disjI1 sys_channel_same) simp_all
next
  case (Publish fs it n p)
  note parts = reachable_parts [OF run] and run' = reachable.Step [OF run step]
  note parts' = reachable_parts [OF run']
  have S: "0 \<le> seq_of s" "length (published s) = nat (seq_of s)" "seq_of s' < 2 ^ 62"
    "length (published s') = nat (seq_of s')" "0 \<le> seq_of s'"
    using parts(1) parts'(1) by (auto simp: producer_inv_def)
  have pub: "published s' = published s @ map (ring_read (ring_buffer p)) [sequence p..last_sequence it]"
    "p_phase s' = Idle" "consumer_at s' = consumer_at s" "size_of s' = size_of s" using Publish by simp_all
  then have le: "seq_of s \<le> seq_of s'" using S by simp
  have "channel_step cfg (nat (size_of s)) (channel_of (seq_of s) (\<lambda>q. published s ! nat q) False (consumer_at s))
      (channel_of (seq_of s') (\<lambda>q. published s' ! nat q) False (consumer_at s))"
  proof (rule channel_of_grow [OF le S(1)])
    show "\<forall>q < seq_of s. 0 \<le> q \<longrightarrow> published s' ! nat q = published s ! nat q"
      using S pub(1) by (simp add: nth_append nat_less_eq_zless)
    have "seq_of s' - 1 \<le> clear_of s'" using parts'(1) pub(2) by (simp add: producer_inv_def)
    then show "\<forall>i\<in>set (all_consumers cfg). 0 \<le> next_seq (consumer_at s i)
        \<and> seq_of s' \<le> next_seq (consumer_at s i) + int (nat (size_of s))"
      using claim_below_lap [OF run'] crew_bounds(1) [OF parts(6)] pub(3,4) by fastforce
  qed simp
  then show ?thesis using Publish(2) pub(2,3) by (simp add: sys_channel_def)
next
  case (Unwind fs it n)
  then show ?thesis by (intro disjI1 sys_channel_same) simp_all
next
  case (Drop p)
  then have "sys_channel s' = (sys_channel s)\<lparr>closed := True\<rparr>" by (simp add: sys_channel_def channel_of_def)
  then show ?thesis using channel_step.Close by metis
next
  case (Consume cs P)
  note parts = reachable_parts [OF run]
  have ok: "producer_inv s \<and> memory_inv s" using parts by blast
  have lag: "\<forall>i\<in>set (all_consumers cfg). clear_of s - size_of s \<le> done_upto (consumer_at s i)"
    using parts(3) unfolding room_inv_def by blast
  from spmc.crew_step_refines [OF Consume(2) parts(6) ok lag, of "nat (size_of s)"] Consume(1)
  show ?thesis by (simp add: sys_channel_def)
qed

lemma sys_size_same: "sys_step cfg s s' \<Longrightarrow> size_of s' = size_of s"
  by (cases rule: sys_step.cases, assumption) (auto dest: uni_claim_keeps simp: update_at_def)

text \<open>
  C6. The running single-producer disruptor implements the broadcast channel with the ring as its
  buffer: what its clients have seen at any time is a state that the channel can reach, and each step of
  any thread is one step of the channel or invisible to them.
\<close>

theorem sys_refines_broadcast:
  assumes "reachable cfg s"
  shows "channel_reachable cfg (nat (size_of s)) (sys_channel s)
    \<and> (\<forall>s'. sys_step cfg s s' \<longrightarrow>
         sys_channel s' = sys_channel s \<or> channel_step cfg (nat (size_of s)) (sys_channel s) (sys_channel s'))"
proof -
  have "channel_reachable cfg (nat (size_of s)) (sys_channel s)"
    using assms
  proof induction
    case (Start p)
    then have "sys_channel (sys_init p) = channel_new"
      by (simp add: sys_channel_def channel_of_def sys_init_def consumer_init_def channel_new_def fresh_def)
    then show ?case by (simp add: channel_reachable.New)
  next
    case (Step s s')
    from sys_step_refines [OF Step(1,2)] Step(3) sys_size_same [OF Step(2)]
    show ?case by (auto intro: channel_reachable.Step)
  qed
  with sys_step_refines [OF assms] show ?thesis by blast
qed

theorem sys_refines_broadcast_witness:
  "sent (sys_channel (ex_run [] ex_lap)) = [7, 8] \<and> received (sys_channel (ex_run [] ex_lap)) 1 = [(0, 7), (1, 8)]
   \<and> channel_reachable (ex_cfg []) (nat (size_of (ex_run [] ex_lap))) (sys_channel (ex_run [] ex_lap))"
proof (intro conjI)
  let ?s = "ex_run [] ex_lap"
  have "published ?s = [7, 8]" "seq_of ?s = 2" by code_simp+
  then show "sent (sys_channel ?s) = [7, 8]" by (simp add: sys_channel_def channel_of_def upto.simps)
  have "map (\<lambda>(q, e, b). (nat q, e)) (c_log (consumer_at ?s 1)) = [(0, 7), (1, 8)]" by code_simp
  then show "received (sys_channel ?s) 1 = [(0, 7), (1, 8)]" by (simp add: sys_channel_def channel_of_def)
  show "channel_reachable (ex_cfg []) (nat (size_of ?s)) (sys_channel ?s)"
    using sys_refines_broadcast [OF ex_run_reachable] by blast
qed

end
