(* ===== verification/Mpmc_Refinement.thy ===== *)
theory Mpmc_Refinement
  imports Mpmc_Shutdown
begin

text \<open>
  The running multi-producer disruptor implements the channel of \<open>Broadcast\<close> as well: of an
  out-of-order publication the clients see nothing before the gap in front of it is closed, and then
  everything up to the next gap at once.
\<close>

definition mp_channel :: "'e mp_system \<Rightarrow> 'e channel" where
  "mp_channel s = channel_of (front s) (event_at s) (complete s) (consumer_at s)"

lemma mp_channel_same:
  "is_published s' = is_published s \<Longrightarrow> event_at s' = event_at s \<Longrightarrow> (complete s' \<longleftrightarrow> complete s) \<Longrightarrow>
   consumer_at s' = consumer_at s \<Longrightarrow> mp_channel s' = mp_channel s"
  using front_cong [of s' s] by (simp only: mp_channel_def)

lemma live_count_pos:
  assumes "mp_inv cfg gate s" "live (handles s k)"
  shows "0 < live_count (shared s)"
proof -
  note count = mp_inv_parts(5) [OF assms(1), unfolded count_inv_def]
  have "{k. live (handles s k)} \<noteq> {}" using assms(2) by blast
  with count have "0 < card {k. live (handles s k)}" by (simp add: card_gt_0_iff)
  with count show ?thesis by linarith
qed

lemma mp_step_refines:
  assumes run: "mp_reachable cfg s" and step: "mp_step cfg s s'"
  shows "mp_channel s' = mp_channel s \<or> channel_step cfg (nat (laps s)) (mp_channel s) (mp_channel s')"
proof -
  from mp_inv_reachable [OF run] obtain gate where inv: "mp_inv cfg gate s" .
  note parts = mp_inv_parts [OF inv] and inv' = mp_inv_step [OF step inv]
  note parts' = mp_inv_parts [OF inv']
  show ?thesis
    using step
  proof cases
    case (Begin h k n v fs)
    then show ?thesis by (intro disjI1 mp_channel_same) simp_all
  next
    case (Check h k cur n fs p n_next msgs p')
    then show ?thesis by (intro disjI1 mp_channel_same) simp_all
  next
    case (Refuse h k cur n fs p n_next msgs e)
    then show ?thesis by (intro disjI1 mp_channel_same) simp_all
  next
    case (Win h k cur n fs n_next old b)
    then have "is_published s' = is_published s"
      by (intro published_cong) (auto simp: mp_compare_exchange_def compare_exchange_def split_beta split: if_splits prod.splits)
    with Win(1) show ?thesis by (intro disjI1 mp_channel_same) simp_all
  next
    case (Lose h k cur n fs v)
    then show ?thesis by (intro disjI1 mp_channel_same) simp_all
  next
    case (Fill h k f fs it n \<sigma> slot it')
    then have "is_published s' = is_published s" by (intro published_cong) simp_all
    with Fill(1,4) show ?thesis by (intro disjI1 mp_channel_same) simp_all
  next
    case (Finish h k fs it n upper)
    then show ?thesis by (intro disjI1 mp_channel_same) simp_all
  next
    case (Unwind h k fs it n)
    then have "is_published s' = is_published s" by (intro published_cong) simp_all
    moreover have "0 < live_count (shared s)" using live_count_pos [OF inv, of k] Unwind(2,3) by (simp add: live_def)
    ultimately show ?thesis using Unwind(1) by (intro disjI1 mp_channel_same) simp_all
  next
    case (Flip h k q upper r b b' w)
    then have flip: "may_flip cfg gate s k q upper r" using inv by (simp add: may_flip_def)
    have s': "s' = set_handle k (h\<lparr>h_phase := Flipping (r + 1) upper\<rparr>) (flipped q r (h_view h) s)"
      using Flip by (simp add: flipped_def Let_def)
    note same = flipped_bits_simps [OF flip, of "h_view h"]
    have busy: "0 < live_count (shared s)" using live_count_pos [OF inv, of k] Flip(2,3) by (simp add: live_def)
    have grow: "channel_step cfg (nat (laps s)) (channel_of (front s) (event_at s) False (consumer_at s))
        (channel_of (front s') (event_at s') False (consumer_at s))"
    proof (rule channel_of_grow)
      have "\<not> is_published s (front s')"
        using front_least(1) [OF parts'(2)] flip_published [OF flip, of "h_view h" "front s'"] by (auto simp: s')
      then show "front s \<le> front s'" by (rule front_le [OF parts(2)]) (rule front_least(3) [OF parts'(2)])
      show "0 \<le> front s" by (rule front_least(3) [OF parts(2)])
      show "\<forall>t<front s. 0 \<le> t \<longrightarrow> event_at s' t = event_at s t"
        using flip_range(3,6) [OF flip] by (force simp: s' flipped_simps(11))
      show "\<forall>i\<in>set (all_consumers cfg). 0 \<le> next_seq (consumer_at s i)
          \<and> front s' \<le> next_seq (consumer_at s i) + int (nat (laps s))"
        using mp_lag [OF inv] crew_bounds(1) [OF mp_reachable_crew(1) [OF run]] front_least(4) [OF parts'(2)] same(1)
        by (fastforce simp: s')
    qed simp
    with busy show ?thesis by (simp add: mp_channel_def s' flipped_simps)
  next
    case (Return h k q upper)
    then show ?thesis by (intro disjI1 mp_channel_same) simp_all
  next
    case (Clone h k k' p' \<sigma>)
    then have "is_published s' = is_published s"
      by (intro published_cong) (auto simp: mp_clone_def Let_def split: if_splits)
    moreover have "0 < live_count (shared s)" using live_count_pos [OF inv, of k] Clone(2,3) by (simp add: live_def)
    moreover have "0 < live_count (shared s')" using live_count_pos [OF inv', of k'] Clone(1,2,3) by (simp add: live_def)
    ultimately show ?thesis using Clone(1) by (intro disjI1 mp_channel_same) simp_all
  next
    case (Drop h k \<sigma>)
    then have "is_published s' = is_published s" by (intro published_cong) simp_all
    moreover have "0 < live_count (shared s)" using live_count_pos [OF inv, of k] Drop(2,3) by (simp add: live_def)
    moreover from this have "i64 (live_count (shared s) - 1) = live_count (shared s) - 1"
      using parts(5) by (intro i64_id) (simp add: in_i64_iff count_inv_def)
    ultimately show ?thesis using Drop by (intro disjI1 mp_channel_same) simp_all
  next
    case (LastDrop h k \<sigma> v)
    then have pub: "is_published s' = is_published s" by (intro published_cong) simp_all
    have z: "i64 0 = 0" by (intro i64_id) (simp add: in_i64_iff)
    have "event_at s' = event_at s" "consumer_at s' = consumer_at s" "complete s' \<longleftrightarrow> lost s = {}" "\<not> complete s"
      using LastDrop by (simp_all add: z)
    with front_cong [OF pub] have eqs: "mp_channel s' = (mp_channel s)\<lparr>closed := lost s = {}\<rparr>" "mp_channel s = (mp_channel s)\<lparr>closed := False\<rparr>"
      by (simp_all add: mp_channel_def channel_of_def)
    show ?thesis using eqs channel_step.Close [of cfg "nat (laps s)" "mp_channel s"] by (cases "lost s = {}") simp_all
  next
    case (Consume cs P)
    then have pub: "is_published s' = is_published s" by (intro published_cong) simp_all
    have ok: "claims_inv s \<and> words_inv s \<and> writes_inv s \<and> count_inv s" using parts(2-5) by blast
    from mpmc.crew_step_refines [OF Consume(2) parts(8) [unfolded mp_crew_def] ok parts(7) [unfolded room_for_def], of "nat (laps s)"]
    show ?thesis using Consume(1) front_cong [OF pub] by (simp add: mp_channel_def)
  qed
qed

lemma mp_laps_same:
  assumes run: "mp_reachable cfg s" and step: "mp_step cfg s s'"
  shows "laps s' = laps s"
proof -
  from mp_inv_reachable [OF run] obtain gate where inv: "mp_inv cfg gate s" .
  show ?thesis
    using step
  proof cases
    case (Win h k cur n fs n_next old b)
    then show ?thesis
      by (auto simp: mp_compare_exchange_def compare_exchange_def split_beta split: if_splits prod.splits)
  next
    case (Flip h k q upper r b b' w)
    then have "may_flip cfg gate s k q upper r" using inv by (simp add: may_flip_def)
    from flipped_bits_simps(2) [OF this, of "h_view h"] Flip show ?thesis by (simp add: flipped_def Let_def)
  next
    case (Clone h k k' p' \<sigma>)
    then show ?thesis by (auto simp: mp_clone_def Let_def split: if_splits)
  qed simp_all
qed

text \<open>
  C5. The running disruptor with any number of producer handles implements the broadcast channel with
  the ring as its buffer, and out-of-order publications are invisible: what its clients have seen at any
  time is a state that the channel can reach, and each step of any thread is one step of the channel or
  invisible to them.
\<close>

theorem mp_refines_broadcast:
  assumes "mp_reachable cfg s"
  shows "channel_reachable cfg (nat (laps s)) (mp_channel s)
    \<and> (\<forall>s'. mp_step cfg s s' \<longrightarrow>
         mp_channel s' = mp_channel s \<or> channel_step cfg (nat (laps s)) (mp_channel s) (mp_channel s'))"
proof -
  have "channel_reachable cfg (nat (laps s)) (mp_channel s)"
    using assms
  proof induction
    case (Start p \<sigma>)
    from mp_inv_parts(2) [OF mp_inv_init [OF Start]] have claims: "claims_inv (mp_init p \<sigma>)" .
    have new: "mp_barrier_new (length (slots (ring_buffer \<sigma>))) = Inr (producer_barrier \<sigma>)" and ring: "wf_ring (ring_buffer \<sigma>)"
      using Start(1) by (simp_all add: mp_fresh_def)
    have "claimed (mp_init p \<sigma>) = -1"
      using mp_barrier_new_wf [OF new] ring by (simp add: wf_ring_def mp_init_def NONE_def)
    then have "front (mp_init p \<sigma>) = 0" using front_least(3,4) [OF claims] by simp
    moreover have "live_count (shared (mp_init p \<sigma>)) = 1" using Start(1) by (simp add: mp_fresh_def mp_init_def)
    ultimately have "mp_channel (mp_init p \<sigma>) = channel_new"
      by (simp add: mp_channel_def channel_of_def channel_new_def) (simp add: mp_init_def consumer_init_def)
    then show ?case by (simp add: channel_reachable.New)
  next
    case (Step s s')
    from mp_step_refines [OF Step(1,2)] Step(3) mp_laps_same [OF Step(1,2)]
    show ?case by (auto intro: channel_reachable.Step)
  qed
  with mp_step_refines [OF assms] show ?thesis by blast
qed

theorem mp_refines_broadcast_witness:
  "sent (mp_channel (mp_ex_run mp_ex_overtake)) = []
   \<and> sent (mp_channel (mp_ex_run mp_ex_done)) = [7, 8]
   \<and> channel_reachable mp_ex_cfg (nat (laps (mp_ex_run mp_ex_done))) (mp_channel (mp_ex_run mp_ex_done))"
proof (intro conjI)
  let ?s = "mp_ex_run mp_ex_overtake" and ?t = "mp_ex_run mp_ex_done"
  have claims: "claims_inv (mp_ex_run acts)" for acts
    using mp_inv_reachable [OF mp_ex_run_reachable] mp_inv_parts(2) by metis
  have "\<not> is_published ?s 0" by code_simp
  then have "front ?s = 0" by (intro front_unique [OF claims]) auto
  then show "sent (mp_channel ?s) = []" by (simp add: mp_channel_def channel_of_def)
  have "is_published ?t 0" "is_published ?t 1" "\<not> is_published ?t 2" by code_simp+
  moreover from this have "is_published ?t q" if "0 \<le> q" "q < 2" for q
  proof -
    have "q = 0 \<or> q = 1" using that by linarith
    with \<open>is_published ?t 0\<close> \<open>is_published ?t 1\<close> show ?thesis by blast
  qed
  ultimately have "front ?t = 2" by (intro front_unique [OF claims]) auto
  moreover have "event_at ?t 0 = 7" "event_at ?t 1 = 8" by code_simp+
  ultimately show "sent (mp_channel ?t) = [7, 8]" by (simp add: mp_channel_def channel_of_def upto.simps)
  show "channel_reachable mp_ex_cfg (nat (laps ?t)) (mp_channel ?t)"
    using mp_refines_broadcast [OF mp_ex_run_reachable] by blast
qed

end
