(* ===== verification/Poller_Steps.thy ===== *)
theory Poller_Steps
  imports Mpmc_Shutdown Event_Poller
begin

text \<open>
  The two models of a poller agree: its steps in the running systems are the operations \<open>poll_take\<close>,
  \<open>next\<close> and \<open>drop\<close> of \<open>Event_Poller\<close>, and a poll answers \<open>Shutdown\<close> only at the end of everything.
\<close>

section \<open>Steps and operations\<close>

text \<open>The guard that a poller's client holds, and the poller itself.\<close>

definition guard_of :: "('e, 'x) consumer_state \<Rightarrow> event_guard option" where
  "guard_of c = (case c_phase c of
     Handling a \<Rightarrow> Some \<lparr>guard_sequence = next_seq c, guard_available = a\<rparr> | _ \<Rightarrow> None)"

definition poller_of :: "config \<Rightarrow> arc \<Rightarrow> ('e, 'x) consumer_state \<Rightarrow> dependent event_poller" where
  "poller_of cfg i c = \<lparr>dependent_barrier = waits cfg i, poller_cursor = cursor_new (done_upto c)\<rparr>"

lemma waiting_done:
  assumes "crew_inv cfg gd cs P S ev fin" "i \<in> set (all_consumers cfg)" "c_phase (cs i) = Waiting"
  shows "done_upto (cs i) = next_seq (cs i) - 1"
  by (rule crew_cons [OF assms(1,2)]) (use assms(3) in \<open>simp add: cons_inv_def Let_def\<close>)

lemma poll_sequence:
  assumes inv: "crew_inv cfg gd cs P S ev fin" and i: "i \<in> set (all_consumers cfg)" and S: "S < 2 ^ 62"
    and phase: "c_phase (cs i) = Waiting"
  shows "i64 (relaxed_value (poller_cursor (poller_of cfg i (cs i))) + 1) = next_seq (cs i)"
    "relaxed_value (poller_cursor (poller_of cfg i (cs i))) = i64 (next_seq (cs i) - 1)"
proof -
  have "relaxed_value (poller_cursor (poller_of cfg i (cs i))) = next_seq (cs i) - 1"
    using waiting_done [OF inv i phase] by (simp add: poller_of_def cursor_new_def relaxed_value_def)
  moreover have "i64 (next_seq (cs i)) = next_seq (cs i)" "i64 (next_seq (cs i) - 1) = next_seq (cs i) - 1"
    using crew_bounds(1,2) [OF inv i] S by (auto intro!: i64_id simp: in_i64_iff)
  ultimately show "i64 (relaxed_value (poller_cursor (poller_of cfg i (cs i))) + 1) = next_seq (cs i)"
    "relaxed_value (poller_cursor (poller_of cfg i (cs i))) = i64 (next_seq (cs i) - 1)" by simp_all
qed

definition poller_operation :: "config \<Rightarrow> 'x source \<Rightarrow> sequence list \<Rightarrow> 'e ring_buffer \<Rightarrow> arc
    \<Rightarrow> (arc \<Rightarrow> ('e, 'x) consumer_state) \<Rightarrow> (arc \<Rightarrow> ('e, 'x) consumer_state) \<Rightarrow> bool" where
  "poller_operation cfg src marks rb i cs cs' \<longleftrightarrow>
     (\<exists>mark found V x limit g. guard_of (cs i) = None \<and> mark \<in> set marks \<and> looks cfg src cs i found V x
        \<and> poll_take (\<lambda>_ _ _. found) () mark limit (poller_of cfg i (cs i)) = Inr g
        \<and> guard_of (cs' i) = Some g \<and> poller_of cfg i (cs' i) = poller_of cfg i (cs i) \<and> c_log (cs' i) = c_log (cs i))
     \<or> (\<exists>g e g'. guard_of (cs i) = Some g \<and> guard_next rb g = (Some e, g')
        \<and> guard_of (cs' i) = Some g' \<and> poller_of cfg i (cs' i) = poller_of cfg i (cs i)
        \<and> c_log (cs' i) = c_log (cs i) @ [(guard_sequence g, e, False)])
     \<or> (\<exists>g. guard_of (cs i) = Some g \<and> guard_of (cs' i) = None
        \<and> poller_of cfg i (cs' i) = guard_drop g (poller_of cfg i (cs i)) \<and> c_log (cs' i) = c_log (cs i))"

lemma poller_step_operation:
  assumes inv: "crew_inv cfg gd cs P S ev fin" and S: "S < 2 ^ 62"
    and i: "i \<in> set (all_consumers cfg)" "is_poller cfg i"
    and step: "cons_step cfg src marks rb (cs, P) (cs', P')" and moved: "cs' i \<noteq> cs i"
  shows "poller_operation cfg src marks rb i cs cs'"
  using step
proof (cases rule: cons_step.cases)
  case (Poll k c mark found V x limit)
  then have k: "k = i" "c_phase (cs i) = Waiting" using moved by (auto split: if_splits)
  note seq = poll_sequence [OF inv i(1) S k(2)]
  have "poll_take (\<lambda>_ _ _. found) () mark limit (poller_of cfg i (cs i)) = Inr \<lparr>guard_sequence = next_seq (cs i),
      guard_available = min found (saturating_add_unsigned (i64 (next_seq (cs i) - 1)) limit)\<rparr>"
    unfolding poll_take_def Let_def seq(1) unfolding seq(2) using Poll k by simp
  with Poll k show ?thesis
    unfolding poller_operation_def by (intro disjI1) (auto simp: guard_of_def poller_of_def done_upto_def)
next
  case (Read k c found)
  then have k: "k = i" using moved by (auto split: if_splits)
  show ?thesis
    unfolding poller_operation_def
    by (rule disjI2, rule disjI1) (use Read k in \<open>auto simp: guard_of_def guard_next_def poller_of_def done_upto_def\<close>)
next
  case (DropGuard k c found)
  then have k: "k = i" using moved by (auto split: if_splits)
  show ?thesis
    unfolding poller_operation_def
    by (rule disjI2, rule disjI2)
      (use DropGuard k in \<open>auto simp: guard_of_def guard_drop_def poller_of_def done_upto_def cursor_store_def cursor_new_def\<close>)
qed (use i moved in \<open>auto split: if_splits\<close>)

section \<open>In the running system\<close>

text \<open>
  Whatever a poller of the running disruptor does is one of its operations: \<open>poll_take\<close> with any
  limit, on the result of a look at its barrier and a mark that it may have loaded, returns the guard the
  client then holds; \<open>next\<close> on that guard yields the event the client is given; and \<open>drop\<close> of the guard
  stores the poller's cursor.
\<close>

theorem pollers_run_operations:
  assumes run: "mp_reachable cfg s" and i: "i \<in> set (all_consumers cfg)" "is_poller cfg i"
    and step: "mp_step cfg s s'" and moved: "consumer_at s' i \<noteq> consumer_at s i"
  shows "poller_operation cfg (bits_look s) (shutdown_history s) (ring_buffer (shared s)) i (consumer_at s) (consumer_at s')"
proof -
  from mp_inv_reachable [OF run] obtain gate where inv: "mp_inv cfg gate s" .
  note parts = mp_inv_parts [OF inv]
  have "front s < 2 ^ 62" using front_least(4) [OF parts(2)] parts(13) by simp
  note op = poller_step_operation [OF parts(8) [unfolded mp_crew_def] this i]
  show ?thesis
    using step
  proof cases
    case (Consume cs P)
    with op [OF Consume(2)] moved show ?thesis by simp
  qed (use moved in simp_all)
qed

text \<open>
  C18. A poll answers \<open>Shutdown\<close> only when the last producer handle is gone, nothing is missing, and the
  poller has passed everything that was ever published; so no event is lost to an early answer.
\<close>

theorem poll_shutdown_is_the_end:
  assumes run: "mp_reachable cfg s" and i: "i \<in> set (all_consumers cfg)" and free: "c_phase (consumer_at s i) = Waiting"
    and mark: "m \<in> set (shutdown_history s)"
    and answer: "poll_take get_after mem m limit (poller_of cfg i (consumer_at s i)) = Inl Shutdown"
  shows "complete s \<and> next_seq (consumer_at s i) = claimed s + 1 \<and> (\<forall>q. is_published s q \<longrightarrow> q < next_seq (consumer_at s i))"
proof -
  from mp_inv_reachable [OF run] obtain gate where inv: "mp_inv cfg gate s" .
  note parts = mp_inv_parts [OF inv] and crew = mp_reachable_crew(1) [OF run]
  have ok: "claims_inv s \<and> words_inv s \<and> writes_inv s \<and> count_inv s" using parts(2-5) by blast
  have "front s < 2 ^ 62" using front_least(4) [OF parts(2)] parts(13) by simp
  note seq = poll_sequence(1) [OF crew i this free]
  have m: "next_seq (consumer_at s i) = m"
    using answer unfolding poll_take_def Let_def seq by (auto split: if_splits)
  then have "front s = m" "complete s" using mpmc.marked [OF ok mark] crew_bounds(1,2) [OF crew i] by auto
  moreover from this have "front s = claimed s + 1" using all_handles_gone(2) [OF run] by blast
  ultimately show ?thesis using m claims_published_le [OF parts(2)] by force
qed

section \<open>A run with a poller\<close>

definition mp_poll_cfg :: config where
  "mp_poll_cfg = mp_ex_cfg\<lparr>is_poller := (\<lambda>i. i = 1)\<rparr>"

definition mp_poll_run :: "int mp_act list \<Rightarrow> int mp_system" where
  "mp_poll_run acts = fold (mp_perform mp_poll_cfg) acts (mp_init (fst mp_ex_start) (snd mp_ex_start))"

definition mp_ex_polled :: "int mp_act list" where
  "mp_ex_polled = [MpBegin 0 2 [\<lambda>_. 7, \<lambda>_. 8], MpCheck 0, MpRace 0, MpFill 0, MpFill 0, MpFinish 0, MpFlip 0, MpReturn 0, MpDrop 0]
     @ map MpConsume [DoLook 0, DoHandle 0, DoHandle 0, DoAdvance 0, DoPoll 1 5, DoRead 1, DoDropGuard 1]"

lemma mp_poll_reachable: "mp_reachable mp_poll_cfg (mp_poll_run acts)"
proof -
  have "wf_config mp_poll_cfg (consumer_barrier (fst mp_ex_start))"
    using wf_mp_ex_cfg by (simp add: wf_config_def mp_poll_cfg_def)
  with fresh_mp_ex show ?thesis unfolding mp_poll_run_def by (rule mp_reachable_performs)
qed

lemma mp_poller_1: "1 \<in> set (all_consumers mp_poll_cfg)" "is_poller mp_poll_cfg 1"
  by (simp_all add: mp_poll_cfg_def mp_ex_cfg_def)

theorem pollers_run_operations_witness:
  "let s = mp_poll_run (take 14 mp_ex_polled); s' = mp_poll_run (take 15 mp_ex_polled) in
     c_log (consumer_at s' 1) = [(0, 7, False)]
     \<and> poller_operation mp_poll_cfg (bits_look s) (shutdown_history s) (ring_buffer (shared s)) 1 (consumer_at s) (consumer_at s')"
  unfolding Let_def
proof
  let ?s = "mp_poll_run (take 14 mp_ex_polled)" and ?t = "mp_poll_run (take 15 mp_ex_polled)"
  show log: "c_log (consumer_at ?t 1) = [(0, 7, False)]" by code_simp
  have "c_log (consumer_at ?s 1) = []" by code_simp
  with log have moved: "consumer_at ?t 1 \<noteq> consumer_at ?s 1" by force
  have "?t = mp_perform mp_poll_cfg (MpConsume (DoRead 1)) ?s"
    by (simp add: mp_poll_run_def mp_ex_polled_def take_Cons' del: mp_perform.simps)
  moreover from mp_inv_reachable [OF mp_poll_reachable] obtain gate where "mp_inv mp_poll_cfg gate ?s" .
  ultimately have "mp_step mp_poll_cfg ?s ?t" using mp_perform_step moved by metis
  from pollers_run_operations [OF mp_poll_reachable mp_poller_1 this moved]
  show "poller_operation mp_poll_cfg (bits_look ?s) (shutdown_history ?s) (ring_buffer (shared ?s)) 1 (consumer_at ?s) (consumer_at ?t)" .
qed

theorem poll_shutdown_is_the_end_witness:
  "poll_take (\<lambda>_ _ _. 1) () 2 5 (poller_of mp_poll_cfg 1 (consumer_at (mp_poll_run mp_ex_polled) 1)) = Inl Shutdown
   \<and> next_seq (consumer_at (mp_poll_run mp_ex_polled) 1) = claimed (mp_poll_run mp_ex_polled) + 1"
proof
  let ?s = "mp_poll_run mp_ex_polled"
  have "done_upto (consumer_at ?s 1) = 1" by code_simp
  then show answer: "poll_take (\<lambda>_ _ _. 1) () 2 5 (poller_of mp_poll_cfg 1 (consumer_at ?s 1)) = Inl Shutdown"
    by (simp add: poll_take_def poller_of_def cursor_new_def relaxed_value_def i64_id in_i64_iff)
  have "c_phase (consumer_at ?s 1) = Waiting" "2 \<in> set (shutdown_history ?s)" by code_simp+
  from poll_shutdown_is_the_end [OF mp_poll_reachable mp_poller_1(1) this answer]
  show "next_seq (consumer_at ?s 1) = claimed ?s + 1" by blast
qed

end
