(* ===== verification/Spec2Isabelle.thy ===== *)
theory Spec2Isabelle
  imports Consumer_Threads Built_Mp_System Spmc_Operations Spmc_Refinement Mpmc_Refinement Poller_Steps
begin

text \<open>
  A verification development for calvera, a lock-free ring buffer library for communication between
  threads (the LMAX Disruptor pattern). Paths below are relative to the crate.

  \<^bold>\<open>The program.\<close> Producers write events into the slots of a ring whose size is a power of two, and
  publish their sequence numbers. Consumers wait on a barrier until the next sequences are
  available, handle them in order, and store the last one in their own cursor. Consumers form
  stages: the first stage waits for the producers, each later one for all consumers of the stage
  before, and the producers for all consumers of the last, so that no slot is overwritten before
  everyone has read it. A client builds a disruptor through a typestate builder, gets a producer
  (cloneable or not) and pollers, and shuts everything down by dropping the producers.

  \<^bold>\<open>The theories\<close>, each importing those it calls:
  \<^item> \<open>Prelude\<close>: \<open>i64\<close>, \<open>u64\<close> and \<open>usize\<close>, panics, powers of two, folds for minima.
  \<^item> \<open>Ring_Buffer\<close> (\<open>src/ring_buffer.rs\<close>): construction, slot index, count of free slots; indices stay
    in bounds and sequences less than a lap apart have different slots.
  \<^item> \<open>Cursor\<close> (\<open>src/_periphery/cursor.rs\<close>, \<open>src/errors.rs\<close>): the atomic counter and the errors; racing
    claims are disjoint.
  \<^item> \<open>Barriers\<close> (\<open>src/_periphery/barrier.rs\<close>, \<open>src/consumer/mod.rs\<close>): the \<open>Barrier\<close> trait as the locale
    \<open>barrier\<close>, the two barriers over consumer cursors as interpretations, and joining a consumer.
  \<^item> \<open>Producer_Common\<close> (\<open>src/producer/mod.rs\<close>): the batch iterator and the busy-wait on a claim; the
    locale \<open>claimer\<close>.
  \<^item> \<open>Uni_Producer\<close> (\<open>src/producer/uni.rs\<close>): the single producer with its cached bound; the cache never
    changes an answer, publication refines writing a list of events, waiting ends.
  \<^item> \<open>Multi_Barrier\<close>, \<open>Multi_Producer\<close> (\<open>src/producer/multi.rs\<close>): the availability bits on \<open>64 word\<close>, flipped
    a word at a time and scanned for the first hole; the claim loop under interference, publication,
    and the counted clones.
  \<^item> \<open>Managed_Consumer\<close>, \<open>Consumer_Threads\<close> (\<open>src/consumer/managed.rs\<close>, \<open>src/_periphery/wait_strategies.rs\<close>):
    the thread's wait, batch and loop, proved once in \<open>waited_barrier\<close> and used behind each kind of
    barrier.
  \<^item> \<open>Event_Poller\<close> (\<open>src/consumer/unmanaged.rs\<close>): polling, the guard as an iterator, its drop.
  \<^item> \<open>Builder\<close>, \<open>Builder_Wiring\<close> (\<open>src/builder/*.rs\<close>, \<open>src/disruptor.rs\<close>, \<open>src/_periphery/affinity.rs\<close>): every
    method of the typestate builders; chains of calls, which never panic and wire the stages.
  \<^item> \<open>Consumer_Steps\<close>, \<open>Consumer_Runs\<close>, \<open>Consumer_Schedule\<close>: the threads and pollers of a running disruptor as
    atomic steps behind any producer, given by the locale \<open>source\<close>; their invariant, what it means for
    delivery, stages, a thread that panics and the end, and a scheduler for concrete runs. A \<open>thread_run\<close> counts
    the steps of threads in a run, so that the bounds on them hold whatever pollers do, or do not, in between.
  \<^item> \<open>Broadcast\<close>: what a disruptor promises its clients, as a bounded broadcast channel without sequences,
    slots or memory; the consumers refine it behind any producer.
  \<^item> \<open>Spmc_System\<close>, \<open>Spmc_Safety\<close>, \<open>Spmc_Shutdown\<close>: one producer and its consumers running together; no
    data race, delivery in order, stages in order, catching up, and the end after a drop.
    \<open>Spmc_Refinement\<close>: it implements the channel. \<open>Spmc_Operations\<close>: its publications are executions of the
    operations of \<open>Uni_Producer\<close>.
  \<^item> \<open>Mpmc_System\<close>, \<open>Mpmc_Steps\<close>: any number of producer handles and their consumers running together, the
    invariant of their reachable states, and that every step keeps it; \<open>Mpmc_Schedule\<close>, \<open>Mpmc_Safety\<close>,
    \<open>Mpmc_Shutdown\<close>: concrete runs, exclusive claims, no data race, delivery, the last drop,
    and what a panic inside a claim or in a consumer thread does. \<open>Mpmc_Refinement\<close>: it implements the
    channel. \<open>Poller_Steps\<close>: its pollers run the operations of \<open>Event_Poller\<close>, and are told of the shutdown
    only at the end.
  \<^item> \<open>Built_System\<close>, \<open>Built_Mp_System\<close>: what the two builders build is a start state of these systems.

  \<^bold>\<open>Conventions.\<close> A struct is a record with the source's fields, an \<open>Arc<Cursor>\<close> an address into a
  store, a slot pointer its index. \<open>i64\<close> wraps after every operation, as in a release build; theorems
  that need exact arithmetic keep all sequences below \<open>2 ^ 62\<close>, more than any real run publishes. A panic is a
  value of \<open>fallible\<close>, and a loop that may not end is \<open>partial_function (option)\<close> with \<open>None\<close> for divergence,
  so its theorems state that it returns. No fuel is used. Closures of the client are functions, and
  a batch closure is the list of updates it makes through the iterator.

  \<^bold>\<open>Interleaving.\<close> An operation of one thread is a function of what it finds in memory; for the multi
  producer and the consumer loops a function of time says what the others do between its atomic
  steps. The systems interleave whole threads over a memory in which relaxed loads may be stale:
  a location keeps every value it had, with what a release store or a release sequence of \<open>fetch_xor\<close>
  makes visible, and a thread never reads older than it has read before. The two systems share the
  consumers through the locale \<open>source\<close>, which each interprets with its own producer side.

  \<^bold>\<open>Not modelled.\<close> The loom half of \<open>src/sync.rs\<close>, the tests in \<open>src/lib.rs\<close>, \<open>tests/\<close>, \<open>benches/\<close> and the TLA+
  models: they are no part of the running program. Failing thread creation and the
  operating system's affinity call, whose result the code ignores: nothing of the crate depends on
  them. A poisoned mutex: only the last drop can panic while it holds the mutex, when no handle is left
  to lock it. In the systems a panic is that of a client's closure, event handler, state initialisation
  or wait strategy; the panics of the library itself (\<open>fallible\<close>) are those of its operations. What a client
  does past the protocol: leaking a poller's guard (\<open>mem::forget\<close>) instead of dropping it, so that the next
  poll hands out the same events again, and keeping an event reference of a batch beyond its closure, which
  the lifetime in \<open>MutBatchIter\<close> does not prevent. In the model a closure's writes end before the
  publication. The systems take batches of less than \<open>2 ^ 62\<close> events; what larger ones do, which wrap, is
  shown of the operations.
\<close>

end
